(* ===== verification/Nux_Prelude.thy ===== *)
theory Nux_Prelude
  imports Main "HOL-Library.Word" "HOL-Library.Monad_Syntax"
begin

text \<open>
  Shared vocabulary of the development: the C integer types of an LP64 target
  (\<^verbatim>\<open>unsigned\<close> is 32 bits, \<^verbatim>\<open>unsigned long\<close>, \<^verbatim>\<open>size_t\<close> and pointers are 64 bits)
  as machine words, the basic types and constants of \<^verbatim>\<open>include/nux/types.h\<close> and
  \<^verbatim>\<open>include/nux/defs.h\<close>, the compiler's bit-counting builtins, and the lemmas on words,
  lists and options that the components share.

  A C function that can stop without returning (a failed \<^verbatim>\<open>assert\<close>, a spin on a lock that
  nobody will release, an access outside the memory it owns) is a function into
  \<open>option\<close>: \<open>None\<close> is "does not return". The theorems that matter therefore say that
  the result is \<open>Some\<close>.
\<close>

unbundle bit_operations_syntax

named_theorems nux_defs \<open>definitions to unfold when a model function is run\<close>
named_theorems nux_arith \<open>word and size arithmetic shared by the components\<close>

section \<open>Machine types and constants\<close>

type_synonym u8 = "8 word"
type_synonym u16 = "16 word"
type_synonym u32 = "32 word"
type_synonym u64 = "64 word"

type_synonym paddr_t = u64
type_synonym vaddr_t = u64
type_synonym uaddr_t = u64
type_synonym pfn_t = u64
type_synonym size_t = u64

abbreviation (input) PADDR_INVALID :: paddr_t where "PADDR_INVALID \<equiv> - 1"
abbreviation (input) VADDR_INVALID :: vaddr_t where "VADDR_INVALID \<equiv> - 1"
abbreviation (input) UADDR_INVALID :: uaddr_t where "UADDR_INVALID \<equiv> - 1"
abbreviation (input) PFN_INVALID :: pfn_t where "PFN_INVALID \<equiv> - 1"

abbreviation (input) PAGE_SHIFT :: nat where "PAGE_SHIFT \<equiv> 12"
abbreviation (input) PAGE_SIZE :: u64 where "PAGE_SIZE \<equiv> 4096"
abbreviation (input) PAGE_MASK :: u64 where "PAGE_MASK \<equiv> 4095"

definition trunc_page :: "u64 \<Rightarrow> u64" where
  "trunc_page x = x AND NOT (PAGE_SIZE - 1)"

definition round_page :: "u64 \<Rightarrow> u64" where
  "round_page x = trunc_page (x + PAGE_SIZE - 1)"

definition ptob :: "u64 \<Rightarrow> paddr_t" where
  "ptob x = push_bit PAGE_SHIFT x"

definition btop :: "u64 \<Rightarrow> u64" where
  "btop x = drop_bit PAGE_SHIFT x"

section \<open>Bit counting\<close>

text \<open>
  The compiler builtins \<^verbatim>\<open>__builtin_ctzll\<close>, \<^verbatim>\<open>__builtin_clzll\<close> and
  \<^verbatim>\<open>__builtin_popcount\<close>. C leaves the first two undefined at zero; the model gives the
  width there and every use below is guarded.
\<close>

definition ctz :: "'a::len word \<Rightarrow> nat" where
  "ctz w = length (takeWhile (\<lambda>i. \<not> bit w i) [0..<LENGTH('a)])"

definition clz :: "'a::len word \<Rightarrow> nat" where
  "clz w = length (takeWhile (\<lambda>i. \<not> bit w (LENGTH('a) - 1 - i)) [0..<LENGTH('a)])"

definition popcount :: "'a::len word \<Rightarrow> nat" where
  "popcount w = length (filter (bit w) [0..<LENGTH('a)])"

definition msb_index :: "'a::len word \<Rightarrow> nat" where
  "msb_index w = LENGTH('a) - 1 - clz w"

lemma length_takeWhile_upt:
  assumes "k < n" "P k" "\<And>i. i < k \<Longrightarrow> \<not> P i"
  shows "length (takeWhile (\<lambda>i. \<not> P i) [0..<n]) = k"
proof -
  have "[0..<n] = [0..<k] @ k # [Suc k..<n]"
    using assms(1) upt_add_eq_append [of 0 k "n - k"] by (simp add: upt_conv_Cons)
  moreover have "takeWhile (\<lambda>i. \<not> P i) ([0..<k] @ k # [Suc k..<n]) = [0..<k]"
    using assms(2,3) by (subst takeWhile_append2) auto
  ultimately show ?thesis by simp
qed

lemma word_neq_0_obtain_low:
  fixes w :: "'a::len word"
  assumes "w \<noteq> 0"
  obtains k where "k < LENGTH('a)" "bit w k" "\<And>i. i < k \<Longrightarrow> \<not> bit w i"
proof -
  from assms have "\<exists>k. bit w k"
    by (metis bit_0_eq bit_word_eqI bot_apply bot_bool_def)
  then have "bit w (LEAST k. bit w k)" by (rule LeastI_ex)
  moreover have "\<And>i. i < (LEAST k. bit w k) \<Longrightarrow> \<not> bit w i"
    using not_less_Least by blast
  ultimately show thesis
    using that bit_imp_le_length by blast
qed

lemma word_neq_0_obtain_high:
  fixes w :: "'a::len word"
  assumes "w \<noteq> 0"
  obtains k where "k < LENGTH('a)" "bit w k" "\<And>i. k < i \<Longrightarrow> \<not> bit w i"
proof -
  let ?S = "{i. bit w i}"
  have fin: "finite ?S"
    by (rule finite_subset [of _ "{..<LENGTH('a)}"]) (auto dest: bit_imp_le_length)
  from assms have ne: "?S \<noteq> {}"
    by (metis (mono_tags, lifting) bit_0_eq bit_word_eqI bot_apply bot_bool_def empty_Collect_eq)
  have "bit w (Max ?S)" using Max_in [OF fin ne] by simp
  moreover have "\<not> bit w i" if "Max ?S < i" for i
    using Max_ge [OF fin, of i] that by (auto simp: not_less [symmetric])
  ultimately show thesis using that bit_imp_le_length by blast
qed

lemma ctz_eqI:
  fixes w :: "'a::len word"
  assumes "bit w k" "\<And>i. i < k \<Longrightarrow> \<not> bit w i"
  shows "ctz w = k"
  unfolding ctz_def using assms bit_imp_le_length
  by (intro length_takeWhile_upt) auto

lemma ctz_props:
  fixes w :: "'a::len word"
  assumes "w \<noteq> 0"
  shows "ctz w < LENGTH('a)" "bit w (ctz w)" "i < ctz w \<Longrightarrow> \<not> bit w i"
proof -
  obtain k where "k < LENGTH('a)" "bit w k" "\<And>i. i < k \<Longrightarrow> \<not> bit w i"
    using assms word_neq_0_obtain_low by blast
  moreover from this have "ctz w = k" by (intro ctz_eqI)
  ultimately show "ctz w < LENGTH('a)" "bit w (ctz w)" "i < ctz w \<Longrightarrow> \<not> bit w i" by auto
qed

lemma clz_eqI:
  fixes w :: "'a::len word"
  assumes "bit w k" "\<And>i. k < i \<Longrightarrow> \<not> bit w i"
  shows "clz w = LENGTH('a) - 1 - k"
proof -
  have k: "k < LENGTH('a)" using assms(1) bit_imp_le_length by blast
  show ?thesis unfolding clz_def
  proof (rule length_takeWhile_upt)
    show "LENGTH('a) - 1 - k < LENGTH('a)" using k by simp
    show "bit w (LENGTH('a) - 1 - (LENGTH('a) - 1 - k))" using k assms(1) by simp
  next
    fix i assume "i < LENGTH('a) - 1 - k"
    then have "k < LENGTH('a) - 1 - i" by arith
    then show "\<not> bit w (LENGTH('a) - 1 - i)" by (rule assms(2))
  qed
qed

lemma msb_index_eqI:
  fixes w :: "'a::len word"
  assumes "bit w k" "\<And>i. k < i \<Longrightarrow> \<not> bit w i"
  shows "msb_index w = k"
  using clz_eqI [OF assms] bit_imp_le_length [OF assms(1)] by (simp add: msb_index_def)

lemma msb_index_props:
  fixes w :: "'a::len word"
  assumes "w \<noteq> 0"
  shows "msb_index w < LENGTH('a)" "bit w (msb_index w)" "msb_index w < i \<Longrightarrow> \<not> bit w i"
proof -
  obtain k where "k < LENGTH('a)" "bit w k" "\<And>i. k < i \<Longrightarrow> \<not> bit w i"
    using assms word_neq_0_obtain_high by blast
  moreover from this have "msb_index w = k" by (intro msb_index_eqI)
  ultimately show "msb_index w < LENGTH('a)" "bit w (msb_index w)" "msb_index w < i \<Longrightarrow> \<not> bit w i"
    by auto
qed

lemma msb_index_bounds:
  fixes w :: "'a::len word"
  assumes "w \<noteq> 0"
  shows "2 ^ msb_index w \<le> unat w" "unat w < 2 ^ Suc (msb_index w)"
proof -
  note p = msb_index_props [OF assms]
  have "bit (unat w) (msb_index w)" using p(2) by (simp add: bit_unsigned_iff)
  then show "2 ^ msb_index w \<le> unat w"
    by (metis bit_iff_odd div_less even_zero not_less)
  have "take_bit (Suc (msb_index w)) (unat w) = unat w"
    by (rule bit_eqI) (auto simp: bit_take_bit_iff bit_unsigned_iff less_Suc_eq_le not_less [symmetric] dest: p(3))
  then show "unat w < 2 ^ Suc (msb_index w)"
    by (metis take_bit_nat_less_exp)
qed

lemma msb_index_unique:
  fixes w :: "'a::len word"
  assumes "2 ^ k \<le> unat w" "unat w < 2 ^ Suc k"
  shows "msb_index w = k"
proof -
  have nz: "w \<noteq> 0" using assms(1) by (metis le_zero_eq power_not_zero unat_0 zero_neq_numeral)
  note b = msb_index_bounds [OF nz]
  have "2 ^ k < (2::nat) ^ Suc (msb_index w)" using assms(1) b(2) by (rule le_less_trans)
  moreover have "2 ^ msb_index w < (2::nat) ^ Suc k" using b(1) assms(2) by (rule le_less_trans)
  ultimately have "k < Suc (msb_index w)" "msb_index w < Suc k"
    using power_strict_increasing_iff [of "2::nat"] by (simp_all only: one_less_numeral_iff semiring_norm)
  then show ?thesis by simp
qed

lemma popcount_card: "popcount (w::'a::len word) = card {i. bit w i}"
proof -
  have "{i. bit w i} = set (filter (bit w) [0..<LENGTH('a)])"
    by (auto dest: bit_imp_le_length)
  then show ?thesis
    unfolding popcount_def by (simp only: distinct_card distinct_filter distinct_upt)
qed

section \<open>Word arithmetic\<close>

lemma unat_less: "unat (w :: 'a::len word) < 2 ^ LENGTH('a)"
  by (rule unsigned_less)

lemma unat_of_nat_less: "n < 2 ^ LENGTH('a) \<Longrightarrow> unat (of_nat n :: 'a::len word) = n"
  by (simp add: unat_of_nat take_bit_nat_eq_self)

lemma unat_ucast_less:
  assumes "unat w < 2 ^ LENGTH('b)"
  shows "unat (ucast (w::'a::len word) :: 'b::len word) = unat w"
proof -
  have "unat (ucast w :: 'b word) = take_bit LENGTH('b) (unat w)"
    by (simp add: unsigned_ucast_eq unsigned_take_bit_eq)
  then show ?thesis using assms by (simp add: take_bit_nat_eq_self)
qed

lemma unat_minus_1 [simp]: "unat (- 1 :: 'a::len word) = 2 ^ LENGTH('a) - 1"
  by (simp add: unsigned_minus_1_eq_mask mask_eq_exp_minus_1)

lemma unat_2_power: "k < LENGTH('a) \<Longrightarrow> unat (2 ^ k :: 'a::len word) = 2 ^ k"
  using unat_of_nat_less [of "2 ^ k", where 'a = 'a] by simp

lemma unat_add_less:
  "unat (a::'a::len word) + unat b < 2 ^ LENGTH('a) \<Longrightarrow> unat (a + b) = unat a + unat b"
  by (simp add: unat_word_ariths)

lemma unat_add_wrap:
  assumes "2 ^ LENGTH('a) \<le> unat (a::'a::len word) + unat b"
  shows "unat (a + b) = unat a + unat b - 2 ^ LENGTH('a)"
proof -
  have "unat a < 2 ^ LENGTH('a)" "unat b < 2 ^ LENGTH('a)" by (rule unsigned_less)+
  then have "unat a + unat b < 2 * 2 ^ LENGTH('a)" by linarith
  then show ?thesis using assms by (simp add: unat_word_ariths le_mod_geq)
qed

lemma unat_diff_le: "b \<le> a \<Longrightarrow> unat ((a::'a::len word) - b) = unat a - unat b"
  by (simp add: unat_sub)

lemma unat_drop_bit: "unat (drop_bit n (w::'a::len word)) = unat w div 2 ^ n"
  by (simp only: unat_drop_bit_eq) (simp only: drop_bit_eq_div)

lemma unat_and_mask: "unat (w AND mask n) = unat (w::'a::len word) mod 2 ^ n"
  by (simp only: take_bit_eq_mask [symmetric] unsigned_take_bit_eq) (simp only: take_bit_eq_mod)

lemma unat_mask: "k < LENGTH('a) \<Longrightarrow> unat (mask k :: 'a::len word) = 2 ^ k - 1"
  by (simp add: mask_eq_decr_exp unat_diff_le unat_2_power word_le_nat_alt)

lemma unat_push_bit_less:
  "unat (w::'a::len word) * 2 ^ n < 2 ^ LENGTH('a) \<Longrightarrow> unat (push_bit n w) = unat w * 2 ^ n"
  by (simp only: unsigned_push_bit_eq) (simp add: push_bit_eq_mult take_bit_nat_eq_self)

lemma sint_eq_unat:
  assumes "unat w < 2 ^ (LENGTH('a) - 1)"
  shows "sint (w::'a::len word) = int (unat w)"
proof -
  have "uint w < 2 ^ (LENGTH('a) - 1)" using assms by (metis of_nat_less_iff of_nat_numeral of_nat_power uint_nat)
  moreover have "0 \<le> uint w" by simp
  moreover have "- (2 ^ (LENGTH('a) - 1)) \<le> (0::int)" by simp
  ultimately have "sint w = uint w"
    unfolding sint_uint One_nat_def by (intro signed_take_bit_int_eq_self) linarith+
  then show ?thesis by (simp only: uint_nat)
qed

lemma and_63_eq: "(w::'a::len word) AND 63 = w AND mask 6"
  by (simp add: mask_numeral)

lemma and_4095_eq: "(w::'a::len word) AND 4095 = w AND mask 12"
  by (simp add: mask_numeral)

lemma bit_unat_iff: "bit (unat w) j \<longleftrightarrow> bit (w::'a::len word) j"
  by (simp add: bit_unsigned_iff)

lemma not_bit_ge:
  assumes "unat (w::'a::len word) < 2 ^ k" "k \<le> j"
  shows "\<not> bit w j"
proof -
  have "unat w < 2 ^ j" using assms(1) power_increasing [OF assms(2), of "2::nat"] by linarith
  then have "\<not> bit (unat w) j" by (simp add: bit_iff_odd)
  then show ?thesis by (simp only: bit_unat_iff not_False_eq_True)
qed

lemma bit_iff_mod_div: "bit (x::nat) k \<longleftrightarrow> (x div 2 ^ k) mod 2 = 1"
  by (simp add: bit_iff_odd odd_iff_mod_2_eq_one)

lemma trunc_page_unat: "unat (trunc_page x) = unat x div 4096 * 4096"
proof -
  have "trunc_page x = x AND NOT (mask 12)"
    by (simp add: trunc_page_def mask_numeral)
  also have "\<dots> = push_bit 12 (drop_bit 12 x)"
    by (rule bit_word_eqI) (auto simp: bit_simps)
  also have "unat \<dots> = unat x div 2 ^ 12 * 2 ^ 12"
    using le_less_trans [OF div_times_less_eq_dividend unsigned_less, of x "2 ^ 12"]
    by (subst unat_push_bit_less) (simp_all only: unat_drop_bit)
  finally show ?thesis by simp
qed

lemma trunc_page_le: "trunc_page x \<le> x"
  by (simp add: word_le_nat_alt trunc_page_unat)

lemma round_page_unat:
  assumes "unat x + 4095 < 2 ^ 64"
  shows "unat (round_page x) = (unat x + 4095) div 4096 * 4096"
proof -
  have "unat (x + PAGE_SIZE - 1) = unat x + 4095"
    using assms by (simp add: add_diff_eq [symmetric] unat_word_ariths)
  then show ?thesis by (simp add: round_page_def trunc_page_unat)
qed

end
