(* ===== verification/Locks.thy ===== *)
theory Locks
  imports Nux_Prelude
begin

text \<open>
  The spinlocks and readers-writer locks of \<^verbatim>\<open>include/nux/locks.h\<close>, twice.

  First as one CPU runs them: \<open>spinlock\<close> on a lock that is already held never returns (\<open>None\<close>).
  The other components use these functions, so that a path that forgets to release a lock, or that
  takes one twice, is visible in their theorems.

  Then as several CPUs run them: a step relation whose program counters are the atomic accesses of
  the C functions, in which any CPU may move at any time. There the theorems are mutual exclusion
  and the absence of deadlock.
\<close>

section \<open>One CPU\<close>

record lock_t =
  lck :: int
  lockcy :: u64

record rwlock_t =
  rdrs :: u32
  lr :: lock_t
  lg :: lock_t

definition spinlock_init :: "lock_t \<Rightarrow> lock_t" where
  "spinlock_init l = \<lparr>lck = 0, lockcy = 0\<rparr>"

definition spinlock :: "lock_t \<Rightarrow> lock_t option" where
  "spinlock l = (if lck l = 0 then Some (l\<lparr>lck := 1\<rparr>) else None)"

definition spinunlock :: "lock_t \<Rightarrow> lock_t" where
  "spinunlock l = l\<lparr>lck := 0\<rparr>"

text \<open>The measuring variants read the cycle counter twice; the readings are arguments.\<close>

definition spinlock_msr :: "u64 \<Rightarrow> u64 \<Rightarrow> lock_t \<Rightarrow> (u64 \<times> lock_t) option" where
  "spinlock_msr start now l =
     do { l \<leftarrow> spinlock l;
          let l = l\<lparr>lockcy := now\<rparr>;
          Some (lockcy l - start, l) }"

definition spinunlock_msr :: "u64 \<Rightarrow> lock_t \<Rightarrow> u64 \<times> lock_t" where
  "spinunlock_msr now l = (let l = spinunlock l in (now - lockcy l, l))"

definition rwlock_init :: "rwlock_t \<Rightarrow> rwlock_t" where
  "rwlock_init rw = rw\<lparr>rdrs := 0, lr := spinlock_init (lr rw), lg := spinlock_init (lg rw)\<rparr>"

definition readlock :: "rwlock_t \<Rightarrow> rwlock_t option" where
  "readlock rw =
     do { l \<leftarrow> spinlock (lr rw);
          let first = (rdrs rw = 0);
          g \<leftarrow> (if first then spinlock (lg rw) else Some (lg rw));
          Some (rw\<lparr>rdrs := rdrs rw + 1, lg := g, lr := spinunlock l\<rparr>) }"

definition readunlock :: "rwlock_t \<Rightarrow> rwlock_t option" where
  "readunlock rw =
     do { l \<leftarrow> spinlock (lr rw);
          let r = rdrs rw - 1;
          let g = (if r = 0 then spinunlock (lg rw) else lg rw);
          Some (rw\<lparr>rdrs := r, lg := g, lr := spinunlock l\<rparr>) }"

definition writelock :: "rwlock_t \<Rightarrow> rwlock_t option" where
  "writelock rw = do { g \<leftarrow> spinlock (lg rw); Some (rw\<lparr>lg := g\<rparr>) }"

definition writeunlock :: "rwlock_t \<Rightarrow> rwlock_t" where
  "writeunlock rw = rw\<lparr>lg := spinunlock (lg rw)\<rparr>"

abbreviation unlocked :: "lock_t \<Rightarrow> bool" where
  "unlocked l \<equiv> lck l = 0"

text \<open>A readers-writer lock between calls: no CPU is inside one of its functions, no writer holds it,
  and the group lock is held exactly while there are readers.\<close>

definition rw_quiet :: "rwlock_t \<Rightarrow> bool" where
  "rw_quiet rw \<longleftrightarrow> unlocked (lr rw) \<and> (if rdrs rw = 0 then lck (lg rw) = 0 else lck (lg rw) = 1)"

section \<open>Several CPUs\<close>

text \<open>
  Where a CPU is in the functions above. \<open>Out\<close> is outside, \<open>Reading\<close> and \<open>Writing\<close> are inside the
  critical sections. The others stand before an access to the lock:
  \<open>RL1\<close> to \<open>RL4\<close> are the four of \<^verbatim>\<open>readlock\<close> (take \<open>lr\<close>, increment, take \<open>lg\<close>, drop \<open>lr\<close>),
  \<open>RU1\<close> to \<open>RU4\<close> those of \<^verbatim>\<open>readunlock\<close> (take \<open>lr\<close>, decrement, drop \<open>lg\<close>, drop \<open>lr\<close>),
  \<open>WL\<close> takes \<open>lg\<close> for a writer.
\<close>

datatype pc = Out | RL1 | RL2 | RL3 | RL4 | Reading | RU1 | RU2 | RU3 | RU4 | WL | Writing

record rwsys =
  pcs :: "nat \<Rightarrow> pc"
  r_cnt :: u32
  lr_held :: bool
  lg_held :: bool

definition goto :: "nat \<Rightarrow> pc \<Rightarrow> rwsys \<Rightarrow> rwsys" where
  "goto i p s = s\<lparr>pcs := (pcs s)(i := p)\<rparr>"

text \<open>One access by CPU \<open>i\<close>. A spin that finds the lock taken, or whose weak compare-and-exchange
  fails spuriously, is \<open>spin\<close>: the CPU stays where it is.\<close>

inductive rwstep :: "nat \<Rightarrow> rwsys \<Rightarrow> rwsys \<Rightarrow> bool" where
  enter_read: "pcs s i = Out \<Longrightarrow> rwstep i s (goto i RL1 s)"
| rl_lr: "pcs s i = RL1 \<Longrightarrow> \<not> lr_held s \<Longrightarrow> rwstep i s (goto i RL2 (s\<lparr>lr_held := True\<rparr>))"
| rl_inc_first: "pcs s i = RL2 \<Longrightarrow> r_cnt s = 0 \<Longrightarrow> rwstep i s (goto i RL3 (s\<lparr>r_cnt := r_cnt s + 1\<rparr>))"
| rl_inc: "pcs s i = RL2 \<Longrightarrow> r_cnt s \<noteq> 0 \<Longrightarrow> rwstep i s (goto i RL4 (s\<lparr>r_cnt := r_cnt s + 1\<rparr>))"
| rl_lg: "pcs s i = RL3 \<Longrightarrow> \<not> lg_held s \<Longrightarrow> rwstep i s (goto i RL4 (s\<lparr>lg_held := True\<rparr>))"
| rl_unlr: "pcs s i = RL4 \<Longrightarrow> rwstep i s (goto i Reading (s\<lparr>lr_held := False\<rparr>))"
| leave_read: "pcs s i = Reading \<Longrightarrow> rwstep i s (goto i RU1 s)"
| ru_lr: "pcs s i = RU1 \<Longrightarrow> \<not> lr_held s \<Longrightarrow> rwstep i s (goto i RU2 (s\<lparr>lr_held := True\<rparr>))"
| ru_dec_last: "pcs s i = RU2 \<Longrightarrow> r_cnt s - 1 = 0 \<Longrightarrow> rwstep i s (goto i RU3 (s\<lparr>r_cnt := r_cnt s - 1\<rparr>))"
| ru_dec: "pcs s i = RU2 \<Longrightarrow> r_cnt s - 1 \<noteq> 0 \<Longrightarrow> rwstep i s (goto i RU4 (s\<lparr>r_cnt := r_cnt s - 1\<rparr>))"
| ru_unlg: "pcs s i = RU3 \<Longrightarrow> rwstep i s (goto i RU4 (s\<lparr>lg_held := False\<rparr>))"
| ru_unlr: "pcs s i = RU4 \<Longrightarrow> rwstep i s (goto i Out (s\<lparr>lr_held := False\<rparr>))"
| enter_write: "pcs s i = Out \<Longrightarrow> rwstep i s (goto i WL s)"
| wl_lg: "pcs s i = WL \<Longrightarrow> \<not> lg_held s \<Longrightarrow> rwstep i s (goto i Writing (s\<lparr>lg_held := True\<rparr>))"
| leave_write: "pcs s i = Writing \<Longrightarrow> rwstep i s (goto i Out (s\<lparr>lg_held := False\<rparr>))"
| spin: "pcs s i \<in> {RL1, RL3, RU1, WL} \<Longrightarrow> rwstep i s s"

text \<open>States reachable with \<open>n\<close> CPUs from an initialised lock.\<close>

inductive rwreach :: "nat \<Rightarrow> rwsys \<Rightarrow> bool" for n where
  start: "rwreach n \<lparr>pcs = (\<lambda>_. Out), r_cnt = 0, lr_held = False, lg_held = False\<rparr>"
| move: "rwreach n s \<Longrightarrow> i < n \<Longrightarrow> rwstep i s s' \<Longrightarrow> rwreach n s'"

definition cnt :: "nat \<Rightarrow> (nat \<Rightarrow> pc) \<Rightarrow> pc set \<Rightarrow> nat" where
  "cnt n p S = card {i. i < n \<and> p i \<in> S}"

text \<open>The invariant: \<open>lr\<close> is held by exactly the CPU between its taking and dropping it, \<open>r\<close> counts
  the CPUs that have incremented and not yet decremented it, a CPU that waits for \<open>lg\<close> on behalf of
  the readers is the only one counted, and \<open>lg\<close> is held either by one writer or by the readers.\<close>

definition readers_own :: "nat \<Rightarrow> rwsys \<Rightarrow> bool" where
  "readers_own n s \<longleftrightarrow> (0 < unat (r_cnt s) \<and> cnt n (pcs s) {RL3} = 0) \<or> 0 < cnt n (pcs s) {RU3}"

definition rwinv :: "nat \<Rightarrow> rwsys \<Rightarrow> bool" where
  "rwinv n s \<longleftrightarrow>
     cnt n (pcs s) {RL2, RL3, RL4, RU2, RU3, RU4} = (if lr_held s then 1 else 0) \<and>
     unat (r_cnt s) = cnt n (pcs s) {RL3, RL4, Reading, RU1, RU2} \<and>
     (0 < cnt n (pcs s) {RL3} \<longrightarrow> unat (r_cnt s) = 1) \<and>
     (0 < cnt n (pcs s) {RU3} \<longrightarrow> unat (r_cnt s) = 0) \<and>
     cnt n (pcs s) {Writing} + (if readers_own n s then 1 else 0) = (if lg_held s then 1 else 0)"

text \<open>The same invariant over the bare counts, and the CPUs that can make progress.\<close>

definition arith_inv :: "nat \<Rightarrow> nat \<Rightarrow> nat \<Rightarrow> nat \<Rightarrow> nat \<Rightarrow> nat \<Rightarrow> nat \<Rightarrow> nat \<Rightarrow> nat \<Rightarrow> nat \<Rightarrow> bool \<Rightarrow> bool \<Rightarrow> bool" where
  "arith_inv l2 l3 l4 rd u1 u2 u3 u4 w r a b \<longleftrightarrow>
     l2 + (l3 + (l4 + (u2 + (u3 + u4)))) = (if a then 1 else 0) \<and>
     r = l3 + (l4 + (rd + (u1 + u2))) \<and>
     (0 < l3 \<longrightarrow> r = 1) \<and> (0 < u3 \<longrightarrow> r = 0) \<and>
     w + (if (0 < r \<and> l3 = 0) \<or> 0 < u3 then 1 else 0) = (if b then 1 else 0)"

definition can_move :: "nat \<Rightarrow> rwsys \<Rightarrow> nat \<Rightarrow> bool" where
  "can_move n s i \<longleftrightarrow> i < n \<and> (\<exists>s'. rwstep i s s' \<and> s' \<noteq> s)"

section \<open>The invariant is kept\<close>

lemma cnt_empty [simp]: "cnt n p {} = 0"
  by (simp add: cnt_def)

lemma cnt_insert: "x \<notin> S \<Longrightarrow> S \<noteq> {} \<Longrightarrow> cnt n p (insert x S) = cnt n p {x} + cnt n p S"
proof -
  assume "x \<notin> S"
  have "{i. i < n \<and> p i \<in> insert x S} = {i. i < n \<and> p i \<in> {x}} \<union> {i. i < n \<and> p i \<in> S}" by auto
  then show ?thesis unfolding cnt_def using \<open>x \<notin> S\<close> by (simp only:) (rule card_Un_disjoint, auto)
qed

lemma cnt_pos: "i < n \<Longrightarrow> p i \<in> S \<Longrightarrow> 0 < cnt n p S"
  by (auto simp: cnt_def card_gt_0_iff)

lemma cnt_posD: "0 < cnt n p S \<Longrightarrow> \<exists>i < n. p i \<in> S"
  by (auto simp: cnt_def card_gt_0_iff)

lemma cnt_le: "cnt n p S \<le> n"
  unfolding cnt_def by (rule order_trans [OF card_mono [of "{..<n}"]]) auto

lemma cnt_less: "i < n \<Longrightarrow> p i \<notin> S \<Longrightarrow> cnt n p S < n"
  unfolding cnt_def by (rule less_le_trans [OF psubset_card_mono [of "{..<n}"]]) auto

lemma cnt_upd:
  assumes "i < n" "p i = q"
  shows "cnt n (p(i := q')) {x} =
    (if q = x then (if q' = x then cnt n p {x} else cnt n p {x} - 1)
     else (if q' = x then cnt n p {x} + 1 else cnt n p {x}))"
proof -
  have "{j. j < n \<and> (p(i := q')) j \<in> {x}} =
      (if q' = x then insert i {j. j < n \<and> p j \<in> {x}} else {j. j < n \<and> p j \<in> {x}} - {i})"
    using assms by auto
  then show ?thesis unfolding cnt_def using assms by (auto simp: card_insert_if)
qed

lemma cnt_two: "cnt n p {x} \<le> 1 \<Longrightarrow> i < n \<Longrightarrow> j < n \<Longrightarrow> p i = x \<Longrightarrow> p j = x \<Longrightarrow> i = j"
proof -
  assume a: "cnt n p {x} \<le> 1" "i < n" "j < n" "p i = x" "p j = x"
  have "card {k. k < n \<and> p k \<in> {x}} \<le> Suc 0" using a(1) by (simp add: cnt_def)
  then have "\<forall>k\<in>{k. k < n \<and> p k \<in> {x}}. \<forall>l\<in>{k. k < n \<and> p k \<in> {x}}. k = l"
    by (subst (asm) card_le_Suc0_iff_eq) auto
  then show "i = j" using a by auto
qed

lemma unat_inc: "unat (w::u32) < 2 ^ 32 - 1 \<Longrightarrow> unat (w + 1) = unat w + 1"
  by (subst unat_add_less) simp_all

lemma unat_dec: "0 < unat (w::u32) \<Longrightarrow> unat (w - 1) = unat w - 1"
  by (subst unat_diff_le) (simp_all add: word_le_nat_alt)

lemma unat_eq_0: "w = 0 \<longleftrightarrow> unat (w::u32) = 0"
  by (simp add: unat_eq_zero)

lemma rwinv_arith:
  "rwinv n s \<longleftrightarrow> (let c = (\<lambda>x. cnt n (pcs s) {x}) in
     arith_inv (c RL2) (c RL3) (c RL4) (c Reading) (c RU1) (c RU2) (c RU3) (c RU4) (c Writing)
       (unat (r_cnt s)) (lr_held s) (lg_held s))"
  by (simp add: rwinv_def readers_own_def arith_inv_def cnt_insert)

lemma goto_simps [simp]:
  "pcs (goto i p s) = (pcs s)(i := p)" "r_cnt (goto i p s) = r_cnt s"
  "lr_held (goto i p s) = lr_held s" "lg_held (goto i p s) = lg_held s"
  by (simp_all add: goto_def)

lemma arith_steps:
  assumes "arith_inv l2 l3 l4 rd u1 u2 u3 u4 w r a b"
  shows "\<not> a \<Longrightarrow> arith_inv (l2 + 1) l3 l4 rd u1 u2 u3 u4 w r True b"
    "0 < l2 \<Longrightarrow> r = 0 \<Longrightarrow> arith_inv (l2 - 1) (l3 + 1) l4 rd u1 u2 u3 u4 w 1 a b"
    "0 < l2 \<Longrightarrow> r \<noteq> 0 \<Longrightarrow> arith_inv (l2 - 1) l3 (l4 + 1) rd u1 u2 u3 u4 w (r + 1) a b"
    "0 < l3 \<Longrightarrow> \<not> b \<Longrightarrow> arith_inv l2 (l3 - 1) (l4 + 1) rd u1 u2 u3 u4 w r a True"
    "0 < l4 \<Longrightarrow> arith_inv l2 l3 (l4 - 1) (rd + 1) u1 u2 u3 u4 w r False b"
    "0 < rd \<Longrightarrow> arith_inv l2 l3 l4 (rd - 1) (u1 + 1) u2 u3 u4 w r a b"
    "0 < u1 \<Longrightarrow> \<not> a \<Longrightarrow> arith_inv l2 l3 l4 rd (u1 - 1) (u2 + 1) u3 u4 w r True b"
    "0 < u2 \<Longrightarrow> r = 1 \<Longrightarrow> arith_inv l2 l3 l4 rd u1 (u2 - 1) (u3 + 1) u4 w 0 a b"
    "0 < u2 \<Longrightarrow> r \<noteq> 1 \<Longrightarrow> arith_inv l2 l3 l4 rd u1 (u2 - 1) u3 (u4 + 1) w (r - 1) a b"
    "0 < u3 \<Longrightarrow> arith_inv l2 l3 l4 rd u1 u2 (u3 - 1) (u4 + 1) w r a False"
    "0 < u4 \<Longrightarrow> arith_inv l2 l3 l4 rd u1 u2 u3 (u4 - 1) w r False b"
    "\<not> b \<Longrightarrow> arith_inv l2 l3 l4 rd u1 u2 u3 u4 (w + 1) r a True"
    "0 < w \<Longrightarrow> arith_inv l2 l3 l4 rd u1 u2 u3 u4 (w - 1) r a False"

  subgoal using assms unfolding arith_inv_def by (auto split: if_splits)
  subgoal using assms unfolding arith_inv_def by (auto split: if_splits)
  subgoal using assms unfolding arith_inv_def by (auto split: if_splits)
  subgoal using assms unfolding arith_inv_def by (auto split: if_splits)
  subgoal using assms unfolding arith_inv_def by (auto split: if_splits)
  subgoal using assms unfolding arith_inv_def by (auto split: if_splits)
  subgoal using assms unfolding arith_inv_def by (auto split: if_splits)
  subgoal using assms unfolding arith_inv_def by (auto split: if_splits)
  subgoal using assms unfolding arith_inv_def by (auto split: if_splits)
  subgoal using assms unfolding arith_inv_def by (auto split: if_splits)
  subgoal using assms unfolding arith_inv_def by (auto split: if_splits)
  subgoal using assms unfolding arith_inv_def by (auto split: if_splits)
  subgoal using assms unfolding arith_inv_def by (auto split: if_splits)
  done
lemma arith_no_reader: "arith_inv l2 l3 l4 rd u1 u2 u3 u4 w r a b \<Longrightarrow> 0 < w \<Longrightarrow> rd = 0"
  unfolding arith_inv_def by (cases b; cases "l3 = 0"; cases "rd = 0") auto

lemma arith_one_writer: "arith_inv l2 l3 l4 rd u1 u2 u3 u4 w r a b \<Longrightarrow> w \<le> 1"
  unfolding arith_inv_def by (cases b) (simp_all split: if_splits)

lemma arith_waiting_reader: "arith_inv 0 l3 0 rd u1 0 0 0 0 r True b \<Longrightarrow> 0 < l3 \<and> \<not> b"
  unfolding arith_inv_def by (cases b) auto

lemma arith_free: "arith_inv l2 l3 0 0 0 0 0 u4 0 r False b \<Longrightarrow> \<not> b"
  unfolding arith_inv_def by (cases b) auto

lemma rwinv_step:
  assumes inv: "rwinv n s" and i: "i < n" and n: "n < 2 ^ 32" and step: "rwstep i s s'"
  shows "rwinv n s'"
proof -
  have pos: "0 < cnt n (pcs s) {pcs s i}" using i by (intro cnt_pos) simp_all
  have le: "unat (r_cnt s) < n" if "pcs s i = RL2"
    using inv cnt_less [OF i, of "pcs s" "{RL3, RL4, Reading, RU1, RU2}"] that by (simp add: rwinv_def)
  note I = inv [unfolded rwinv_arith Let_def]
  note st = arith_steps [OF I, simplified]
  note up = rwinv_arith cnt_upd [OF i]
  show ?thesis
    using step
  proof (cases rule: rwstep.cases)
    case rl_inc_first
    then have "unat (r_cnt s) = 0" "unat (r_cnt s + 1) = 1" by simp_all
    then show ?thesis using rl_inc_first pos st(2) by (simp add: up)
  next
    case rl_inc
    then have "unat (r_cnt s) \<noteq> 0" "unat (r_cnt s + 1) = unat (r_cnt s) + 1"
      using le n unat_inc [of "r_cnt s"] by (auto simp: unat_eq_0)
    then show ?thesis using rl_inc pos st(3) by (simp add: up)
  next
    case ru_dec_last
    then have "unat (r_cnt s) = 1" "unat (r_cnt s - 1) = 0" by simp_all
    then show ?thesis using ru_dec_last pos st(8) by (simp add: up)
  next
    case ru_dec
    have "0 < unat (r_cnt s)" using I pos ru_dec by (simp add: arith_inv_def)
    then have "unat (r_cnt s - 1) = unat (r_cnt s) - 1" "unat (r_cnt s) \<noteq> 1"
      using ru_dec(3) unat_dec [of "r_cnt s"] by (auto simp: unat_eq_0)
    then show ?thesis using ru_dec pos st(9) by (simp add: up)
  next
    case rl_lr
    then show ?thesis using pos st(1) by (simp add: up)
  next
    case rl_lg
    then show ?thesis using pos st(4) by (simp add: up)
  next
    case rl_unlr
    then show ?thesis using pos st(5) by (simp add: up)
  next
    case leave_read
    then show ?thesis using pos st(6) by (simp add: up)
  next
    case ru_lr
    then show ?thesis using pos st(7) by (simp add: up)
  next
    case ru_unlg
    then show ?thesis using pos st(10) by (simp add: up)
  next
    case ru_unlr
    then show ?thesis using pos st(11) by (simp add: up)
  next
    case wl_lg
    then show ?thesis using pos st(12) by (simp add: up)
  next
    case leave_write
    then show ?thesis using pos st(13) by (simp add: up)
  next
    case enter_read
    then show ?thesis using I by (simp add: up)
  next
    case enter_write
    then show ?thesis using I by (simp add: up)
  next
    case spin
    then show ?thesis using I by (simp add: up)
  qed
qed

lemma rwreach_inv:
  assumes "rwreach n s" "n < 2 ^ 32"
  shows "rwinv n s"
  using assms(1)
proof induction
  case start
  show ?case by (simp add: rwinv_def readers_own_def cnt_def)
next
  case (move s i s')
  then show ?case using assms(2) by (auto intro: rwinv_step)
qed

lemma rw_exclusion:
  assumes "rwinv n s" "i < n" "j < n" "pcs s i = Writing"
  shows "pcs s j \<noteq> Reading \<and> (pcs s j = Writing \<longrightarrow> i = j)"
proof -
  note I = assms(1) [unfolded rwinv_arith Let_def]
  have "0 < cnt n (pcs s) {Writing}" using assms by (intro cnt_pos) auto
  then have "cnt n (pcs s) {Reading} = 0" by (rule arith_no_reader [OF I])
  then have "pcs s j \<noteq> Reading" using cnt_pos [OF assms(3), of "pcs s" "{Reading}"] by auto
  then show ?thesis using cnt_two [OF arith_one_writer [OF I] assms(2,3)] assms(4) by auto
qed

text \<open>Someone can always make a real step: a CPU waiting for \<open>lr\<close> waits for one that holds it, a
  CPU waiting for \<open>lg\<close> waits for a writer or for the readers, and none of these waits in turn for
  it.\<close>

lemma step_moves:
  assumes "rwstep i s (goto i p t)" "pcs s i \<noteq> p" "i < n"
  shows "can_move n s i"
proof -
  have "goto i p t \<noteq> s" using assms(2) by (metis fun_upd_same goto_simps(1))
  then show ?thesis using assms(1,3) by (auto simp: can_move_def)
qed

lemmas step_moves_at = rwstep.intros(1-15) [THEN step_moves]

lemma moves:
  assumes "i < n" "pcs s i = RL1 \<or> pcs s i = RU1 \<Longrightarrow> \<not> lr_held s" "pcs s i = RL3 \<or> pcs s i = WL \<Longrightarrow> \<not> lg_held s"
  shows "can_move n s i"
  using assms
  by (cases "pcs s i"; cases "r_cnt s = 0"; cases "r_cnt s - 1 = 0") (simp_all add: step_moves_at)

lemma rw_no_deadlock:
  assumes inv: "rwinv n s" and i: "i < n"
  shows "\<exists>j. can_move n s j"
proof (cases "\<exists>j < n. pcs s j \<notin> {RL1, RL3, RU1, WL}")
  case True
  then obtain j where "j < n" "pcs s j \<notin> {RL1, RL3, RU1, WL}" by blast
  then show ?thesis using moves [of j n s] by auto
next
  case False
  let ?c = "\<lambda>x. cnt n (pcs s) {x}"
  note I = inv [unfolded rwinv_arith Let_def]
  have z: "?c x = 0" if "x \<notin> {RL1, RL3, RU1, WL}" for x
    using False cnt_posD [of n "pcs s" "{x}"] that by auto
  show ?thesis
  proof (cases "lr_held s")
    case True
    then have "arith_inv 0 (?c RL3) 0 (?c Reading) (?c RU1) 0 0 0 0 (unat (r_cnt s)) True (lg_held s)"
      using I z by simp
    then have "0 < ?c RL3" "\<not> lg_held s" using arith_waiting_reader by blast+
    moreover obtain j where "j < n" "pcs s j = RL3"
      using cnt_posD [of n "pcs s" "{RL3}"] \<open>0 < ?c RL3\<close> by auto
    ultimately show ?thesis using moves [of j n s] by auto
  next
    case lr: False
    show ?thesis
    proof (cases "?c RU1 = 0")
      case True
      then have "arith_inv (?c RL2) (?c RL3) 0 0 0 0 0 (?c RU4) 0 (unat (r_cnt s)) False (lg_held s)"
        using I z lr by simp
      then have "\<not> lg_held s" by (rule arith_free)
      then show ?thesis using moves [OF i, of s] lr by auto
    next
      case False
      then obtain j where "j < n" "pcs s j = RU1" using cnt_posD [of n "pcs s" "{RU1}"] by auto
      then show ?thesis using moves [of j n s] lr by auto
    qed
  qed
qed

section \<open>The functions on one CPU\<close>

lemma spinlock_simps [simp]:
  "unlocked l \<Longrightarrow> spinlock l = Some (l\<lparr>lck := 1\<rparr>)"
  "\<not> unlocked l \<Longrightarrow> spinlock l = None"
  by (auto simp: spinlock_def split: if_splits)

lemma unlocked_spinunlock [simp]: "unlocked (spinunlock l)" "unlocked (spinlock_init l)"
  by (simp_all add: spinunlock_def spinlock_init_def)

lemma spinunlock_locked [simp]: "unlocked l \<Longrightarrow> spinunlock (l\<lparr>lck := v\<rparr>) = l"
  by (cases l) (simp add: spinunlock_def)

text \<open>Taking a quiet readers-writer lock for reading returns, and releasing it gives the lock back
  as it was.\<close>

lemma readlock_quiet:
  assumes "rw_quiet rw" "rdrs rw + 1 \<noteq> 0"
  shows "\<exists>rw'. readlock rw = Some rw' \<and> rw_quiet rw' \<and> rdrs rw' = rdrs rw + 1 \<and> readunlock rw' = Some rw"
proof (cases "rdrs rw = 0")
  case True
  then show ?thesis using assms
    by (cases rw; cases "lr rw"; cases "lg rw")
      (simp add: readlock_def readunlock_def rw_quiet_def spinlock_def spinunlock_def)
next
  case False
  then show ?thesis using assms
    by (cases rw; cases "lr rw"; cases "lg rw")
      (simp add: readlock_def readunlock_def rw_quiet_def spinlock_def spinunlock_def)
qed

lemma rw_quiet_init [simp]: "rw_quiet (rwlock_init rw)"
  by (simp add: rw_quiet_def rwlock_init_def)

section \<open>Properties\<close>

lemma unat_1_less: "(2::nat) < 2 ^ 32"
  by simp

lemma rwreach_sample: "rwreach 2 \<lparr>pcs = (\<lambda>_. Out)(0 := Writing), r_cnt = 0, lr_held = False, lg_held = True\<rparr>"
proof -
  note s0 = rwreach.start [of 2]
  note s1 = rwreach.move [OF s0, of 0, OF _ enter_write]
  then have s1: "rwreach 2 \<lparr>pcs = (\<lambda>_. Out)(0 := WL), r_cnt = 0, lr_held = False, lg_held = False\<rparr>"
    by (simp add: goto_def)
  show ?thesis using rwreach.move [OF s1, of 0, OF _ wl_lg] by (simp add: goto_def)
qed

text \<open>
  C6. Whatever the interleaving of up to \<open>2 ^ 32 - 1\<close> CPUs in \<^verbatim>\<open>readlock\<close>, \<^verbatim>\<open>readunlock\<close>,
  \<^verbatim>\<open>writelock\<close> and \<^verbatim>\<open>writeunlock\<close>, while a CPU is in its write section no CPU is in a read
  section and no other is in a write section.
\<close>

theorem rwlock_excludes:
  assumes "rwreach n s" "n < 2 ^ 32" "i < n" "j < n" "pcs s i = Writing"
  shows "pcs s j \<noteq> Reading \<and> (pcs s j = Writing \<longrightarrow> i = j)"
  using rw_exclusion [OF rwreach_inv [OF assms(1,2)] assms(3,4,5)] .

theorem rwlock_excludes_witness:
  "((\<lambda>_. Out)(0 := Writing)) (1::nat) \<noteq> Reading \<and> ((\<lambda>_. Out)(0 := Writing)) (1::nat) \<noteq> Writing"
  using rwlock_excludes [OF rwreach_sample unat_1_less, of 0 1] by simp

text \<open>
  C20. The readers-writer lock does not deadlock: in every reachable state some CPU has a step that
  is not a spin.
\<close>

theorem rwlock_no_deadlock:
  assumes "rwreach n s" "n < 2 ^ 32" "0 < n"
  shows "\<exists>i s'. i < n \<and> rwstep i s s' \<and> s' \<noteq> s"
  using rw_no_deadlock [OF rwreach_inv [OF assms(1,2)] assms(3)] by (auto simp: can_move_def)

theorem rwlock_no_deadlock_witness:
  "\<exists>i s'. i < 2 \<and> rwstep i \<lparr>pcs = (\<lambda>_. Out)(0 := Writing), r_cnt = 0, lr_held = False, lg_held = True\<rparr> s' \<and>
     s' \<noteq> \<lparr>pcs = (\<lambda>_. Out)(0 := Writing), r_cnt = 0, lr_held = False, lg_held = True\<rparr>"
  using rwlock_no_deadlock [OF rwreach_sample unat_1_less] by simp

end
