(* ===== verification/Hal.thy ===== *)
theory Hal
  imports Nux_Prelude
begin

text \<open>
  The interface between the machine-independent library and the hardware layers
  (\<^verbatim>\<open>include/nux/hal.h\<close>, \<^verbatim>\<open>include/nux/plt.h\<close>): the constants both sides use, the calls that
  only act on the hardware (recorded, in order, in a trace), and the page-table primitives a HAL
  provides, as a record of functions on the state of the whole system. The page-table models of the
  architectures instantiate that record.
\<close>

section \<open>Constants\<close>

abbreviation (input) HAL_PTE_P :: u32 where "HAL_PTE_P \<equiv> 1"
abbreviation (input) HAL_PTE_W :: u32 where "HAL_PTE_W \<equiv> 2"
abbreviation (input) HAL_PTE_X :: u32 where "HAL_PTE_X \<equiv> 4"
abbreviation (input) HAL_PTE_U :: u32 where "HAL_PTE_U \<equiv> 8"
abbreviation (input) HAL_PTE_GLOBAL :: u32 where "HAL_PTE_GLOBAL \<equiv> 16"
abbreviation (input) HAL_PTE_A :: u32 where "HAL_PTE_A \<equiv> 32"
abbreviation (input) HAL_PTE_D :: u32 where "HAL_PTE_D \<equiv> 64"
abbreviation (input) HAL_PTE_AVL0 :: u32 where "HAL_PTE_AVL0 \<equiv> 128"
abbreviation (input) HAL_PTE_AVL1 :: u32 where "HAL_PTE_AVL1 \<equiv> 256"
abbreviation (input) HAL_PTE_AVL2 :: u32 where "HAL_PTE_AVL2 \<equiv> 512"

type_synonym hal_tlbop_t = u32

abbreviation (input) HAL_TLBOP_NONE :: hal_tlbop_t where "HAL_TLBOP_NONE \<equiv> 0"
abbreviation (input) HAL_TLBOP_FLUSH :: hal_tlbop_t where "HAL_TLBOP_FLUSH \<equiv> 1"
abbreviation (input) HAL_TLBOP_FLUSHALL :: hal_tlbop_t where "HAL_TLBOP_FLUSHALL \<equiv> 2"

abbreviation (input) L1P_INVALID :: u64 where "L1P_INVALID \<equiv> 0"

abbreviation (input) HAL_MAXCPUS :: nat where "HAL_MAXCPUS \<equiv> 64"

section \<open>Calls that act on the hardware\<close>

text \<open>The operations of the hardware layers that return nothing: what the library asked the machine to
  do, newest last.\<close>

datatype hwop =
    Tlbop hal_tlbop_t
  | Pcpu_add u32
  | Pcpu_init
  | Pcpu_enter u32
  | Plt_enter
  | Setdata u32
  | Pcpu_nmi u32
  | Pcpu_ipi u32
  | Pcpu_ipiall
  | Pcpu_start u32 paddr_t
  | Useraccess_start
  | Useraccess_end
  | Cpu_halt
  | Cpu_idle
  | Umap_load u64
  | Sfence_vma u64
  | Hal_panic u32 string u64
  | Eoi_timer
  | Eoi_irq u32
  | Eoi_ipi
  | Tmr_setalm u64
  | Tmr_clralm

section \<open>Physical memory\<close>

text \<open>
  What page-table code uses of the rest of the library and of the processor: loads and stores of 64-bit words
  at kernel virtual addresses, access to a frame through a temporary mapping (\<^verbatim>\<open>pfn_get\<close>, \<^verbatim>\<open>pfn_put\<close>),
  the allocation and release of frames, the register that holds the root of the page tables and the fence
  that drops the translations of an address.
\<close>

record 's pfn_ops =
  mem_ld :: "vaddr_t \<Rightarrow> 's \<Rightarrow> u64"
  mem_st :: "vaddr_t \<Rightarrow> u64 \<Rightarrow> 's \<Rightarrow> 's"
  op_get :: "pfn_t \<Rightarrow> 's \<Rightarrow> (vaddr_t \<times> 's) option"
  op_put :: "pfn_t \<Rightarrow> vaddr_t \<Rightarrow> 's \<Rightarrow> 's option"
  op_alloc :: "bool \<Rightarrow> 's \<Rightarrow> (pfn_t \<times> 's) option"
  op_free :: "pfn_t \<Rightarrow> 's \<Rightarrow> 's option"
  reg_root :: "'s \<Rightarrow> u64"
  inv_page :: "vaddr_t \<Rightarrow> 's \<Rightarrow> 's"

section \<open>Page-table primitives\<close>

text \<open>
  \<open>hal_kmap_getl1p va alloc\<close> is the walk: it returns whether the leaf entry of \<open>va\<close> exists and the
  pointer to it (\<open>L1P_INVALID\<close> when it does not). A user mapping is named by the address of its
  \<^verbatim>\<open>struct hal_umap\<close>, the current one by \<open>None\<close> (NULL).
\<close>

record 's hal =
  hal_l1e_box :: "u64 \<Rightarrow> u32 \<Rightarrow> u64"
  hal_l1e_unbox :: "u64 \<Rightarrow> u64 \<times> u32"
  hal_l1e_tlbop :: "u64 \<Rightarrow> u64 \<Rightarrow> hal_tlbop_t"
  hal_l1e_get :: "u64 \<Rightarrow> 's \<Rightarrow> (u64 \<times> 's) option"
  hal_l1e_set :: "u64 \<Rightarrow> u64 \<Rightarrow> 's \<Rightarrow> (u64 \<times> 's) option"
  hal_kmap_getl1p :: "vaddr_t \<Rightarrow> bool \<Rightarrow> 's \<Rightarrow> ((bool \<times> u64) \<times> 's) option"
  hal_umap_getl1p :: "u64 option \<Rightarrow> uaddr_t \<Rightarrow> bool \<Rightarrow> 's \<Rightarrow> ((bool \<times> u64) \<times> 's) option"
  hal_umap_next :: "u64 option \<Rightarrow> uaddr_t \<Rightarrow> 's \<Rightarrow> ((uaddr_t \<times> (u64 \<times> u64) option) \<times> 's) option"
  hal_umap_init :: "u64 \<Rightarrow> 's \<Rightarrow> 's option"
  hal_umap_bootstrap :: "u64 \<Rightarrow> 's \<Rightarrow> 's option"
  hal_umap_load :: "u64 option \<Rightarrow> 's \<Rightarrow> (hal_tlbop_t \<times> 's) option"
  hal_umap_free :: "u64 \<Rightarrow> 's \<Rightarrow> 's option"

end
