(* ===== verification/Ktlb.thy ===== *)
theory Ktlb
  imports Hal
begin

text \<open>
  TLB generations: \<^verbatim>\<open>tlbgen_t\<close> of \<^verbatim>\<open>include/nux/types.h\<close>, its comparison in
  \<^verbatim>\<open>libnux/internal.h\<close>, and the global generations that page-table changes advance
  (\<^verbatim>\<open>libnux/ktlbgen.c\<close>).
\<close>

section \<open>The code\<close>

type_synonym tlbgen_t = u64

definition TG_WSHIFT :: nat where
  "TG_WSHIFT = 6"

definition TG_WRAP :: "tlbgen_t \<Rightarrow> u64" where
  "TG_WRAP t = t AND (push_bit TG_WSHIFT 1 - 1)"

definition TG_GCNT :: "tlbgen_t \<Rightarrow> u64" where
  "TG_GCNT t = drop_bit TG_WSHIFT t"

definition tlbgen_cmp :: "tlbgen_t \<Rightarrow> tlbgen_t \<Rightarrow> int" where
  "tlbgen_cmp a b =
     (if TG_WRAP a = TG_WRAP b
      then (if a < b then - 1 else if a > b then 1 else 0)
      else 1)"

record ktlb =
  tg_global :: tlbgen_t
  tg_normal :: tlbgen_t

record ktlb_st =
  ktlb_cur :: ktlb

definition ktlbgen_markdirty :: "hal_tlbop_t \<Rightarrow> 'a ktlb_st_scheme \<Rightarrow> 'a ktlb_st_scheme" where
  "ktlbgen_markdirty oper s =
     (if oper = HAL_TLBOP_FLUSHALL
      then s\<lparr>ktlb_cur := (ktlb_cur s)\<lparr>tg_global := tg_global (ktlb_cur s) + 1\<rparr>\<rparr>
      else if oper = HAL_TLBOP_FLUSH
      then s\<lparr>ktlb_cur := (ktlb_cur s)\<lparr>tg_normal := tg_normal (ktlb_cur s) + 1\<rparr>\<rparr>
      else s)"

definition ktlbgen_global :: "'a ktlb_st_scheme \<Rightarrow> tlbgen_t" where
  "ktlbgen_global s = tg_global (ktlb_cur s)"

definition ktlbgen_normal :: "'a ktlb_st_scheme \<Rightarrow> tlbgen_t" where
  "ktlbgen_normal s = tg_normal (ktlb_cur s)"

section \<open>Comparing generations\<close>

lemma TG_WRAP_unat: "unat (TG_WRAP t) = unat t mod 64"
proof -
  have "push_bit TG_WSHIFT 1 - 1 = (mask 6 :: u64)" by (simp add: TG_WSHIFT_def mask_eq_decr_exp)
  then show ?thesis by (simp add: TG_WRAP_def unat_and_mask)
qed

lemma TG_WRAP_eq: "TG_WRAP a = TG_WRAP b \<longleftrightarrow> unat a mod 64 = unat b mod 64"
  by (simp add: word_unat_eq_iff TG_WRAP_unat)

lemma tlbgen_cmp_pos_iff:
  "0 < tlbgen_cmp a b \<longleftrightarrow> a > b \<or> unat a mod 64 \<noteq> unat b mod 64"
  by (auto simp: tlbgen_cmp_def TG_WRAP_eq)

lemma tlbgen_cmp_refl [simp]: "tlbgen_cmp a a = 0"
  by (simp add: tlbgen_cmp_def)

text \<open>As long as the counter itself does not wrap, an advance is always seen.\<close>

lemma tlbgen_advance:
  assumes "unat b + d < 2 ^ 64" "0 < d"
  shows "0 < tlbgen_cmp (b + of_nat d) b"
proof -
  have "unat (of_nat d :: u64) = d" using assms by (simp add: unat_of_nat_less)
  then have "unat (b + of_nat d) = unat b + d" using assms by (subst unat_add_less) simp_all
  then show ?thesis using assms(2) by (simp add: tlbgen_cmp_pos_iff word_less_nat_alt)
qed

section \<open>Properties\<close>

text \<open>
  C34. Which advances of a generation the comparison sees. Let the global generation be \<open>d\<close> steps
  ahead of a CPU's, modulo \<open>2 ^ 64\<close>. \<^verbatim>\<open>tlbgen_cmp\<close> asks for a flush unless \<open>d\<close> is zero, or the counter
  has wrapped and \<open>d\<close> is a multiple of 64. So a missed flush needs the 64-bit counter to wrap.
\<close>

theorem tlbgen_cmp_misses:
  assumes "d < 2 ^ 64"
  shows "0 < tlbgen_cmp (b + of_nat d) b \<longleftrightarrow> \<not> (d = 0 \<or> (2 ^ 64 \<le> unat b + d \<and> d mod 64 = 0))"
proof (cases "unat b + d < 2 ^ 64")
  case True
  then show ?thesis using tlbgen_advance [of b d] by (cases "d = 0") auto
next
  case False
  have d: "unat (of_nat d :: u64) = d" using assms by (simp add: unat_of_nat_less)
  have b: "unat b < 2 ^ 64" using unsigned_less [of b] by simp
  have sum: "unat (b + of_nat d) = unat b + d - 2 ^ 64"
    using False b assms unat_add_wrap [of b "of_nat d"] by (simp add: d)
  then have "unat b + d = unat (b + of_nat d) + 64 * 2 ^ 58" using False by simp
  then have "unat (b + of_nat d) mod 64 = (unat b + d) mod 64" by (simp only: mod_mult_self2)
  moreover have "(unat b + d) mod 64 = unat b mod 64 \<longleftrightarrow> d mod 64 = 0"
    using mod_eq_dvd_iff_nat [of "unat b" "unat b + d" 64] by (simp add: dvd_eq_mod_eq_0)
  moreover have "\<not> b + of_nat d > b" using sum b assms by (simp add: word_less_nat_alt)
  moreover have "d \<noteq> 0" using False b by auto
  ultimately show ?thesis using False by (simp add: tlbgen_cmp_pos_iff)
qed

theorem tlbgen_cmp_misses_witness:
  "\<not> 0 < tlbgen_cmp ((- 64) + of_nat 64) (- 64) \<and> 0 < tlbgen_cmp ((- 64) + of_nat 65) (- 64)"
  using tlbgen_cmp_misses [of 64 "- 64"] tlbgen_cmp_misses [of 65 "- 64"] by simp

end
