(* ===== verification/Cpumask.thy ===== *)
theory Cpumask
  imports Nux_Prelude
begin

text \<open>
  CPU sets (\<^verbatim>\<open>include/nux/cpumask.h\<close>): the atomic and the plain updates of a 64-bit mask, and the
  iteration macros. The plain updates shift the \<^verbatim>\<open>int\<close> literal 1: the shift is done in 32 bits and
  the result is sign-extended.
\<close>

section \<open>The code\<close>

type_synonym cpumask_t = u64

definition atomic_cpumask_set :: "cpumask_t \<Rightarrow> u32 \<Rightarrow> cpumask_t" where
  "atomic_cpumask_set m cpu = m OR push_bit (unat cpu) 1"

definition atomic_cpumask_and :: "cpumask_t \<Rightarrow> cpumask_t \<Rightarrow> cpumask_t" where
  "atomic_cpumask_and m k = m AND k"

definition atomic_cpumask_clear :: "cpumask_t \<Rightarrow> u32 \<Rightarrow> cpumask_t" where
  "atomic_cpumask_clear m cpu = atomic_cpumask_and m (NOT (push_bit (unat cpu) 1))"

definition atomic_cpumask :: "cpumask_t \<Rightarrow> cpumask_t" where
  "atomic_cpumask m = m + 0"

definition cpumask_set :: "cpumask_t \<Rightarrow> u32 \<Rightarrow> cpumask_t" where
  "cpumask_set m cpu = m OR scast (push_bit (unat cpu) (1 :: u32))"

definition cpumask_clear :: "cpumask_t \<Rightarrow> u32 \<Rightarrow> cpumask_t" where
  "cpumask_clear m cpu = m AND scast (NOT (push_bit (unat cpu) (1 :: u32)))"

text \<open>The loops of \<^verbatim>\<open>foreach_cpumask\<close> and \<^verbatim>\<open>once_cpumask\<close>, started with \<open>i = 0\<close> and the mask
  restricted to the active CPUs.\<close>

function foreach_loop :: "(u32 \<Rightarrow> 's \<Rightarrow> 's) \<Rightarrow> u32 \<Rightarrow> cpumask_t \<Rightarrow> 's \<Rightarrow> 's" where
  "foreach_loop oper i m s =
     (let s = (if m AND 1 \<noteq> 0 then oper i s else s);
          m = drop_bit 1 m; i = i + 1
      in if m \<noteq> 0 then foreach_loop oper i m s else s)"
  by pat_completeness auto
termination
proof (relation "measure (\<lambda>(oper, i, m, s). unat m)")
  fix oper :: "u32 \<Rightarrow> 's \<Rightarrow> 's" and i :: u32 and m :: u64 and s x xa xb
  assume "xa = drop_bit 1 m" "xa \<noteq> 0"
  moreover from this have "unat m \<noteq> 0" by (auto simp: unat_eq_zero)
  ultimately show "((oper, xb, xa, x), oper, i, m, s) \<in> measure (\<lambda>(oper, i, m, s). unat m)"
    by (simp add: unat_drop_bit)
qed simp

declare foreach_loop.simps [simp del]

definition foreach_cpumask :: "cpumask_t \<Rightarrow> cpumask_t \<Rightarrow> (u32 \<Rightarrow> 's \<Rightarrow> 's) \<Rightarrow> 's \<Rightarrow> 's" where
  "foreach_cpumask cm active oper s = foreach_loop oper 0 (cm AND active) s"

function once_loop :: "(u32 \<Rightarrow> 's \<Rightarrow> 's) \<Rightarrow> u32 \<Rightarrow> cpumask_t \<Rightarrow> 's \<Rightarrow> 's" where
  "once_loop oper i m s =
     (if m \<noteq> 0
      then (if m AND 1 \<noteq> 0 then oper i s else once_loop oper (i + 1) (drop_bit 1 m) s)
      else s)"
  by pat_completeness auto
termination
proof (relation "measure (\<lambda>(oper, i, m, s). unat m)")
  fix oper :: "u32 \<Rightarrow> 's \<Rightarrow> 's" and i :: u32 and m :: u64 and s
  assume "m \<noteq> 0"
  then have "unat m \<noteq> 0" by (simp add: unat_eq_zero)
  then show "((oper, i + 1, drop_bit 1 m, s), oper, i, m, s) \<in> measure (\<lambda>(oper, i, m, s). unat m)"
    by (simp add: unat_drop_bit)
qed simp

declare once_loop.simps [simp del]

definition once_cpumask :: "cpumask_t \<Rightarrow> cpumask_t \<Rightarrow> (u32 \<Rightarrow> 's \<Rightarrow> 's) \<Rightarrow> 's \<Rightarrow> 's" where
  "once_cpumask cm active oper s = once_loop oper 0 (cm AND active) s"

section \<open>Masks as sets of CPU numbers\<close>

definition cpuset :: "cpumask_t \<Rightarrow> nat list" where
  "cpuset m = filter (bit m) [0..<64]"

lemma set_cpuset [simp]: "set (cpuset m) = {i. bit m i}"
  by (auto simp: cpuset_def dest: bit_imp_le_length)

lemma atomic_set_bit:
  "unat cpu < 64 \<Longrightarrow> bit (atomic_cpumask_set m cpu) i \<longleftrightarrow> i = unat cpu \<or> bit m i"
  by (auto simp: atomic_cpumask_set_def bit_simps)

lemma atomic_clear_bit:
  "bit (atomic_cpumask_clear m cpu) i \<longleftrightarrow> i \<noteq> unat cpu \<and> bit m i"
  using bit_imp_le_length [of m i] by (auto simp: atomic_cpumask_clear_def atomic_cpumask_and_def bit_simps)

lemma foreach_loop_bits:
  assumes "\<And>i. bit m i \<Longrightarrow> k + i < 64"
  shows "foreach_loop oper (of_nat k) m s =
    fold (\<lambda>i. oper (of_nat i)) (filter (\<lambda>i. k \<le> i \<and> bit m (i - k)) [0..<64]) s"
  using assms
proof (induction "64 - k" arbitrary: k m s rule: less_induct)
  case less
  show ?case
  proof (cases "m = 0")
    case True
    then show ?thesis by (subst foreach_loop.simps) simp
  next
    case False
    then obtain j where "bit m j" by (metis bit_0_eq bit_word_eqI bot_apply bot_bool_def)
    then have k: "k < 64" using less.prems by fastforce
    define L where "L = filter (\<lambda>i. Suc k \<le> i \<and> bit (drop_bit 1 m) (i - Suc k)) [0..<64]"
    have upt: "[0..<64] = [0..<k] @ k # [Suc k..<64]"
      using k upt_add_eq_append [of 0 k "64 - k"] by (simp add: upt_conv_Cons)
    have split: "filter (\<lambda>i. k \<le> i \<and> bit m (i - k)) [0..<64] = (if bit m 0 then [k] else []) @ L"
    proof -
      have "filter (\<lambda>i. k \<le> i \<and> bit m (i - k)) [Suc k..<64] =
          filter (\<lambda>i. Suc k \<le> i \<and> bit (drop_bit 1 m) (i - Suc k)) [Suc k..<64]"
        by (intro filter_cong refl) (auto simp: bit_simps Suc_diff_Suc)
      then show ?thesis unfolding L_def upt by simp
    qed
    have odd: "m AND 1 \<noteq> 0 \<longleftrightarrow> bit m 0" by (simp add: and_one_eq bit_0 odd_iff_mod_2_eq_one)
    have "foreach_loop oper (of_nat (Suc k)) (drop_bit 1 m) t = fold (\<lambda>i. oper (of_nat i)) L t" for t
      unfolding L_def using k less.prems by (intro less.hyps) (fastforce simp: bit_simps)+
    moreover have "L = []" if "drop_bit 1 m = 0"
      using that by (simp add: L_def filter_empty_conv)
    ultimately show ?thesis
      by (subst foreach_loop.simps) (auto simp: split odd Let_def add.commute)
  qed
qed

section \<open>Properties\<close>

text \<open>
  C35. \<^verbatim>\<open>foreach_cpumask\<close> runs its operation exactly once for every CPU that is in the mask and
  active, in increasing order, with the CPU's number as \<open>i\<close>.
\<close>

theorem foreach_cpumask_visits:
  "foreach_cpumask m active oper s = fold (\<lambda>i. oper (of_nat i)) (cpuset (m AND active)) s"
  using foreach_loop_bits [of "m AND active" 0 oper s] bit_imp_le_length [of "m AND active"]
  by (simp add: foreach_cpumask_def cpuset_def)

text \<open>
  C36. What the plain updates do for the CPU numbers their \<^verbatim>\<open>int\<close> shift is defined for. Below 31
  they set and clear exactly the CPU; for CPU 31 the sign extension takes all CPUs from 32 up along.
\<close>

theorem cpumask_int_shift:
  assumes "unat cpu < 32"
  shows "(bit (cpumask_set m cpu) i \<longleftrightarrow> bit m i \<or> i = unat cpu \<or> (unat cpu = 31 \<and> 32 \<le> i \<and> i < 64)) \<and>
    (bit (cpumask_clear m cpu) i \<longleftrightarrow> bit m i \<and> i \<noteq> unat cpu \<and> \<not> (unat cpu = 31 \<and> 32 \<le> i))"
proof (cases "i < 64")
  case True
  then show ?thesis
    using assms by (auto simp: cpumask_set_def cpumask_clear_def bit_simps min_def)
next
  case False
  then show ?thesis using assms bit_imp_le_length [of m i]
    by (auto simp: cpumask_set_def cpumask_clear_def bit_simps dest: bit_imp_le_length)
qed

theorem cpumask_int_shift_witness:
  "bit (cpumask_set 1 31) 40 \<and> \<not> bit (cpumask_clear (- 1) 31) 40 \<and> bit (cpumask_clear (- 1) 30) 40"
  using cpumask_int_shift [of 31 1 40] cpumask_int_shift [of 31 "- 1" 40] cpumask_int_shift [of 30 "- 1" 40]
  by (simp add: bit_simps)

end
