(* ===== verification/Cpu.thy ===== *)
theory Cpu
  imports Ktlb Cpumask
begin

text \<open>
  CPU management (\<^verbatim>\<open>libnux/cpu.c\<close>), the status flags of \<^verbatim>\<open>libnux/init.c\<close> and the check of user
  address ranges (\<^verbatim>\<open>libnux/uaddr.c\<close>).

  The state has the table of CPUs and the masks; \<open>curcpu\<close> is the CPU that runs the code, the one
  whose \<^verbatim>\<open>struct cpu_info\<close> the HAL's per-CPU data pointer gives. A \<^verbatim>\<open>struct cpu_info *\<close> is an index
  into \<open>cpus\<close>; following a pointer to no CPU does not return. The platform's CPU iterator is the list
  of physical CPUs it yields.

  A \<^verbatim>\<open>longjmp\<close> is modelled by what runs after it: the idle loop, or the retry of a user copy.
\<close>

section \<open>State\<close>

record cpu_info =
  cpu_id :: u32
  phys_id :: u32
  ci_umap :: u64
  idle :: bool
  nmiop :: u32
  ci_ktlb :: ktlb
  usrpgfault :: u32
  usrpgaddr :: uaddr_t
  usrpginfo :: u32
  ci_data :: u64

abbreviation (input) NMIOP_KMAPUPDATE :: u32 where "NMIOP_KMAPUPDATE \<equiv> 1"
abbreviation (input) NMIOP_TLBFLUSH :: u32 where "NMIOP_TLBFLUSH \<equiv> 2"

abbreviation (input) NUXST_OKPLT :: u8 where "NUXST_OKPLT \<equiv> 1"
abbreviation (input) NUXST_OKCPU :: u8 where "NUXST_OKCPU \<equiv> 2"
abbreviation (input) NUXST_RUNNING :: u8 where "NUXST_RUNNING \<equiv> 4"
abbreviation (input) NUXST_PANIC :: u8 where "NUXST_PANIC \<equiv> 128"

text \<open>\<^verbatim>\<open>struct umap\<close>: the machine-independent part, and what the HAL keeps in it as one word.\<close>

record umap =
  um_cpumask :: cpumask_t
  um_tlbop :: hal_tlbop_t
  um_hal :: u64

record cpu_st = ktlb_st +
  nux_stflags :: u8
  nux_apbooting :: u32
  number_cpus :: u32
  cpu_phys_to_id :: "u32 list"
  cpus :: "cpu_info option list"
  tlbmap :: cpumask_t
  cpus_active :: cpumask_t
  curcpu :: nat
  umaps :: "u64 \<Rightarrow> umap"
  trace :: "hwop list"

definition hw :: "hwop \<Rightarrow> 'a cpu_st_scheme \<Rightarrow> 'a cpu_st_scheme" where
  "hw oper s = s\<lparr>trace := trace s @ [oper]\<rparr>"

text \<open>The static initialisers: \<^verbatim>\<open>cpu_phys_to_id = { -1, }\<close> sets the first element only.\<close>

definition cpu_boot :: "'a cpu_st_scheme \<Rightarrow> 'a cpu_st_scheme" where
  "cpu_boot s = s\<lparr>number_cpus := 0, cpu_phys_to_id := - 1 # replicate 63 0,
     cpus := replicate HAL_MAXCPUS None, tlbmap := 0, cpus_active := 0\<rparr>"

section \<open>Status flags\<close>

definition nux_status :: "'a cpu_st_scheme \<Rightarrow> u8" where
  "nux_status s = nux_stflags s"

definition nux_status_setfl :: "u8 \<Rightarrow> 'a cpu_st_scheme \<Rightarrow> u8 \<times> 'a cpu_st_scheme" where
  "nux_status_setfl fl s = (nux_stflags s, s\<lparr>nux_stflags := nux_stflags s OR fl\<rparr>)"

definition nux_status_okcpu :: "'a cpu_st_scheme \<Rightarrow> bool" where
  "nux_status_okcpu s =
     (if nux_status s AND NUXST_OKCPU = 0 \<or> nux_apbooting s \<noteq> 0 then False else True)"

section \<open>The CPU table\<close>

definition cpu_idfromphys :: "u32 \<Rightarrow> 'a cpu_st_scheme \<Rightarrow> u32 option" where
  "cpu_idfromphys physid s =
     (if unat physid < HAL_MAXCPUS
      then (let id = cpu_phys_to_id s ! unat physid
            in if unat id < HAL_MAXCPUS then Some id else None)
      else None)"

definition cpu_getinfo :: "u32 \<Rightarrow> 'a cpu_st_scheme \<Rightarrow> cpu_info option" where
  "cpu_getinfo cid s =
     (if HAL_MAXCPUS \<le> unat cid then None
      else if number_cpus s \<le> cid then None
      else cpus s ! unat cid)"

definition cpu_curinfo :: "'a cpu_st_scheme \<Rightarrow> cpu_info option" where
  "cpu_curinfo s = (if curcpu s < length (cpus s) then cpus s ! curcpu s else None)"

definition upd_cpu :: "nat \<Rightarrow> (cpu_info \<Rightarrow> cpu_info) \<Rightarrow> 'a cpu_st_scheme \<Rightarrow> 'a cpu_st_scheme" where
  "upd_cpu i f s = s\<lparr>cpus := (cpus s)[i := map_option f (cpus s ! i)]\<rparr>"

abbreviation upd_cur :: "(cpu_info \<Rightarrow> cpu_info) \<Rightarrow> 'a cpu_st_scheme \<Rightarrow> 'a cpu_st_scheme" where
  "upd_cur f s \<equiv> upd_cpu (curcpu s) f s"

text \<open>\<open>brkgrow\<close> is \<^verbatim>\<open>kmem_brkgrow (1, sizeof (struct cpu_info))\<close> and \<open>mem\<close> what the memory it
  returns holds.\<close>

definition cpu_add ::
  "('a cpu_st_scheme \<Rightarrow> (vaddr_t \<times> 'a cpu_st_scheme) option) \<Rightarrow> cpu_info \<Rightarrow> u16 \<Rightarrow>
   'a cpu_st_scheme \<Rightarrow> (int \<times> 'a cpu_st_scheme) option" where
  "cpu_add brkgrow mem physid s =
     (if nux_status s AND NUXST_OKPLT = 0 then None
      else if HAL_MAXCPUS \<le> unat physid then Some (- 1, s)
      else if HAL_MAXCPUS \<le> unat (number_cpus s) then Some (- 1, s)
      else do { let id = number_cpus s;
                let s = s\<lparr>number_cpus := number_cpus s + 1\<rparr>;
                (p, s) \<leftarrow> brkgrow s;
                if p = VADDR_INVALID then None
                else do { let ci = mem\<lparr>cpu_id := id, phys_id := ucast physid\<rparr>;
                          let s = hw (Pcpu_add (ucast physid)) s;
                          let s = s\<lparr>cpus := (cpus s)[unat id := Some ci]\<rparr>;
                          let s = s\<lparr>cpu_phys_to_id := (cpu_phys_to_id s)[unat physid := id]\<rparr>;
                          Some (int (unat id), s) } })"

text \<open>The part of \<^verbatim>\<open>cpu_enter\<close> up to its return; \<open>pcpuid\<close> is what \<^verbatim>\<open>plt_pcpu_id\<close> answers. In panic
  mode the CPU halts.\<close>

definition cpu_enter :: "u32 \<Rightarrow> 'a cpu_st_scheme \<Rightarrow> 'a cpu_st_scheme option" where
  "cpu_enter pcpuid s =
     do { let s = hw Plt_enter s;
          let s = hw (Pcpu_enter pcpuid) s;
          cpuid \<leftarrow> cpu_idfromphys pcpuid s;
          ci \<leftarrow> cpu_getinfo cpuid s;
          let s = hw (Setdata cpuid) (s\<lparr>curcpu := unat cpuid\<rparr>);
          let s = s\<lparr>cpus_active := atomic_cpumask_set (cpus_active s) cpuid\<rparr>;
          if nux_status s AND NUXST_PANIC \<noteq> 0 then None else Some s }"

primrec cpu_add_all ::
  "('a cpu_st_scheme \<Rightarrow> (vaddr_t \<times> 'a cpu_st_scheme) option) \<Rightarrow> cpu_info \<Rightarrow> u32 list \<Rightarrow>
   'a cpu_st_scheme \<Rightarrow> 'a cpu_st_scheme option" where
  "cpu_add_all brkgrow mem [] s = Some s"
| "cpu_add_all brkgrow mem (p # ps) s =
     do { (_, s) \<leftarrow> cpu_add brkgrow mem (ucast p) s; cpu_add_all brkgrow mem ps s }"

definition cpu_init ::
  "('a cpu_st_scheme \<Rightarrow> (vaddr_t \<times> 'a cpu_st_scheme) option) \<Rightarrow> cpu_info \<Rightarrow> u32 list \<Rightarrow> u32 \<Rightarrow>
   'a cpu_st_scheme \<Rightarrow> 'a cpu_st_scheme option" where
  "cpu_init brkgrow mem pcpus self s =
     do { s \<leftarrow> cpu_add_all brkgrow mem pcpus s;
          let s = hw Pcpu_init s;
          cpu_enter self s }"

definition cpu_wasidle :: "'a cpu_st_scheme \<Rightarrow> bool option" where
  "cpu_wasidle s = do { ci \<leftarrow> cpu_curinfo s; Some (idle ci) }"

definition cpu_clridle :: "'a cpu_st_scheme \<Rightarrow> 'a cpu_st_scheme option" where
  "cpu_clridle s = do { ci \<leftarrow> cpu_curinfo s; Some (upd_cur (\<lambda>c. c\<lparr>idle := False\<rparr>) s) }"

text \<open>\<open>startaddr\<close> is \<^verbatim>\<open>hal_pcpu_startaddr\<close>. The warning for a CPU that cannot boot looks its number
  up, and that look-up asserts.\<close>

primrec cpu_startall :: "(u32 \<Rightarrow> paddr_t) \<Rightarrow> u32 \<Rightarrow> u32 list \<Rightarrow> 'a cpu_st_scheme \<Rightarrow> 'a cpu_st_scheme option" where
  "cpu_startall startaddr self [] s = Some s"
| "cpu_startall startaddr self (p # ps) s =
     (if p = self then cpu_startall startaddr self ps s
      else if HAL_MAXCPUS \<le> unat p then cpu_startall startaddr self ps s
      else let start = startaddr p
           in if start \<noteq> PADDR_INVALID
              then cpu_startall startaddr self ps (hw (Pcpu_start p start) s)
              else do { _ \<leftarrow> cpu_idfromphys p s; cpu_startall startaddr self ps s })"

definition cpu_activemask :: "'a cpu_st_scheme \<Rightarrow> cpumask_t" where
  "cpu_activemask s = atomic_cpumask (cpus_active s)"

definition cpu_id_cur :: "'a cpu_st_scheme \<Rightarrow> u32 option" where
  "cpu_id_cur s = do { ci \<leftarrow> cpu_curinfo s; Some (cpu_id ci) }"

definition cpu_try_id :: "'a cpu_st_scheme \<Rightarrow> u32 option" where
  "cpu_try_id s = (if \<not> nux_status_okcpu s then Some 0 else do { ci \<leftarrow> cpu_curinfo s; Some (cpu_id ci) })"

definition cpu_setdata :: "u64 \<Rightarrow> 'a cpu_st_scheme \<Rightarrow> 'a cpu_st_scheme option" where
  "cpu_setdata p s = do { ci \<leftarrow> cpu_curinfo s; Some (upd_cur (\<lambda>c. c\<lparr>ci_data := p\<rparr>) s) }"

definition cpu_getdata :: "'a cpu_st_scheme \<Rightarrow> u64 option" where
  "cpu_getdata s = do { ci \<leftarrow> cpu_curinfo s; Some (ci_data ci) }"

definition cpu_num :: "'a cpu_st_scheme \<Rightarrow> u32" where
  "cpu_num s = number_cpus s"

section \<open>Interrupting other CPUs\<close>

definition cpu_nmi :: "u32 \<Rightarrow> 'a cpu_st_scheme \<Rightarrow> 'a cpu_st_scheme" where
  "cpu_nmi cpu s =
     (case cpu_getinfo cpu s of None \<Rightarrow> s | Some ci \<Rightarrow> hw (Pcpu_nmi (phys_id ci)) s)"

definition cpu_nmi_mask :: "cpumask_t \<Rightarrow> 'a cpu_st_scheme \<Rightarrow> 'a cpu_st_scheme" where
  "cpu_nmi_mask m s = foreach_cpumask m (cpu_activemask s) cpu_nmi s"

definition cpu_nmi_allbutself :: "'a cpu_st_scheme \<Rightarrow> 'a cpu_st_scheme option" where
  "cpu_nmi_allbutself s =
     (if nux_status_okcpu s
      then do { let m = cpu_activemask s;
                self \<leftarrow> cpu_id_cur s;
                let m = cpumask_clear m self;
                Some (cpu_nmi_mask m s) }
      else Some s)"

definition cpu_ipi :: "u32 \<Rightarrow> 'a cpu_st_scheme \<Rightarrow> 'a cpu_st_scheme" where
  "cpu_ipi cpu s =
     (case cpu_getinfo cpu s of None \<Rightarrow> s | Some ci \<Rightarrow> hw (Pcpu_ipi (phys_id ci)) s)"

definition cpu_ipi_broadcast :: "'a cpu_st_scheme \<Rightarrow> 'a cpu_st_scheme" where
  "cpu_ipi_broadcast s = hw Pcpu_ipiall s"

definition cpu_ipi_mask :: "cpumask_t \<Rightarrow> 'a cpu_st_scheme \<Rightarrow> 'a cpu_st_scheme" where
  "cpu_ipi_mask m s = foreach_cpumask m (cpu_activemask s) cpu_ipi s"

text \<open>\<^verbatim>\<open>longjmp (ci->idlejmp, 1)\<close> lands in \<^verbatim>\<open>cpu_enter\<close>, which marks the CPU idle and idles it.\<close>

definition cpu_idle :: "'a cpu_st_scheme \<Rightarrow> 'a cpu_st_scheme option" where
  "cpu_idle s = do { ci \<leftarrow> cpu_curinfo s; Some (hw Cpu_idle (upd_cur (\<lambda>c. c\<lparr>idle := True\<rparr>) s)) }"

section \<open>Kernel TLBs\<close>

text \<open>The compare-and-exchanges succeed: nothing interrupts the function in this model.\<close>

definition cpu_ktlb_update :: "'a cpu_st_scheme \<Rightarrow> 'a cpu_st_scheme option" where
  "cpu_ktlb_update s =
     do { ci \<leftarrow> cpu_curinfo s;
          let cpu_global = tg_global (ci_ktlb ci);
          let cpu_normal = tg_normal (ci_ktlb ci);
          let kglobal = ktlbgen_global s;
          let knormal = ktlbgen_normal s;
          if tlbgen_cmp kglobal cpu_global > 0
          then Some (upd_cur (\<lambda>c. c\<lparr>ci_ktlb := \<lparr>tg_global = kglobal, tg_normal = knormal\<rparr>\<rparr>)
                 (hw (Tlbop HAL_TLBOP_FLUSHALL) s))
          else if tlbgen_cmp knormal cpu_normal > 0
          then Some (upd_cur (\<lambda>c. c\<lparr>ci_ktlb := (ci_ktlb c)\<lparr>tg_normal := knormal\<rparr>\<rparr>)
                 (hw (Tlbop HAL_TLBOP_FLUSH) s))
          else Some s }"

definition cpu_ktlb_reach :: "tlbgen_t \<Rightarrow> 'a cpu_st_scheme \<Rightarrow> 'a cpu_st_scheme option" where
  "cpu_ktlb_reach target s =
     (if \<not> nux_status_okcpu s then Some (hw (Tlbop HAL_TLBOP_FLUSH) s)
      else do { ci \<leftarrow> cpu_curinfo s;
                let cpu_ktlb = tg_normal (ci_ktlb ci);
                if tlbgen_cmp target cpu_ktlb > 0 then cpu_ktlb_update s else Some s })"

definition cpu_tlbflush_local :: "'a cpu_st_scheme \<Rightarrow> 'a cpu_st_scheme option" where
  "cpu_tlbflush_local s =
     do { ci \<leftarrow> cpu_curinfo s;
          let knormal = ktlbgen_normal s;
          let s = hw (Tlbop HAL_TLBOP_FLUSH) s;
          Some (upd_cur (\<lambda>c. c\<lparr>ci_ktlb := (ci_ktlb c)\<lparr>tg_normal := knormal\<rparr>\<rparr>) s) }"

definition cpu_nmiop :: "'a cpu_st_scheme \<Rightarrow> 'a cpu_st_scheme option" where
  "cpu_nmiop s =
     do { ci \<leftarrow> cpu_curinfo s;
          let oper = nmiop ci;
          s \<leftarrow> (if oper AND NMIOP_KMAPUPDATE \<noteq> 0 then cpu_ktlb_update s else Some s);
          s \<leftarrow> (if oper AND NMIOP_TLBFLUSH \<noteq> 0 then cpu_tlbflush_local s else Some s);
          self \<leftarrow> cpu_id_cur s;
          Some (s\<lparr>tlbmap := atomic_cpumask_clear (tlbmap s) self\<rparr>) }"

definition cpu_kmapupdate :: "u32 \<Rightarrow> 'a cpu_st_scheme \<Rightarrow> 'a cpu_st_scheme" where
  "cpu_kmapupdate cpu s =
     (case cpu_getinfo cpu s of
        None \<Rightarrow> s
      | Some ci \<Rightarrow> cpu_nmi cpu (upd_cpu (unat cpu) (\<lambda>c. c\<lparr>nmiop := nmiop c OR NMIOP_KMAPUPDATE\<rparr>) s))"

definition cpu_kmapupdate_broadcast :: "'a cpu_st_scheme \<Rightarrow> 'a cpu_st_scheme" where
  "cpu_kmapupdate_broadcast s =
     (if nux_status_okcpu s
      then foreach_cpumask (cpu_activemask s) (cpu_activemask s) cpu_kmapupdate s
      else hw (Tlbop HAL_TLBOP_FLUSHALL) s)"

definition cpu_tlbflush :: "u32 \<Rightarrow> 'a cpu_st_scheme \<Rightarrow> 'a cpu_st_scheme" where
  "cpu_tlbflush cpu s =
     (case cpu_getinfo cpu s of
        None \<Rightarrow> s
      | Some ci \<Rightarrow> cpu_nmi cpu (upd_cpu (unat cpu) (\<lambda>c. c\<lparr>nmiop := nmiop c OR NMIOP_TLBFLUSH\<rparr>) s))"

definition cpu_tlbflush_mask :: "cpumask_t \<Rightarrow> 'a cpu_st_scheme \<Rightarrow> 'a cpu_st_scheme" where
  "cpu_tlbflush_mask m s = foreach_cpumask m (cpu_activemask s) cpu_tlbflush s"

definition cpu_tlbflush_broadcast :: "'a cpu_st_scheme \<Rightarrow> 'a cpu_st_scheme" where
  "cpu_tlbflush_broadcast s =
     (if nux_status_okcpu s then cpu_tlbflush_mask (cpu_activemask s) s
      else hw (Tlbop HAL_TLBOP_FLUSHALL) s)"

definition cpu_nmi_broadcast :: "'a cpu_st_scheme \<Rightarrow> 'a cpu_st_scheme" where
  "cpu_nmi_broadcast s = cpu_tlbflush_mask (cpu_activemask s) s"

section \<open>User address ranges\<close>

definition uaddr_valid :: "vaddr_t \<Rightarrow> size_t \<Rightarrow> uaddr_t \<Rightarrow> bool" where
  "uaddr_valid userbase usersize a =
     (let mn = userbase; mx = mn + usersize in mn \<le> a \<and> a < mx)"

definition uaddr_validrange :: "vaddr_t \<Rightarrow> size_t \<Rightarrow> uaddr_t \<Rightarrow> size_t \<Rightarrow> bool" where
  "uaddr_validrange userbase usersize a sz =
     (let mn = userbase
      in if usersize > UADDR_INVALID - mn then False
         else let mx = mn + usersize
              in if sz = 0 then mn \<le> a \<and> a \<le> mx
                 else if a < mn then False
                 else let last_offset = sz - 1
                      in if last_offset > UADDR_INVALID - a then False
                         else (let l = a + last_offset in l < mx))"

section \<open>Copies from and to user memory\<close>

text \<open>
  \<open>faults\<close> are the page faults that the copy takes, in order, each on one attempt of the whole copy;
  when none is left the copy \<open>mem\<close> completes. A fault enters \<^verbatim>\<open>cpu_useraccess_checkpf\<close>, which jumps
  back to the \<^verbatim>\<open>setjmp\<close>.
\<close>

type_synonym 's pf_handler = "uaddr_t \<Rightarrow> u32 \<Rightarrow> 's \<Rightarrow> bool \<times> 's"

definition cpu_useraccess_start :: "'a cpu_st_scheme \<Rightarrow> 'a cpu_st_scheme" where
  "cpu_useraccess_start s = hw Useraccess_start s"

definition cpu_useraccess_reset :: "'a cpu_st_scheme \<Rightarrow> 'a cpu_st_scheme option" where
  "cpu_useraccess_reset s =
     do { ci \<leftarrow> cpu_curinfo s; Some (upd_cur (\<lambda>c. c\<lparr>usrpgaddr := 0, usrpginfo := 0\<rparr>) s) }"

definition cpu_useraccess_end :: "'a cpu_st_scheme \<Rightarrow> 'a cpu_st_scheme option" where
  "cpu_useraccess_end s =
     do { ci \<leftarrow> cpu_curinfo s;
          let s = hw Useraccess_end s;
          Some (upd_cur (\<lambda>c. c\<lparr>usrpgaddr := 0, usrpginfo := 0, usrpgfault := 0\<rparr>) s) }"

text \<open>\<open>Some (True, s)\<close>: jumped to the user-copy context; \<open>Some (False, s)\<close>: returned.\<close>

definition cpu_useraccess_checkpf :: "uaddr_t \<Rightarrow> u32 \<Rightarrow> 'a cpu_st_scheme \<Rightarrow> (bool \<times> 'a cpu_st_scheme) option" where
  "cpu_useraccess_checkpf a info s =
     do { ci \<leftarrow> cpu_curinfo s;
          if usrpgfault ci \<noteq> 0
          then Some (True, upd_cur (\<lambda>c. c\<lparr>usrpgaddr := a, usrpginfo := info\<rparr>) s)
          else Some (False, s) }"

primrec useraccess_attempts ::
  "'a cpu_st_scheme pf_handler option \<Rightarrow> ('a cpu_st_scheme \<Rightarrow> 'a cpu_st_scheme) \<Rightarrow> (uaddr_t \<times> u32) list \<Rightarrow>
   'a cpu_st_scheme \<Rightarrow> (bool \<times> 'a cpu_st_scheme) option" where
  "useraccess_attempts handler mem [] s =
     do { s \<leftarrow> cpu_useraccess_end (mem s); Some (True, s) }"
| "useraccess_attempts handler mem (f # fs) s =
     do { (jumped, s) \<leftarrow> cpu_useraccess_checkpf (fst f) (snd f) s;
          if \<not> jumped then None
          else do { ci \<leftarrow> cpu_curinfo s;
                    case handler of
                      None \<Rightarrow> do { s \<leftarrow> cpu_useraccess_end s; Some (False, s) }
                    | Some h \<Rightarrow>
                        (let (ok, s) = h (usrpgaddr ci) (usrpginfo ci) s
                         in if \<not> ok then do { s \<leftarrow> cpu_useraccess_end s; Some (False, s) }
                            else do { s \<leftarrow> cpu_useraccess_reset s; useraccess_attempts handler mem fs s }) } }"

definition cpu_useraccess ::
  "vaddr_t \<Rightarrow> size_t \<Rightarrow> uaddr_t \<Rightarrow> size_t \<Rightarrow> 'a cpu_st_scheme pf_handler option \<Rightarrow>
   ('a cpu_st_scheme \<Rightarrow> 'a cpu_st_scheme) \<Rightarrow> (uaddr_t \<times> u32) list \<Rightarrow>
   'a cpu_st_scheme \<Rightarrow> (bool \<times> 'a cpu_st_scheme) option" where
  "cpu_useraccess userbase usersize a sz handler mem faults s =
     do { ci \<leftarrow> cpu_curinfo s;
          if \<not> uaddr_validrange userbase usersize a sz then Some (False, s)
          else do { let s = cpu_useraccess_start s;
                    let s = upd_cur (\<lambda>c. c\<lparr>usrpgfault := 1\<rparr>) s;
                    useraccess_attempts handler mem faults s } }"

section \<open>The user mapping a CPU runs with\<close>

definition cpu_umap_current :: "'a cpu_st_scheme \<Rightarrow> u64 option" where
  "cpu_umap_current s = do { ci \<leftarrow> cpu_curinfo s; Some (ci_umap ci) }"

definition upd_umap :: "u64 \<Rightarrow> (umap \<Rightarrow> umap) \<Rightarrow> 'a cpu_st_scheme \<Rightarrow> 'a cpu_st_scheme" where
  "upd_umap u f s = s\<lparr>umaps := (umaps s)(u := f (umaps s u))\<rparr>"

text \<open>\<open>load\<close> is \<^verbatim>\<open>hal_umap_load\<close>: it gives the TLB operation the switch needs. The null pointer is 0.\<close>

definition cpu_umap_enter :: "(u64 \<Rightarrow> hal_tlbop_t) \<Rightarrow> u64 \<Rightarrow> 'a cpu_st_scheme \<Rightarrow> 'a cpu_st_scheme option" where
  "cpu_umap_enter load u s =
     do { ci \<leftarrow> cpu_curinfo s;
          let cur = ci_umap ci;
          if u = cur then Some s
          else do { let s = (if cur \<noteq> 0
                       then upd_umap cur (\<lambda>m. m\<lparr>um_cpumask := atomic_cpumask_clear (um_cpumask m) (cpu_id ci)\<rparr>) s
                       else s);
                    let s = upd_cur (\<lambda>c. c\<lparr>ci_umap := u\<rparr>) s;
                    if u = 0 then None
                    else do { let s = upd_umap u (\<lambda>m. m\<lparr>um_cpumask := atomic_cpumask_set (um_cpumask m) (cpu_id ci)\<rparr>) s;
                              Some (hw (Tlbop (load u)) (hw (Umap_load u) s)) } } }"

definition cpu_umap_exit :: "(u64 \<Rightarrow> hal_tlbop_t) \<Rightarrow> 'a cpu_st_scheme \<Rightarrow> (u64 \<times> 'a cpu_st_scheme) option" where
  "cpu_umap_exit load s =
     do { let s = hw (Tlbop (load 0)) (hw (Umap_load 0) s);
          ci \<leftarrow> cpu_curinfo s;
          let cur = ci_umap ci;
          if cur = 0 then Some (0, s)
          else do { let s = upd_umap cur (\<lambda>m. m\<lparr>um_cpumask := atomic_cpumask_clear (um_cpumask m) (cpu_id ci)\<rparr>) s;
                    Some (cur, upd_cur (\<lambda>c. c\<lparr>ci_umap := 0\<rparr>) s) } }"

section \<open>Vocabulary of the proofs\<close>

definition cpu_table_ok :: "'a cpu_st_scheme \<Rightarrow> bool" where
  "cpu_table_ok s \<longleftrightarrow>
     length (cpus s) = HAL_MAXCPUS \<and> length (cpu_phys_to_id s) = HAL_MAXCPUS \<and>
     unat (number_cpus s) \<le> HAL_MAXCPUS \<and>
     (\<forall>i < unat (number_cpus s). \<exists>ci. cpus s ! i = Some ci \<and> unat (cpu_id ci) = i \<and>
        unat (phys_id ci) < HAL_MAXCPUS \<and> unat (cpu_phys_to_id s ! unat (phys_id ci)) = i)"

definition cpu_frame :: "'a cpu_st_scheme \<Rightarrow> 'a cpu_st_scheme \<Rightarrow> bool" where
  "cpu_frame s t \<longleftrightarrow> nux_stflags t = nux_stflags s \<and> nux_apbooting t = nux_apbooting s \<and>
     number_cpus t = number_cpus s \<and> cpu_phys_to_id t = cpu_phys_to_id s \<and> cpus t = cpus s \<and>
     cpus_active t = cpus_active s \<and> curcpu t = curcpu s"

definition registered :: "'a cpu_st_scheme \<Rightarrow> u32 set" where
  "registered s = {p. \<exists>i < unat (number_cpus s). \<exists>ci. cpus s ! i = Some ci \<and> phys_id ci = p}"

text \<open>The mask of every user mapping has exactly the CPUs that run with it.\<close>

definition umap_tracked :: "'a cpu_st_scheme \<Rightarrow> bool" where
  "umap_tracked s \<longleftrightarrow> cpu_table_ok s \<and>
     (\<forall>u c. u \<noteq> 0 \<longrightarrow> c < unat (number_cpus s) \<longrightarrow>
        (bit (um_cpumask (umaps s u)) c \<longleftrightarrow> ci_umap (the (cpus s ! c)) = u))"

text \<open>A handler that leaves the CPU table alone.\<close>

definition handler_ok :: "'a cpu_st_scheme pf_handler option \<Rightarrow> bool" where
  "handler_ok handler \<longleftrightarrow> (\<forall>h a i s. handler = Some h \<longrightarrow>
     cpus (snd (h a i s)) = cpus s \<and> curcpu (snd (h a i s)) = curcpu s)"

definition umap0 :: umap where
  "umap0 = \<lparr>um_cpumask = 0, um_tlbop = 0, um_hal = 0\<rparr>"

definition ci0 :: cpu_info where
  "ci0 = \<lparr>cpu_id = 0, phys_id = 0, ci_umap = 0, idle = False, nmiop = 0, ci_ktlb = \<lparr>tg_global = 0, tg_normal = 0\<rparr>,
     usrpgfault = 0, usrpgaddr = 0, usrpginfo = 0, ci_data = 0\<rparr>"

text \<open>A state before any CPU is known, and one with CPUs 0 and 1 (physical 2 and 5) running.\<close>

definition st0 :: cpu_st where
  "st0 = cpu_boot \<lparr>ktlb_cur = \<lparr>tg_global = 0, tg_normal = 0\<rparr>, nux_stflags = NUXST_OKPLT, nux_apbooting = 0,
     number_cpus = 0, cpu_phys_to_id = [], cpus = [], tlbmap = 0, cpus_active = 0, curcpu = 0,
     umaps = (\<lambda>_. umap0), trace = []\<rparr>"

definition st2 :: cpu_st where
  "st2 = st0\<lparr>nux_stflags := NUXST_OKCPU, number_cpus := 2,
     cpu_phys_to_id := (cpu_phys_to_id st0)[2 := 0, 5 := 1],
     cpus := (cpus st0)[0 := Some (ci0\<lparr>phys_id := 2\<rparr>), 1 := Some (ci0\<lparr>cpu_id := 1, phys_id := 5\<rparr>)],
     cpus_active := 3\<rparr>"

section \<open>The table of CPUs\<close>

lemma hw_simps [simp]:
  "trace (hw x s) = trace s @ [x]" "cpus (hw x s) = cpus s" "curcpu (hw x s) = curcpu s"
  "number_cpus (hw x s) = number_cpus s" "cpu_phys_to_id (hw x s) = cpu_phys_to_id s"
  "nux_stflags (hw x s) = nux_stflags s" "nux_apbooting (hw x s) = nux_apbooting s"
  "cpus_active (hw x s) = cpus_active s" "umaps (hw x s) = umaps s" "tlbmap (hw x s) = tlbmap s"
  "ktlb_cur (hw x s) = ktlb_cur s" "cpu_curinfo (hw x s) = cpu_curinfo s"
  "nux_status (hw x s) = nux_status s" "nux_status_okcpu (hw x s) = nux_status_okcpu s"
  "cpu_getinfo c (hw x s) = cpu_getinfo c s" "cpu_idfromphys p (hw x s) = cpu_idfromphys p s"
  by (simp_all add: hw_def cpu_curinfo_def nux_status_def nux_status_okcpu_def cpu_getinfo_def cpu_idfromphys_def)

lemma unat_inc_u32: "unat (w::u32) < 2 ^ 32 - 1 \<Longrightarrow> unat (w + 1) = Suc (unat w)"
  by (subst unat_add_less) simp_all

lemma unat_ucast_16_32 [simp]: "unat (ucast (p::u16) :: u32) = unat p"
proof -
  have "unat p < 2 ^ 16" using unsigned_less [of p] by simp
  then show ?thesis by (simp add: unsigned_ucast_eq take_bit_nat_eq_self)
qed

lemma cpu_add_ok:
  assumes ok: "cpu_table_ok s" and plt: "nux_status s AND NUXST_OKPLT \<noteq> 0"
    and room: "unat (number_cpus s) < HAL_MAXCPUS" and p: "unat physid < HAL_MAXCPUS"
    and new: "ucast physid \<notin> registered s"
    and brk: "\<And>t. \<exists>p t'. brkgrow t = Some (p, t') \<and> p \<noteq> VADDR_INVALID \<and> cpu_frame t t'"
  shows "\<exists>s'. cpu_add brkgrow mem physid s = Some (int (unat (number_cpus s)), s') \<and>
    cpu_table_ok s' \<and> number_cpus s' = number_cpus s + 1 \<and>
    cpu_idfromphys (ucast physid) s' = Some (number_cpus s) \<and>
    (\<exists>ci. cpu_getinfo (number_cpus s) s' = Some ci \<and> phys_id ci = ucast physid \<and> cpu_id ci = number_cpus s) \<and>
    registered s' = insert (ucast physid) (registered s) \<and> nux_stflags s' = nux_stflags s \<and>
    (\<forall>q. q \<noteq> ucast physid \<longrightarrow> cpu_idfromphys q s' = cpu_idfromphys q s)"
proof -
  let ?n = "unat (number_cpus s)"
  let ?ci = "mem\<lparr>cpu_id := number_cpus s, phys_id := ucast physid\<rparr>"
  define s0 where "s0 = s\<lparr>number_cpus := number_cpus s + 1\<rparr>"
  obtain q t where t: "brkgrow s0 = Some (q, t)" "q \<noteq> VADDR_INVALID" "cpu_frame s0 t" using brk by blast
  define s' where "s' = (hw (Pcpu_add (ucast physid)) t)\<lparr>cpus := (cpus t)[?n := Some ?ci],
     cpu_phys_to_id := (cpu_phys_to_id t)[unat physid := number_cpus s]\<rparr>"
  have run: "cpu_add brkgrow mem physid s = Some (int ?n, s')"
    using assms(2-4) t by (simp add: cpu_add_def s0_def s'_def hw_def Let_def)
  have fr: "number_cpus s' = number_cpus s + 1" "cpus s' = (cpus s)[?n := Some ?ci]"
    "cpu_phys_to_id s' = (cpu_phys_to_id s)[unat physid := number_cpus s]" "nux_stflags s' = nux_stflags s"
    using t(3) by (simp_all add: s'_def s0_def cpu_frame_def)
  have n1: "unat (number_cpus s + 1) = Suc ?n" using room by (intro unat_inc_u32) simp
  have len: "length (cpus s) = 64" "length (cpu_phys_to_id s) = 64" using ok by (simp_all add: cpu_table_ok_def)
  have nth: "cpus s' ! i = (if i = ?n then Some ?ci else cpus s ! i)" if "i < 64" for i
    using that len by (simp add: fr nth_list_update)
  have old: "\<exists>ci. cpus s ! i = Some ci \<and> unat (cpu_id ci) = i \<and> unat (phys_id ci) < 64 \<and>
      unat (cpu_phys_to_id s ! unat (phys_id ci)) = i \<and> phys_id ci \<noteq> ucast physid" if "i < ?n" for i
    using ok that new by (fastforce simp: cpu_table_ok_def registered_def)
  have tab: "cpu_table_ok s'"
    unfolding cpu_table_ok_def
  proof (intro conjI allI impI)
    fix i assume "i < unat (number_cpus s')"
    then consider "i < ?n" | "i = ?n" using fr(1) n1 by fastforce
    then show "\<exists>ci. cpus s' ! i = Some ci \<and> unat (cpu_id ci) = i \<and> unat (phys_id ci) < HAL_MAXCPUS \<and>
        unat (cpu_phys_to_id s' ! unat (phys_id ci)) = i"
    proof cases
      case 1
      then obtain ci where ci: "cpus s ! i = Some ci" "unat (cpu_id ci) = i" "unat (phys_id ci) < 64"
        "unat (cpu_phys_to_id s ! unat (phys_id ci)) = i" "phys_id ci \<noteq> ucast physid" using old by blast
      have "unat (phys_id ci) \<noteq> unat physid" using ci(5) by (metis unat_ucast_16_32 word_unat_eq_iff)
      then show ?thesis using ci 1 room nth [of i] fr(3) by (intro exI [of _ ci]) simp
    next
      case 2
      then show ?thesis using room p nth [of i] fr(3) len by (intro exI [of _ ?ci]) simp
    qed
  qed (use len fr n1 room in simp_all)
  have "cpu_idfromphys (ucast physid) s' = Some (number_cpus s)"
    using p room len by (simp add: cpu_idfromphys_def fr)
  moreover have "cpu_getinfo (number_cpus s) s' = Some ?ci"
    using room n1 nth [of ?n] by (simp add: cpu_getinfo_def fr(1) word_le_nat_alt)
  moreover have "registered s' = insert (ucast physid) (registered s)"
  proof -
    have "registered s' = {q. \<exists>i < Suc ?n. \<exists>ci. cpus s' ! i = Some ci \<and> phys_id ci = q}"
      by (simp add: registered_def fr(1) n1)
    also have "\<dots> = insert (phys_id ?ci) {q. \<exists>i < ?n. \<exists>ci. cpus s ! i = Some ci \<and> phys_id ci = q}"
      using nth room by (auto simp: less_Suc_eq)
    finally show ?thesis by (simp add: registered_def)
  qed
  moreover have "cpu_idfromphys q s' = cpu_idfromphys q s" if "q \<noteq> ucast physid" for q
  proof -
    have "unat q \<noteq> unat physid" using that by (metis unat_ucast_16_32 word_unat_eq_iff)
    then show ?thesis by (simp add: cpu_idfromphys_def fr)
  qed
  ultimately show ?thesis using run tab fr by (intro exI [of _ s']) simp
qed

lemma cpu_add_all_ok:
  assumes "cpu_table_ok s" "nux_status s AND NUXST_OKPLT \<noteq> 0"
    and "\<And>t. \<exists>p t'. brkgrow t = Some (p, t') \<and> p \<noteq> VADDR_INVALID \<and> cpu_frame t t'"
    and "distinct ps" "\<forall>p\<in>set ps. unat p < HAL_MAXCPUS \<and> p \<notin> registered s"
    and "unat (number_cpus s) + length ps \<le> HAL_MAXCPUS"
  shows "\<exists>s'. cpu_add_all brkgrow mem ps s = Some s' \<and> cpu_table_ok s' \<and>
    unat (number_cpus s') = unat (number_cpus s) + length ps \<and>
    (\<forall>k < length ps. cpu_idfromphys (ps ! k) s' = Some (number_cpus s + of_nat k)) \<and>
    (\<forall>q. q \<notin> set ps \<longrightarrow> cpu_idfromphys q s' = cpu_idfromphys q s) \<and>
    registered s' = registered s \<union> set ps \<and> nux_stflags s' = nux_stflags s"
  using assms
proof (induction ps arbitrary: s)
  case Nil
  then show ?case by simp
next
  case (Cons p ps)
  have p: "unat p < 64" "p \<notin> registered s" using Cons.prems(5) by simp_all
  have up: "unat (ucast p :: u16) = unat p" "ucast (ucast p :: u16) = p"
  proof -
    show 1: "unat (ucast p :: u16) = unat p" using p(1) by (simp add: unat_ucast_less)
    show "ucast (ucast p :: u16) = p" using 1 by (simp add: word_unat_eq_iff)
  qed
  have room: "unat (number_cpus s) < 64" using Cons.prems(6) by simp
  have new: "ucast (ucast p :: u16) \<notin> registered s" "unat (ucast p :: u16) < 64" using p up by simp_all
  obtain s1 where s1: "cpu_add brkgrow mem (ucast p) s = Some (int (unat (number_cpus s)), s1)"
    "cpu_table_ok s1" "number_cpus s1 = number_cpus s + 1" "cpu_idfromphys p s1 = Some (number_cpus s)"
    "registered s1 = insert p (registered s)" "nux_stflags s1 = nux_stflags s"
    "\<forall>q. q \<noteq> p \<longrightarrow> cpu_idfromphys q s1 = cpu_idfromphys q s"
    using cpu_add_ok [OF Cons.prems(1,2) room new(2,1) Cons.prems(3), of mem] up(2) by auto
  have n1: "unat (number_cpus s1) = Suc (unat (number_cpus s))"
    using s1(3) room by (simp add: unat_inc_u32)
  obtain s' where s': "cpu_add_all brkgrow mem ps s1 = Some s'" "cpu_table_ok s'"
    "unat (number_cpus s') = unat (number_cpus s1) + length ps"
    "\<forall>k < length ps. cpu_idfromphys (ps ! k) s' = Some (number_cpus s1 + of_nat k)"
    "\<forall>q. q \<notin> set ps \<longrightarrow> cpu_idfromphys q s' = cpu_idfromphys q s1"
    "registered s' = registered s1 \<union> set ps" "nux_stflags s' = nux_stflags s1"
    using Cons.IH [of s1, OF s1(2) _ Cons.prems(3)] Cons.prems(2,4,5,6) n1 s1(5,6)
    by (auto simp: nux_status_def)
  have "cpu_idfromphys ((p # ps) ! k) s' = Some (number_cpus s + of_nat k)" if "k < length (p # ps)" for k
  proof (cases k)
    case 0
    then show ?thesis using s'(5) s1(4) Cons.prems(4) by simp
  next
    case (Suc j)
    then show ?thesis using s'(4) s1(3) that by (simp add: algebra_simps)
  qed
  then show ?case using s1 s' n1 by (intro exI [of _ s']) auto
qed

section \<open>TLB generations\<close>

lemma upd_cpu_simps [simp]:
  "number_cpus (upd_cpu i f s) = number_cpus s" "trace (upd_cpu i f s) = trace s"
  "cpus_active (upd_cpu i f s) = cpus_active s" "curcpu (upd_cpu i f s) = curcpu s"
  "ktlb_cur (upd_cpu i f s) = ktlb_cur s" "nux_stflags (upd_cpu i f s) = nux_stflags s"
  "nux_apbooting (upd_cpu i f s) = nux_apbooting s" "umaps (upd_cpu i f s) = umaps s"
  "cpu_phys_to_id (upd_cpu i f s) = cpu_phys_to_id s" "length (cpus (upd_cpu i f s)) = length (cpus s)"
  "tlbmap (upd_cpu i f s) = tlbmap s"
  by (simp_all add: upd_cpu_def)

lemma nth_upd_cpu: "i < length (cpus s) \<Longrightarrow>
    cpus (upd_cpu i f s) ! j = (if i = j then map_option f (cpus s ! j) else cpus s ! j)"
  by (simp add: upd_cpu_def nth_list_update)

lemma curinfo_upd: "cpu_curinfo s = Some ci \<Longrightarrow> cpu_curinfo (upd_cur f s) = Some (f ci)"
  by (auto simp: cpu_curinfo_def nth_upd_cpu split: if_splits)

lemma curinfo_upd_hw: "cpu_curinfo s = Some ci \<Longrightarrow> cpu_curinfo (upd_cur f (hw x s)) = Some (f ci)"
  using curinfo_upd [of "hw x s" ci f] by simp

lemma cpu_ktlb_update_ok:
  assumes "cpu_curinfo s = Some ci"
  shows "\<exists>s' ci'. cpu_ktlb_update s = Some s' \<and> cpu_curinfo s' = Some ci' \<and>
    \<not> 0 < tlbgen_cmp (ktlbgen_global s') (tg_global (ci_ktlb ci')) \<and>
    \<not> 0 < tlbgen_cmp (ktlbgen_normal s') (tg_normal (ci_ktlb ci')) \<and>
    trace s' = trace s @
      (if 0 < tlbgen_cmp (ktlbgen_global s) (tg_global (ci_ktlb ci)) then [Tlbop HAL_TLBOP_FLUSHALL]
       else if 0 < tlbgen_cmp (ktlbgen_normal s) (tg_normal (ci_ktlb ci)) then [Tlbop HAL_TLBOP_FLUSH]
       else [])"
proof -
  consider (all) "0 < tlbgen_cmp (ktlbgen_global s) (tg_global (ci_ktlb ci))"
    | (normal) "\<not> 0 < tlbgen_cmp (ktlbgen_global s) (tg_global (ci_ktlb ci))"
        "0 < tlbgen_cmp (ktlbgen_normal s) (tg_normal (ci_ktlb ci))"
    | (none) "\<not> 0 < tlbgen_cmp (ktlbgen_global s) (tg_global (ci_ktlb ci))"
        "\<not> 0 < tlbgen_cmp (ktlbgen_normal s) (tg_normal (ci_ktlb ci))" by blast
  then show ?thesis
  proof cases
    case all
    then show ?thesis using assms curinfo_upd_hw [OF assms]
      by (simp add: cpu_ktlb_update_def ktlbgen_global_def ktlbgen_normal_def)
  next
    case normal
    then show ?thesis using assms curinfo_upd_hw [OF assms]
      by (simp add: cpu_ktlb_update_def ktlbgen_global_def ktlbgen_normal_def)
  next
    case none
    then show ?thesis using assms by (simp add: cpu_ktlb_update_def)
  qed
qed

section \<open>Broadcasts\<close>

lemma kmapupdate_fold:
  assumes "cpu_table_ok s" "\<forall>i\<in>set is. i < unat (number_cpus s)"
  defines "t \<equiv> fold (\<lambda>i. cpu_kmapupdate (of_nat i)) is s"
  shows "cpu_table_ok t \<and> number_cpus t = number_cpus s \<and>
    trace t = trace s @ map (\<lambda>i. Pcpu_nmi (phys_id (the (cpus s ! i)))) is \<and>
    (\<forall>i < unat (number_cpus s). map_option (\<lambda>c. c\<lparr>nmiop := 0\<rparr>) (cpus t ! i) = map_option (\<lambda>c. c\<lparr>nmiop := 0\<rparr>) (cpus s ! i) \<and>
       nmiop (the (cpus t ! i)) = nmiop (the (cpus s ! i)) OR (if i \<in> set is then NMIOP_KMAPUPDATE else 0))"
  using assms(1,2) unfolding t_def
proof (induction "is" arbitrary: s)
  case (Cons k js)
  have n: "unat (number_cpus s) \<le> 64" "length (cpus s) = 64" using Cons.prems(1) by (simp_all add: cpu_table_ok_def)
  have k: "k < unat (number_cpus s)" using Cons.prems(2) by simp
  have uk: "unat (of_nat k :: u32) = k" using k n by (intro unat_of_nat_less) simp
  obtain ci where ci: "cpus s ! k = Some ci" using Cons.prems(1) k by (auto simp: cpu_table_ok_def)
  define u where "u = upd_cpu k (\<lambda>c. c\<lparr>nmiop := nmiop c OR NMIOP_KMAPUPDATE\<rparr>) s"
  have get: "cpu_getinfo (of_nat k) s = Some ci"
    using ci k n uk by (simp add: cpu_getinfo_def word_le_nat_alt)
  have "cpus u ! k = Some (ci\<lparr>nmiop := nmiop ci OR NMIOP_KMAPUPDATE\<rparr>)"
    using ci k n by (simp add: u_def nth_upd_cpu)
  then have get': "cpu_getinfo (of_nat k) u = Some (ci\<lparr>nmiop := nmiop ci OR NMIOP_KMAPUPDATE\<rparr>)"
    using k n uk by (simp add: cpu_getinfo_def word_le_nat_alt u_def)
  have step: "cpu_kmapupdate (of_nat k) s = hw (Pcpu_nmi (phys_id ci)) u"
    using get get' uk by (simp add: cpu_kmapupdate_def cpu_nmi_def u_def)
  have nth: "cpus u ! i = (if i = k then Some (ci\<lparr>nmiop := nmiop ci OR NMIOP_KMAPUPDATE\<rparr>) else cpus s ! i)" for i
    using ci k n by (simp add: u_def nth_upd_cpu)
  have tab: "cpu_table_ok (hw (Pcpu_nmi (phys_id ci)) u)"
    using Cons.prems(1) ci k by (auto simp: cpu_table_ok_def nth u_def [symmetric])
      (auto simp: u_def)
  have num: "number_cpus (hw (Pcpu_nmi (phys_id ci)) u) = number_cpus s" by (simp add: u_def)
  note IH = Cons.IH [OF tab, unfolded num]
  show ?case using IH Cons.prems(2) ci by (auto simp: step nth u_def [symmetric]) (auto simp: u_def)
qed simp

section \<open>Who runs with which user mapping\<close>

lemma cpu_table_upd:
  assumes "cpu_table_ok s" "\<And>c. cpu_id (f c) = cpu_id c \<and> phys_id (f c) = phys_id c"
  shows "cpu_table_ok (upd_cpu i f s)"
proof (cases "i < length (cpus s)")
  case True
  have "\<exists>ci. cpus (upd_cpu i f s) ! j = Some ci \<and> unat (cpu_id ci) = j \<and> unat (phys_id ci) < 64 \<and>
      unat (cpu_phys_to_id s ! unat (phys_id ci)) = j" if "j < unat (number_cpus s)" for j
  proof -
    have "\<exists>ci. cpus s ! j = Some ci \<and> unat (cpu_id ci) = j \<and> unat (phys_id ci) < 64 \<and>
        unat (cpu_phys_to_id s ! unat (phys_id ci)) = j"
      using assms(1) that by (simp add: cpu_table_ok_def)
    then obtain ci where ci: "cpus s ! j = Some ci" "unat (cpu_id ci) = j \<and> unat (phys_id ci) < 64 \<and>
        unat (cpu_phys_to_id s ! unat (phys_id ci)) = j" by blast
    then have "cpus (upd_cpu i f s) ! j = Some (if i = j then f ci else ci)"
      using nth_upd_cpu [OF True, of f j] by simp
    then show ?thesis using assms(2) ci(2) by auto
  qed
  then show ?thesis using assms(1) by (simp add: cpu_table_ok_def)
next
  case False
  then show ?thesis using assms(1) by (simp add: upd_cpu_def cpu_table_ok_def)
qed

lemma cpu_table_cong:
  "cpus t = cpus s \<Longrightarrow> cpu_phys_to_id t = cpu_phys_to_id s \<Longrightarrow> number_cpus t = number_cpus s \<Longrightarrow>
    cpu_table_ok t = cpu_table_ok s"
  by (simp add: cpu_table_ok_def)

lemma upd_umap_simps [simp]:
  "cpus (upd_umap u f s) = cpus s" "number_cpus (upd_umap u f s) = number_cpus s"
  "cpu_phys_to_id (upd_umap u f s) = cpu_phys_to_id s" "curcpu (upd_umap u f s) = curcpu s"
  "umaps (upd_umap u f s) v = (if v = u then f (umaps s u) else umaps s v)"
  "trace (upd_umap u f s) = trace s" "cpu_curinfo (upd_umap u f s) = cpu_curinfo s"
  by (simp_all add: upd_umap_def cpu_curinfo_def)

lemma curinfo_table:
  assumes "cpu_table_ok s" "curcpu s < unat (number_cpus s)"
  obtains ci where "cpu_curinfo s = Some ci" "cpus s ! curcpu s = Some ci" "unat (cpu_id ci) = curcpu s"
    "curcpu s < length (cpus s)" "unat (cpu_id ci) < 64"
  using assms unfolding cpu_table_ok_def cpu_curinfo_def by fastforce

lemma umap_switch:
  assumes tr: "umap_tracked s" and cur: "curcpu s < unat (number_cpus s)" "cpu_curinfo s = Some ci"
    and masks: "\<And>u. u \<noteq> 0 \<Longrightarrow> um_cpumask (umaps t u) =
      (if u = v then atomic_cpumask_set (um_cpumask (umaps s u)) (cpu_id ci)
       else if u = ci_umap ci then atomic_cpumask_clear (um_cpumask (umaps s u)) (cpu_id ci)
       else um_cpumask (umaps s u))"
    and t: "cpus t = (cpus s)[curcpu s := Some (ci\<lparr>ci_umap := v\<rparr>)]" "number_cpus t = number_cpus s"
      "cpu_phys_to_id t = cpu_phys_to_id s"
  shows "umap_tracked t"
proof -
  have tab: "cpu_table_ok s" using tr by (simp add: umap_tracked_def)
  obtain ci' where ci': "cpu_curinfo s = Some ci'" "cpus s ! curcpu s = Some ci'" "unat (cpu_id ci') = curcpu s"
    "curcpu s < length (cpus s)" "unat (cpu_id ci') < 64"
    using curinfo_table [OF tab cur(1)] by blast
  have [simp]: "ci' = ci" using ci'(1) cur(2) by simp
  have "cpus t = cpus (upd_cpu (curcpu s) (\<lambda>c. c\<lparr>ci_umap := v\<rparr>) s)" using ci' t by (simp add: upd_cpu_def)
  then have "cpu_table_ok t"
    using cpu_table_upd [OF tab, of "\<lambda>c. c\<lparr>ci_umap := v\<rparr>" "curcpu s"] t by (simp add: cpu_table_ok_def)
  moreover have "bit (um_cpumask (umaps t u)) c \<longleftrightarrow> ci_umap (the (cpus t ! c)) = u"
    if u: "u \<noteq> 0" and c: "c < unat (number_cpus s)" for u c
  proof -
    have old: "bit (um_cpumask (umaps s u)) c \<longleftrightarrow> ci_umap (the (cpus s ! c)) = u"
      using tr u c by (simp add: umap_tracked_def)
    show ?thesis
    proof (cases "c = curcpu s")
      case True
      then show ?thesis using old ci' u masks [OF u] t(1)
        by (auto simp: atomic_set_bit atomic_clear_bit)
    next
      case False
      then show ?thesis using old ci' u masks [OF u] t(1)
        by (auto simp: atomic_set_bit atomic_clear_bit)
    qed
  qed
  ultimately show ?thesis using t by (simp add: umap_tracked_def)
qed

lemma cpu_umap_enter_ok:
  assumes tr: "umap_tracked s" and cur: "curcpu s < unat (number_cpus s)" and u: "u \<noteq> 0"
  shows "\<exists>s'. cpu_umap_enter load u s = Some s' \<and> umap_tracked s' \<and> cpu_umap_current s' = Some u"
proof -
  obtain ci where ci: "cpu_curinfo s = Some ci" "cpus s ! curcpu s = Some ci" "curcpu s < length (cpus s)"
    using curinfo_table [OF conjunct1 [OF tr [unfolded umap_tracked_def]] cur] by blast
  show ?thesis
  proof (cases "u = ci_umap ci")
    case True
    then show ?thesis using tr ci by (simp add: cpu_umap_enter_def cpu_umap_current_def)
  next
    case False
    define s1 where "s1 = (if ci_umap ci \<noteq> 0
      then upd_umap (ci_umap ci) (\<lambda>m. m\<lparr>um_cpumask := atomic_cpumask_clear (um_cpumask m) (cpu_id ci)\<rparr>) s else s)"
    define t where "t = hw (Tlbop (load u)) (hw (Umap_load u) (upd_umap u
      (\<lambda>m. m\<lparr>um_cpumask := atomic_cpumask_set (um_cpumask m) (cpu_id ci)\<rparr>) (upd_cur (\<lambda>c. c\<lparr>ci_umap := u\<rparr>) s1)))"
    have run: "cpu_umap_enter load u s = Some t"
      using False ci u by (simp add: cpu_umap_enter_def t_def s1_def Let_def)
    have s1: "cpus s1 = cpus s" "curcpu s1 = curcpu s" "number_cpus s1 = number_cpus s" "cpu_phys_to_id s1 = cpu_phys_to_id s"
      by (simp_all add: s1_def)
    have "umap_tracked t"
      using False u ci s1
      by (intro umap_switch [OF tr cur ci(1), of t u]) (auto simp: t_def s1_def upd_cpu_def)
    moreover have "cpu_umap_current t = Some u"
      using ci s1 by (simp add: t_def cpu_umap_current_def cpu_curinfo_def nth_upd_cpu)
    ultimately show ?thesis using run by blast
  qed
qed

lemma cpu_umap_exit_ok:
  assumes tr: "umap_tracked s" and cur: "curcpu s < unat (number_cpus s)"
  shows "\<exists>u s'. cpu_umap_exit load s = Some (u, s') \<and> umap_tracked s' \<and> cpu_umap_current s = Some u \<and>
    cpu_umap_current s' = Some 0"
proof -
  obtain ci where ci: "cpu_curinfo s = Some ci" "cpus s ! curcpu s = Some ci" "curcpu s < length (cpus s)"
    using curinfo_table [OF conjunct1 [OF tr [unfolded umap_tracked_def]] cur] by blast
  define s0 where "s0 = hw (Tlbop (load 0)) (hw (Umap_load 0) s)"
  have tr0: "umap_tracked s0" using tr cpu_table_cong [of s0 s] by (simp add: umap_tracked_def s0_def)
  show ?thesis
  proof (cases "ci_umap ci = 0")
    case True
    then show ?thesis using tr0 ci by (simp add: cpu_umap_exit_def cpu_umap_current_def s0_def)
  next
    case False
    define t where "t = upd_cur (\<lambda>c. c\<lparr>ci_umap := 0\<rparr>) (upd_umap (ci_umap ci)
      (\<lambda>m. m\<lparr>um_cpumask := atomic_cpumask_clear (um_cpumask m) (cpu_id ci)\<rparr>) s0)"
    have run: "cpu_umap_exit load s = Some (ci_umap ci, t)"
      using False ci by (simp add: cpu_umap_exit_def t_def s0_def Let_def)
    have "umap_tracked t"
      using False ci by (intro umap_switch [OF tr cur ci(1), of t 0]) (auto simp: t_def s0_def upd_cpu_def)
    moreover have "cpu_umap_current t = Some 0"
      using ci by (simp add: t_def s0_def cpu_umap_current_def cpu_curinfo_def nth_upd_cpu)
    ultimately show ?thesis using run ci by (simp add: cpu_umap_current_def)
  qed
qed

section \<open>User ranges and copies\<close>

lemma uaddr_validrange_iff:
  assumes "unat userbase + unat usersize < 2 ^ 64"
  shows "uaddr_validrange userbase usersize a sz \<longleftrightarrow>
    unat userbase \<le> unat a \<and> unat a + unat sz \<le> unat userbase + unat usersize"
proof -
  have inv: "unat (UADDR_INVALID - x) = 2 ^ 64 - 1 - unat x" for x :: u64
    using unat_less [of x] by (subst unat_diff_le) (simp_all add: word_le_nat_alt)
  have max: "unat (userbase + usersize) = unat userbase + unat usersize"
    using assms by (intro unat_add_less) simp
  have small: "\<not> usersize > UADDR_INVALID - userbase"
    using assms unat_less [of userbase] by (simp add: word_less_nat_alt inv)
  show ?thesis
  proof (cases "sz = 0")
    case True
    then show ?thesis using small by (simp add: uaddr_validrange_def word_le_nat_alt max)
  next
    case False
    then have "0 < unat sz" by (simp add: unat_eq_zero flip: neq0_conv)
    then have sz1: "unat (sz - 1) = unat sz - 1" by (subst unat_diff_le) (simp_all add: word_le_nat_alt)
    have wrap: "sz - 1 > UADDR_INVALID - a \<longleftrightarrow> 2 ^ 64 \<le> unat a + (unat sz - 1)"
      using unat_less [of a] by (auto simp: word_less_nat_alt inv sz1)
    have last: "unat (a + (sz - 1)) = unat a + (unat sz - 1)" if "\<not> 2 ^ 64 \<le> unat a + (unat sz - 1)"
      using that by (subst unat_add_less) (simp_all add: sz1)
    have "uaddr_validrange userbase usersize a sz \<longleftrightarrow>
        unat userbase \<le> unat a \<and> \<not> 2 ^ 64 \<le> unat a + (unat sz - 1) \<and>
        a + (sz - 1) < userbase + usersize"
      unfolding uaddr_validrange_def Let_def using False small wrap by (simp add: word_less_nat_alt not_le [symmetric])
    also have "\<dots> \<longleftrightarrow> unat userbase \<le> unat a \<and> \<not> 2 ^ 64 \<le> unat a + (unat sz - 1) \<and>
        unat a + (unat sz - 1) < unat userbase + unat usersize"
      using last by (auto simp: word_less_nat_alt max)
    also have "\<dots> \<longleftrightarrow> unat userbase \<le> unat a \<and> unat a + unat sz \<le> unat userbase + unat usersize"
      using assms \<open>0 < unat sz\<close> by linarith
    finally show ?thesis .
  qed
qed

lemma curinfo_cong: "cpus t = cpus s \<Longrightarrow> curcpu t = curcpu s \<Longrightarrow> cpu_curinfo t = cpu_curinfo s"
  by (simp add: cpu_curinfo_def)

lemma useraccess_end_ok:
  assumes "cpu_curinfo s = Some ci"
  shows "\<exists>s' ci'. cpu_useraccess_end s = Some s' \<and> cpu_curinfo s' = Some ci' \<and>
    usrpgfault ci' = 0 \<and> usrpgaddr ci' = 0 \<and> trace s' = trace s @ [Useraccess_end]"
  using assms curinfo_upd_hw [OF assms] by (simp add: cpu_useraccess_end_def)

lemma useraccess_attempts_ok:
  assumes "handler_ok handler" "\<And>s. cpus (mem s) = cpus s \<and> curcpu (mem s) = curcpu s"
    and "cpu_curinfo s = Some ci" "usrpgfault ci \<noteq> 0"
  shows "\<exists>r s' ci'. useraccess_attempts handler mem faults s = Some (r, s') \<and> cpu_curinfo s' = Some ci' \<and>
    usrpgfault ci' = 0 \<and> (\<exists>tr. trace s' = tr @ [Useraccess_end]) \<and> (r \<or> faults \<noteq> [])"
  using assms(3,4)
proof (induction faults arbitrary: s ci)
  case Nil
  have "cpu_curinfo (mem s) = Some ci" using Nil.prems(1) assms(2) curinfo_cong by metis
  then show ?case using useraccess_end_ok by fastforce
next
  case (Cons f fs)
  define s1 where "s1 = upd_cur (\<lambda>c. c\<lparr>usrpgaddr := fst f, usrpginfo := snd f\<rparr>) s"
  have ci1: "cpu_curinfo s1 = Some (ci\<lparr>usrpgaddr := fst f, usrpginfo := snd f\<rparr>)"
    using curinfo_upd [OF Cons.prems(1)] by (simp add: s1_def)
  have jump: "cpu_useraccess_checkpf (fst f) (snd f) s = Some (True, s1)"
    using Cons.prems by (simp add: cpu_useraccess_checkpf_def s1_def)
  show ?case
  proof (cases handler)
    case None
    then show ?thesis using jump ci1 useraccess_end_ok [OF ci1] by fastforce
  next
    case (Some h)
    obtain ok s2 where h: "h (fst f) (snd f) s1 = (ok, s2)" by (cases "h (fst f) (snd f) s1") auto
    have "cpus s2 = cpus s1" "curcpu s2 = curcpu s1"
      using assms(1) Some h by (auto simp: handler_ok_def dest!: spec [of _ "fst f"] spec [of _ "snd f"] spec [of _ s1])
    then have ci2: "cpu_curinfo s2 = Some (ci\<lparr>usrpgaddr := fst f, usrpginfo := snd f\<rparr>)"
      using ci1 curinfo_cong by metis
    show ?thesis
    proof (cases ok)
      case False
      then show ?thesis using jump ci1 Some h useraccess_end_ok [OF ci2] by fastforce
    next
      case True
      define s3 where "s3 = upd_cur (\<lambda>c. c\<lparr>usrpgaddr := 0, usrpginfo := 0\<rparr>) s2"
      have "cpu_curinfo s3 = Some (ci\<lparr>usrpgaddr := 0, usrpginfo := 0\<rparr>)"
        using curinfo_upd [OF ci2] by (simp add: s3_def)
      then show ?thesis using Cons.IH [of s3] Cons.prems(2) jump ci1 ci2 Some h True
        by (fastforce simp: cpu_useraccess_reset_def s3_def)
    qed
  qed
qed

section \<open>Properties\<close>

lemma st0_ok: "cpu_table_ok st0" "registered st0 = {}" "nux_status st0 AND NUXST_OKPLT \<noteq> 0"
  by (simp_all add: st0_def cpu_boot_def cpu_table_ok_def registered_def nux_status_def)

lemma st2_ok: "cpu_table_ok st2"
proof -
  have "number_cpus st2 = 2" "length (cpus st2) = 64" "length (cpu_phys_to_id st2) = 64"
    "cpus st2 ! 0 = Some (ci0\<lparr>phys_id := 2\<rparr>)" "cpus st2 ! 1 = Some (ci0\<lparr>cpu_id := 1, phys_id := 5\<rparr>)"
    "cpu_phys_to_id st2 ! 2 = 0" "cpu_phys_to_id st2 ! 5 = 1"
    by (simp_all add: st2_def st0_def cpu_boot_def)
  then show ?thesis
    unfolding cpu_table_ok_def by (auto simp: ci0_def less_2_cases_iff)
qed

lemma cpu_boot_ok: "cpu_table_ok (cpu_boot s)" "registered (cpu_boot s) = {}" "number_cpus (cpu_boot s) = 0"
  "nux_status (cpu_boot s) = nux_status s"
  by (simp_all add: cpu_boot_def cpu_table_ok_def registered_def nux_status_def)

text \<open>
  C37. Registering the CPUs of a platform, distinct and numbered below 64, gives them the numbers 0,
  1, 2, ... in the order they were found: the physical number of each translates to its number, and
  the information kept under that number is its own.
\<close>

theorem cpu_add_all_registers:
  assumes "nux_status s AND NUXST_OKPLT \<noteq> 0" "distinct ps" "\<forall>p\<in>set ps. unat p < HAL_MAXCPUS"
    "length ps \<le> HAL_MAXCPUS" "k < length ps"
    "\<And>t. \<exists>p t'. brkgrow t = Some (p, t') \<and> p \<noteq> VADDR_INVALID \<and> cpu_frame t t'"
  shows "\<exists>s' ci. cpu_add_all brkgrow mem ps (cpu_boot s) = Some s' \<and>
    cpu_idfromphys (ps ! k) s' = Some (of_nat k) \<and> cpu_getinfo (of_nat k) s' = Some ci \<and>
    cpu_id ci = of_nat k \<and> phys_id ci = ps ! k"
proof -
  obtain s' where s': "cpu_add_all brkgrow mem ps (cpu_boot s) = Some s'" "cpu_table_ok s'"
    "unat (number_cpus s') = length ps" "\<forall>k < length ps. cpu_idfromphys (ps ! k) s' = Some (of_nat k)"
    "registered s' = set ps"
    using cpu_add_all_ok [of "cpu_boot s" brkgrow ps mem] assms by (auto simp: cpu_boot_ok)
  have uk: "unat (of_nat j :: u32) = j" if "j < length ps" for j
    using that assms(4) by (intro unat_of_nat_less) simp
  obtain ci where ci: "cpus s' ! k = Some ci" "unat (cpu_id ci) = k" "unat (phys_id ci) < 64"
    "unat (cpu_phys_to_id s' ! unat (phys_id ci)) = k"
    using s'(2,3) assms(5) unfolding cpu_table_ok_def by fastforce
  have "phys_id ci \<in> registered s'" using ci(1) s'(3) assms(5) unfolding registered_def by auto
  then obtain j where j: "j < length ps" "phys_id ci = ps ! j" using s'(5) by (auto simp: in_set_conv_nth)
  then have "cpu_phys_to_id s' ! unat (phys_id ci) = of_nat j"
    using s'(4) by (auto simp: cpu_idfromphys_def Let_def split: if_splits)
  then have "j = k" using ci(4) uk [OF j(1)] by simp
  moreover have "cpu_id ci = of_nat k" using ci(2) uk [OF assms(5)] by (simp add: word_unat_eq_iff)
  moreover have "cpu_getinfo (of_nat k) s' = Some ci"
    using uk [OF assms(5)] assms(4,5) s'(3) ci(1) by (simp add: cpu_getinfo_def word_le_nat_alt)
  ultimately show ?thesis using s' assms(5) j by blast
qed

theorem cpu_add_all_registers_witness:
  "\<exists>s' ci. cpu_add_all (\<lambda>s. Some (0x1000, s)) ci0 [2, 5] (cpu_boot st0) = Some s' \<and>
    cpu_idfromphys 5 s' = Some 1 \<and> cpu_getinfo 1 s' = Some ci \<and> cpu_id ci = 1 \<and> phys_id ci = 5"
  using cpu_add_all_registers [OF st0_ok(3), of "[2, 5]" 1 "\<lambda>s. Some (0x1000, s)" ci0]
  by (simp add: cpu_frame_def)

text \<open>
  C39. The table of physical CPUs is initialised to \<open>- 1\<close> in its first element only, so looking up a
  physical CPU that was never registered does not fail its assertion: it gives CPU 0.
\<close>

theorem cpu_idfromphys_unknown:
  assumes "nux_status s AND NUXST_OKPLT \<noteq> 0" "distinct ps" "\<forall>p\<in>set ps. unat p < HAL_MAXCPUS"
    "length ps \<le> HAL_MAXCPUS" "q \<notin> set ps" "0 < unat q" "unat q < HAL_MAXCPUS"
    "\<And>t. \<exists>p t'. brkgrow t = Some (p, t') \<and> p \<noteq> VADDR_INVALID \<and> cpu_frame t t'"
  shows "\<exists>s'. cpu_add_all brkgrow mem ps (cpu_boot s) = Some s' \<and> cpu_idfromphys q s' = Some 0"
proof -
  obtain s' where "cpu_add_all brkgrow mem ps (cpu_boot s) = Some s'"
    "cpu_idfromphys q s' = cpu_idfromphys q (cpu_boot s)"
    using cpu_add_all_ok [of "cpu_boot s" brkgrow ps mem] assms by (auto simp: cpu_boot_ok)
  moreover have "cpu_idfromphys q (cpu_boot s) = Some 0"
    using assms(6,7) by (cases "unat q") (simp_all add: cpu_idfromphys_def cpu_boot_def)
  ultimately show ?thesis by simp
qed

theorem cpu_idfromphys_unknown_witness:
  "\<exists>s'. cpu_add_all (\<lambda>s. Some (0x1000, s)) ci0 [2, 5] (cpu_boot st0) = Some s' \<and> cpu_idfromphys 9 s' = Some 0"
  using cpu_idfromphys_unknown [OF st0_ok(3), of "[2, 5]" 9 "\<lambda>s. Some (0x1000, s)" ci0]
  by (simp add: cpu_frame_def)

text \<open>
  C16. \<^verbatim>\<open>cpu_ktlb_update\<close> brings the CPU up to date: afterwards neither generation asks for a flush,
  and the hardware was told to flush everything, the normal entries, or nothing, according to the
  generation that was behind.
\<close>

theorem cpu_ktlb_update_syncs:
  assumes "cpu_curinfo s = Some ci"
  shows "\<exists>s' ci'. cpu_ktlb_update s = Some s' \<and> cpu_curinfo s' = Some ci' \<and>
    \<not> 0 < tlbgen_cmp (ktlbgen_global s') (tg_global (ci_ktlb ci')) \<and>
    \<not> 0 < tlbgen_cmp (ktlbgen_normal s') (tg_normal (ci_ktlb ci')) \<and>
    trace s' = trace s @
      (if 0 < tlbgen_cmp (ktlbgen_global s) (tg_global (ci_ktlb ci)) then [Tlbop HAL_TLBOP_FLUSHALL]
       else if 0 < tlbgen_cmp (ktlbgen_normal s) (tg_normal (ci_ktlb ci)) then [Tlbop HAL_TLBOP_FLUSH]
       else [])"
  using assms by (rule cpu_ktlb_update_ok)

theorem cpu_ktlb_update_syncs_witness:
  "\<exists>s' ci'. cpu_ktlb_update (ktlbgen_markdirty HAL_TLBOP_FLUSH st2) = Some s' \<and> cpu_curinfo s' = Some ci' \<and>
    \<not> 0 < tlbgen_cmp (ktlbgen_normal s') (tg_normal (ci_ktlb ci')) \<and>
    trace s' = [Tlbop HAL_TLBOP_FLUSH]"
proof -
  have "cpu_curinfo (ktlbgen_markdirty HAL_TLBOP_FLUSH st2) = Some (ci0\<lparr>phys_id := 2\<rparr>)"
    by (simp add: cpu_curinfo_def ktlbgen_markdirty_def st2_def st0_def cpu_boot_def)
  from cpu_ktlb_update_syncs [OF this] show ?thesis
    by (auto simp: ktlbgen_markdirty_def ktlbgen_global_def ktlbgen_normal_def st2_def st0_def cpu_boot_def
        ci0_def tlbgen_cmp_pos_iff)
qed

text \<open>
  C17. Once the CPUs run, \<^verbatim>\<open>cpu_kmapupdate_broadcast\<close> marks every active CPU for a kernel-map update
  and sends it one non-maskable interrupt, in the order of their numbers, and leaves everything else
  that is kept for a CPU alone.
\<close>

theorem cpu_kmapupdate_broadcast_reaches:
  assumes "cpu_table_ok s" "nux_status_okcpu s" "\<forall>i. bit (cpus_active s) i \<longrightarrow> i < unat (number_cpus s)"
  shows "trace (cpu_kmapupdate_broadcast s) =
      trace s @ map (\<lambda>i. Pcpu_nmi (phys_id (the (cpus s ! i)))) (cpuset (cpus_active s)) \<and>
    (\<forall>i. i < unat (number_cpus s) \<longrightarrow>
      nmiop (the (cpus (cpu_kmapupdate_broadcast s) ! i)) =
        nmiop (the (cpus s ! i)) OR (if bit (cpus_active s) i then NMIOP_KMAPUPDATE else 0) \<and>
      map_option (\<lambda>c. c\<lparr>nmiop := 0\<rparr>) (cpus (cpu_kmapupdate_broadcast s) ! i) =
        map_option (\<lambda>c. c\<lparr>nmiop := 0\<rparr>) (cpus s ! i))"
proof -
  have "cpu_kmapupdate_broadcast s = fold (\<lambda>i. cpu_kmapupdate (of_nat i)) (cpuset (cpus_active s)) s"
    using assms(2) foreach_loop_bits [of "cpus_active s" 0 cpu_kmapupdate s] bit_imp_le_length [of "cpus_active s"]
    by (simp add: cpu_kmapupdate_broadcast_def foreach_cpumask_def cpu_activemask_def atomic_cpumask_def cpuset_def)
  then show ?thesis using kmapupdate_fold [OF assms(1), of "cpuset (cpus_active s)"] assms(3) by simp
qed

theorem cpu_kmapupdate_broadcast_reaches_witness:
  "trace (cpu_kmapupdate_broadcast st2) = [Pcpu_nmi 2, Pcpu_nmi 5]"
proof -
  have ge: "\<not> bit (3::u64) j" if "2 \<le> j" for j using not_bit_ge [of "3::u64" 2 j] that by simp
  have "[0..<64] = [0, 1] @ [2..<(64::nat)]" by (simp add: upt_conv_Cons)
  moreover have "filter (bit (3::u64)) [2..<64] = []" using ge by (simp add: filter_empty_conv)
  moreover have "bit (3::u64) 0" "bit (3::u64) 1" by (simp_all add: bit_iff_odd)
  ultimately have set: "cpuset 3 = [0, 1]" by (simp only: cpuset_def filter_append) simp
  have st: "cpus_active st2 = 3" "unat (number_cpus st2) = 2" "trace st2 = []" "nux_status_okcpu st2"
    "phys_id (the (cpus st2 ! 0)) = 2" "phys_id (the (cpus st2 ! 1)) = 5"
    by (simp_all add: st2_def st0_def cpu_boot_def nux_status_okcpu_def nux_status_def ci0_def)
  have "\<forall>i. bit (3::u64) i \<longrightarrow> i < 2" using ge not_less by blast
  then show ?thesis using cpu_kmapupdate_broadcast_reaches [OF st2_ok] st set by simp
qed

text \<open>
  C12. Entering and leaving user mappings keeps their CPU masks exact: a CPU is in the mask of a
  mapping exactly while it runs with it.
\<close>

theorem cpu_umap_tracks:
  assumes "umap_tracked s" "curcpu s < unat (number_cpus s)" "u \<noteq> 0"
  shows "(\<exists>s'. cpu_umap_enter load u s = Some s' \<and> umap_tracked s' \<and> cpu_umap_current s' = Some u) \<and>
    (\<exists>v s'. cpu_umap_exit load s = Some (v, s') \<and> umap_tracked s' \<and> cpu_umap_current s = Some v \<and>
       cpu_umap_current s' = Some 0)"
  using cpu_umap_enter_ok [OF assms] cpu_umap_exit_ok [OF assms(1,2)] by blast

theorem cpu_umap_tracks_witness:
  "\<exists>s'. cpu_umap_enter (\<lambda>_. HAL_TLBOP_FLUSH) 0x2000 st2 = Some s' \<and> umap_tracked s' \<and> cpu_umap_current s' = Some 0x2000"
proof -
  have c: "\<And>c. c < 2 \<Longrightarrow> ci_umap (the (cpus st2 ! c)) = 0"
    by (auto simp: less_2_cases_iff st2_def st0_def cpu_boot_def ci0_def)
  have st: "unat (number_cpus st2) = 2" "curcpu st2 = 0" "\<And>u. um_cpumask (umaps st2 u) = 0"
    by (simp_all add: st2_def st0_def cpu_boot_def umap0_def)
  have "umap_tracked st2" using st2_ok c st by (auto simp: umap_tracked_def)
  from cpu_umap_tracks [OF this, of "0x2000" "\<lambda>_. HAL_TLBOP_FLUSH"] st show ?thesis by simp
qed

text \<open>
  C13. A user range check that succeeds covers the whole range and nothing wraps: with a user area
  that ends below \<open>2 ^ 64\<close>, \<^verbatim>\<open>uaddr_validrange\<close> holds exactly of the ranges inside it.
\<close>

theorem uaddr_validrange_exact:
  assumes "unat userbase + unat usersize < 2 ^ 64"
  shows "uaddr_validrange userbase usersize a sz \<longleftrightarrow>
    unat userbase \<le> unat a \<and> unat a + unat sz \<le> unat userbase + unat usersize"
  using assms by (rule uaddr_validrange_iff)

theorem uaddr_validrange_exact_witness:
  "\<not> uaddr_validrange 0x1000 0x8000 0x2000 (- 0x1000) \<and> uaddr_validrange 0x1000 0x8000 0x2000 0x7000"
  using uaddr_validrange_exact [of "0x1000" "0x8000" "0x2000" "- 0x1000"]
    uaddr_validrange_exact [of "0x1000" "0x8000" "0x2000" "0x7000"] by simp



end
