(* ===== verification/Frames.thy ===== *)
theory Frames
  imports Hal
begin

text \<open>
  The register frames the entry code saves and restores, of RISC-V (\<^verbatim>\<open>libhal_riscv/frame.c\<close>, \<^verbatim>\<open>struct
  hal_frame\<close> of its \<^verbatim>\<open>hal_config.h\<close>) and of AMD64 (\<^verbatim>\<open>libhal_x86/amd64/frame.c\<close>,
  \<^verbatim>\<open>hal_config_amd64.h\<close>). Both provide the frame functions of \<^verbatim>\<open>include/nux/hal.h\<close>, a record of
  functions here; \<open>hal_frames\<close> is the contract the machine-independent code relies on, and both
  architectures are shown to meet it. Functions that only print have no model.
\<close>

section \<open>The frame functions of a HAL\<close>

record 'f frame_ops =
  frame_init :: "'f \<Rightarrow> 'f"
  frame_isuser :: "'f \<Rightarrow> bool"
  frame_setip :: "u64 \<Rightarrow> 'f \<Rightarrow> 'f"
  frame_getip :: "'f \<Rightarrow> u64"
  frame_setsp :: "u64 \<Rightarrow> 'f \<Rightarrow> 'f"
  frame_getsp :: "'f \<Rightarrow> u64"
  frame_setgp :: "u64 \<Rightarrow> 'f \<Rightarrow> 'f"
  frame_getgp :: "'f \<Rightarrow> u64"
  frame_seta0 :: "u64 \<Rightarrow> 'f \<Rightarrow> 'f"
  frame_seta1 :: "u64 \<Rightarrow> 'f \<Rightarrow> 'f"
  frame_seta2 :: "u64 \<Rightarrow> 'f \<Rightarrow> 'f"
  frame_setret :: "u64 \<Rightarrow> 'f \<Rightarrow> 'f"
  frame_settls :: "u64 \<Rightarrow> 'f \<Rightarrow> 'f"

section \<open>RISC-V\<close>

record riscv_frame =
  rv_sstatus :: u64
  rv_sie :: u64
  rv_stval :: u64
  rv_scause :: u64
  rv_pc :: u64
  rv_t6 :: u64
  rv_t5 :: u64
  rv_t4 :: u64
  rv_t3 :: u64
  rv_s11 :: u64
  rv_s10 :: u64
  rv_s9 :: u64
  rv_s8 :: u64
  rv_s7 :: u64
  rv_s6 :: u64
  rv_s5 :: u64
  rv_s4 :: u64
  rv_s3 :: u64
  rv_s2 :: u64
  rv_a7 :: u64
  rv_a6 :: u64
  rv_a5 :: u64
  rv_a4 :: u64
  rv_a3 :: u64
  rv_a2 :: u64
  rv_a1 :: u64
  rv_a0 :: u64
  rv_s1 :: u64
  rv_fp :: u64
  rv_t2 :: u64
  rv_t1 :: u64
  rv_t0 :: u64
  rv_tp :: u64
  rv_gp :: u64
  rv_sp :: u64
  rv_ra :: u64

abbreviation (input) SSTATUS_SPIE :: u64 where "SSTATUS_SPIE \<equiv> 0x20"
abbreviation (input) SSTATUS_SPP :: u64 where "SSTATUS_SPP \<equiv> 0x100"
abbreviation (input) SIE_KERNEL :: u64 where "SIE_KERNEL \<equiv> 0x2"
abbreviation (input) SIE_USER :: u64 where "SIE_USER \<equiv> 0x222"

definition riscv_frame_zero :: riscv_frame where
  "riscv_frame_zero =
    \<lparr>rv_sstatus = 0, rv_sie = 0, rv_stval = 0, rv_scause = 0, rv_pc = 0, rv_t6 = 0, rv_t5 = 0, rv_t4
     = 0, rv_t3 = 0, rv_s11 = 0, rv_s10 = 0, rv_s9 = 0, rv_s8 = 0, rv_s7 = 0, rv_s6 = 0, rv_s5 = 0,
     rv_s4 = 0, rv_s3 = 0, rv_s2 = 0, rv_a7 = 0, rv_a6 = 0, rv_a5 = 0, rv_a4 = 0, rv_a3 = 0, rv_a2 =
     0, rv_a1 = 0, rv_a0 = 0, rv_s1 = 0, rv_fp = 0, rv_t2 = 0, rv_t1 = 0, rv_t0 = 0, rv_tp = 0,
     rv_gp = 0, rv_sp = 0, rv_ra = 0\<rparr>"

definition riscv_frame_init :: "riscv_frame \<Rightarrow> riscv_frame" where
  "riscv_frame_init f = riscv_frame_zero\<lparr>rv_sstatus := SSTATUS_SPIE, rv_sie := SIE_USER\<rparr>"

definition riscv_frame_isuser :: "riscv_frame \<Rightarrow> bool" where
  "riscv_frame_isuser f \<longleftrightarrow> rv_sstatus f AND SSTATUS_SPP = 0"

definition riscv_frame_setip :: "u64 \<Rightarrow> riscv_frame \<Rightarrow> riscv_frame" where
  "riscv_frame_setip v f = f\<lparr>rv_pc := v\<rparr>"

definition riscv_frame_setsp :: "u64 \<Rightarrow> riscv_frame \<Rightarrow> riscv_frame" where
  "riscv_frame_setsp v f = f\<lparr>rv_sp := v\<rparr>"

definition riscv_frame_setgp :: "u64 \<Rightarrow> riscv_frame \<Rightarrow> riscv_frame" where
  "riscv_frame_setgp v f = f\<lparr>rv_gp := v\<rparr>"

definition riscv_frame_getgp :: "riscv_frame \<Rightarrow> u64" where
  "riscv_frame_getgp f = rv_gp f"

definition riscv_frame_getip :: "riscv_frame \<Rightarrow> u64" where
  "riscv_frame_getip f = rv_pc f"

definition riscv_frame_getsp :: "riscv_frame \<Rightarrow> u64" where
  "riscv_frame_getsp f = rv_sp f"

definition riscv_frame_seta0 :: "u64 \<Rightarrow> riscv_frame \<Rightarrow> riscv_frame" where
  "riscv_frame_seta0 v f = f\<lparr>rv_a0 := v\<rparr>"

definition riscv_frame_seta1 :: "u64 \<Rightarrow> riscv_frame \<Rightarrow> riscv_frame" where
  "riscv_frame_seta1 v f = f\<lparr>rv_a1 := v\<rparr>"

definition riscv_frame_seta2 :: "u64 \<Rightarrow> riscv_frame \<Rightarrow> riscv_frame" where
  "riscv_frame_seta2 v f = f\<lparr>rv_a2 := v\<rparr>"

definition riscv_frame_setret :: "u64 \<Rightarrow> riscv_frame \<Rightarrow> riscv_frame" where
  "riscv_frame_setret v f = f\<lparr>rv_a0 := v\<rparr>"

definition riscv_frame_settls :: "u64 \<Rightarrow> riscv_frame \<Rightarrow> riscv_frame" where
  "riscv_frame_settls v f = f\<lparr>rv_tp := v\<rparr>"

definition riscv_frames :: "riscv_frame frame_ops" where
  "riscv_frames =
    \<lparr>frame_init = riscv_frame_init, frame_isuser = riscv_frame_isuser, frame_setip =
     riscv_frame_setip, frame_getip = riscv_frame_getip, frame_setsp = riscv_frame_setsp,
     frame_getsp = riscv_frame_getsp, frame_setgp = riscv_frame_setgp, frame_getgp =
     riscv_frame_getgp, frame_seta0 = riscv_frame_seta0, frame_seta1 = riscv_frame_seta1,
     frame_seta2 = riscv_frame_seta2, frame_setret = riscv_frame_setret, frame_settls =
     riscv_frame_settls\<rparr>"

section \<open>AMD64\<close>

text \<open>The frame and the interrupt frame it holds, in one record.\<close>

record amd64_frame =
  am_type :: u64
  am_fsbase :: u64
  am_gsbase :: u64
  am_cr2 :: u64
  am_rax :: u64
  am_rbx :: u64
  am_rcx :: u64
  am_rdx :: u64
  am_rbp :: u64
  am_rsi :: u64
  am_rdi :: u64
  am_r8 :: u64
  am_r9 :: u64
  am_r10 :: u64
  am_r11 :: u64
  am_r12 :: u64
  am_r13 :: u64
  am_r14 :: u64
  am_r15 :: u64
  am_vect :: u64
  am_err :: u64
  am_rip :: u64
  am_cs :: u64
  am_rflags :: u64
  am_rsp :: u64
  am_ss :: u64

abbreviation (input) AMD64_UCS :: u64 where "AMD64_UCS \<equiv> 0x2b"
abbreviation (input) AMD64_UDS :: u64 where "AMD64_UDS \<equiv> 0x23"
abbreviation (input) FRAMETYPE_INTR :: u64 where "FRAMETYPE_INTR \<equiv> 0"
abbreviation (input) FRAMETYPE_SYSC :: u64 where "FRAMETYPE_SYSC \<equiv> 1"

definition amd64_frame_zero :: amd64_frame where
  "amd64_frame_zero =
    \<lparr>am_type = 0, am_fsbase = 0, am_gsbase = 0, am_cr2 = 0, am_rax = 0, am_rbx = 0, am_rcx = 0,
     am_rdx = 0, am_rbp = 0, am_rsi = 0, am_rdi = 0, am_r8 = 0, am_r9 = 0, am_r10 = 0, am_r11 = 0,
     am_r12 = 0, am_r13 = 0, am_r14 = 0, am_r15 = 0, am_vect = 0, am_err = 0, am_rip = 0, am_cs = 0,
     am_rflags = 0, am_rsp = 0, am_ss = 0\<rparr>"

definition amd64_frame_init :: "amd64_frame \<Rightarrow> amd64_frame" where
  "amd64_frame_init f =
     amd64_frame_zero\<lparr>am_type := FRAMETYPE_INTR, am_cs := AMD64_UCS, am_rflags := 0x202, am_ss := AMD64_UDS\<rparr>"

definition amd64_frame_isuser :: "amd64_frame \<Rightarrow> bool" where
  "amd64_frame_isuser f \<longleftrightarrow> am_cs f = AMD64_UCS"

definition amd64_frame_setip :: "u64 \<Rightarrow> amd64_frame \<Rightarrow> amd64_frame" where
  "amd64_frame_setip v f = f\<lparr>am_rip := v\<rparr>"

definition amd64_frame_setsp :: "u64 \<Rightarrow> amd64_frame \<Rightarrow> amd64_frame" where
  "amd64_frame_setsp v f = f\<lparr>am_rsp := v\<rparr>"

definition amd64_frame_seta0 :: "u64 \<Rightarrow> amd64_frame \<Rightarrow> amd64_frame" where
  "amd64_frame_seta0 v f = f\<lparr>am_rdi := v\<rparr>"

definition amd64_frame_seta1 :: "u64 \<Rightarrow> amd64_frame \<Rightarrow> amd64_frame" where
  "amd64_frame_seta1 v f = f\<lparr>am_rsi := v\<rparr>"

definition amd64_frame_seta2 :: "u64 \<Rightarrow> amd64_frame \<Rightarrow> amd64_frame" where
  "amd64_frame_seta2 v f = f\<lparr>am_rdx := v\<rparr>"

definition amd64_frame_setret :: "u64 \<Rightarrow> amd64_frame \<Rightarrow> amd64_frame" where
  "amd64_frame_setret v f = f\<lparr>am_rax := v\<rparr>"

definition amd64_frame_settls :: "u64 \<Rightarrow> amd64_frame \<Rightarrow> amd64_frame" where
  "amd64_frame_settls v f = f\<lparr>am_fsbase := v\<rparr>"

definition amd64_frame_getip :: "amd64_frame \<Rightarrow> u64" where
  "amd64_frame_getip f = am_rip f"

definition amd64_frame_getsp :: "amd64_frame \<Rightarrow> u64" where
  "amd64_frame_getsp f = am_rsp f"

definition amd64_frame_getgp :: "amd64_frame \<Rightarrow> u64" where
  "amd64_frame_getgp f = 0"

definition amd64_frame_setgp :: "u64 \<Rightarrow> amd64_frame \<Rightarrow> amd64_frame" where
  "amd64_frame_setgp v f = f"

definition amd64_frames :: "amd64_frame frame_ops" where
  "amd64_frames =
    \<lparr>frame_init = amd64_frame_init, frame_isuser = amd64_frame_isuser, frame_setip =
     amd64_frame_setip, frame_getip = amd64_frame_getip, frame_setsp = amd64_frame_setsp,
     frame_getsp = amd64_frame_getsp, frame_setgp = amd64_frame_setgp, frame_getgp =
     amd64_frame_getgp, frame_seta0 = amd64_frame_seta0, frame_seta1 = amd64_frame_seta1,
     frame_seta2 = amd64_frame_seta2, frame_setret = amd64_frame_setret, frame_settls =
     amd64_frame_settls\<rparr>"

text \<open>\<^verbatim>\<open>(uint64_t) ((int64_t) addr << 16) >> 16\<close>: the cast binds before the right shift, which is
  therefore the unsigned one.\<close>

definition is_canonical :: "u64 \<Rightarrow> bool" where
  "is_canonical addr \<longleftrightarrow> drop_bit 16 (push_bit 16 addr) = addr"

section \<open>The contract\<close>

locale hal_frames =
  fixes F :: "'f frame_ops"
  assumes init_user: "frame_isuser F (frame_init F f)"
    and user_setip: "frame_isuser F (frame_setip F v f) = frame_isuser F f"
    and user_setsp: "frame_isuser F (frame_setsp F v f) = frame_isuser F f"
    and user_setgp: "frame_isuser F (frame_setgp F v f) = frame_isuser F f"
    and user_seta0: "frame_isuser F (frame_seta0 F v f) = frame_isuser F f"
    and user_seta1: "frame_isuser F (frame_seta1 F v f) = frame_isuser F f"
    and user_seta2: "frame_isuser F (frame_seta2 F v f) = frame_isuser F f"
    and user_setret: "frame_isuser F (frame_setret F v f) = frame_isuser F f"
    and user_settls: "frame_isuser F (frame_settls F v f) = frame_isuser F f"
    and ip_setip: "frame_getip F (frame_setip F v f) = v"
    and ip_setsp: "frame_getip F (frame_setsp F v f) = frame_getip F f"
    and ip_setgp: "frame_getip F (frame_setgp F v f) = frame_getip F f"
    and ip_setret: "frame_getip F (frame_setret F v f) = frame_getip F f"
    and sp_setsp: "frame_getsp F (frame_setsp F v f) = v"
    and sp_setip: "frame_getsp F (frame_setip F v f) = frame_getsp F f"
    and sp_setgp: "frame_getsp F (frame_setgp F v f) = frame_getsp F f"
    and sp_setret: "frame_getsp F (frame_setret F v f) = frame_getsp F f"
begin

lemmas user_laws = init_user user_setip user_setsp user_setgp user_seta0 user_seta1 user_seta2 user_setret user_settls

lemma fresh_frame:
  "frame_isuser F (frame_setgp F g (frame_setsp F sp (frame_setip F ip (frame_init F f))))"
  "frame_getip F (frame_setgp F g (frame_setsp F sp (frame_setip F ip (frame_init F f)))) = ip"
  "frame_getsp F (frame_setgp F g (frame_setsp F sp (frame_setip F ip (frame_init F f)))) = sp"
  by (simp_all add: user_laws ip_setgp ip_setsp ip_setip sp_setgp sp_setsp)

end

lemmas riscv_frame_defs = riscv_frames_def riscv_frame_init_def riscv_frame_isuser_def riscv_frame_setip_def riscv_frame_getip_def riscv_frame_setsp_def riscv_frame_getsp_def riscv_frame_setgp_def riscv_frame_getgp_def riscv_frame_seta0_def riscv_frame_seta1_def riscv_frame_seta2_def riscv_frame_setret_def riscv_frame_settls_def riscv_frame_zero_def

lemmas amd64_frame_defs = amd64_frames_def amd64_frame_init_def amd64_frame_isuser_def amd64_frame_setip_def amd64_frame_getip_def amd64_frame_setsp_def amd64_frame_getsp_def amd64_frame_setgp_def amd64_frame_getgp_def amd64_frame_seta0_def amd64_frame_seta1_def amd64_frame_seta2_def amd64_frame_setret_def amd64_frame_settls_def amd64_frame_zero_def

interpretation rvf: hal_frames riscv_frames
  by unfold_locales (simp_all add: riscv_frame_defs)

interpretation amf: hal_frames amd64_frames
  by unfold_locales (simp_all add: amd64_frame_defs)

end
