(* ===== verification/Uctxt.thy ===== *)
theory Uctxt
  imports Cpu Frames
begin

text \<open>
  User contexts (\<^verbatim>\<open>libnux/uctxt.c\<close>) and the ends of a kernel run (\<^verbatim>\<open>libnux/ec.c\<close>). A \<^verbatim>\<open>uctxt_t *\<close> is
  the address of a frame or one of two special values. A run of the kernel that does not return to its
  caller ends in one of the ways of \<open>out\<close>: in the idle loop, in the jump to the recovery point of a user
  copy, in a panic, in a halt or in \<^verbatim>\<open>abort\<close>. A failed \<^verbatim>\<open>assert\<close> is \<open>None\<close>, as elsewhere.
\<close>

section \<open>The code\<close>

abbreviation (input) UCTXT_IDLE :: u64 where "UCTXT_IDLE \<equiv> 0"
abbreviation (input) UCTXT_INVALID :: u64 where "UCTXT_INVALID \<equiv> - 1"

datatype perfctr = pnux_entry_syscall | pnux_entry_pagefault | pnux_entry_exception | pnux_entry_nmi
  | pnux_entry_timer | pnux_entry_irq | pnux_entry_ipi

record 'f uctxt_st = cpu_st +
  frames :: "u64 \<Rightarrow> 'f"
  perf :: "perfctr \<Rightarrow> u64"

datatype 's out = Ret u64 's | Idled 's | Usercopy 's | Panicked 's | Halted 's | Aborted 's

definition out_bind :: "'s out option \<Rightarrow> (u64 \<Rightarrow> 's \<Rightarrow> 's out option) \<Rightarrow> 's out option" where
  "out_bind r k = do { x \<leftarrow> r; case x of Ret v s \<Rightarrow> k v s | _ \<Rightarrow> Some x }"

definition nuxperf_inc :: "perfctr \<Rightarrow> ('f, 'a) uctxt_st_scheme \<Rightarrow> ('f, 'a) uctxt_st_scheme" where
  "nuxperf_inc c s = s\<lparr>perf := (perf s)(c := perf s c + 1)\<rparr>"

definition upd_frame :: "u64 \<Rightarrow> ('f \<Rightarrow> 'f) \<Rightarrow> ('f, 'a) uctxt_st_scheme \<Rightarrow> ('f, 'a) uctxt_st_scheme" where
  "upd_frame f g s = s\<lparr>frames := (frames s)(f := g (frames s f))\<rparr>"

subsection \<open>Ends of a run\<close>

definition nux_panic :: "string \<Rightarrow> u64 \<Rightarrow> 'a cpu_st_scheme \<Rightarrow> 'a cpu_st_scheme out option" where
  "nux_panic message f s =
     (let (fl, s) = nux_status_setfl NUXST_PANIC s
      in if fl AND NUXST_PANIC \<noteq> 0 then Some (Halted (hw Cpu_halt s))
         else do { s \<leftarrow> cpu_nmi_allbutself s;
                   cpu \<leftarrow> cpu_try_id s;
                   Some (Panicked (hw (Hal_panic cpu message f) s)) })"

abbreviation (input) EXIT_HALT :: int where "EXIT_HALT \<equiv> 0"
abbreviation (input) EXIT_IDLE :: int where "EXIT_IDLE \<equiv> 1"

definition exit_status :: "int \<Rightarrow> 'a cpu_st_scheme \<Rightarrow> 'a cpu_st_scheme out option" where
  "exit_status status s =
     (if status = EXIT_HALT then Some (Halted (hw Cpu_halt s))
      else if status = EXIT_IDLE then do { s \<leftarrow> cpu_idle s; Some (Idled s) }
      else Some (Aborted s))"

subsection \<open>User contexts\<close>

definition uctxt_get ::
  "'f frame_ops \<Rightarrow> u64 \<Rightarrow> ('f, 'a) uctxt_st_scheme \<Rightarrow> (u64 \<times> ('f, 'a) uctxt_st_scheme) option" where
  "uctxt_get F f s =
     do { wasidle \<leftarrow> cpu_wasidle s;
          if frame_isuser F (frames s f) then (if wasidle then None else Some (f, s))
          else if wasidle then do { s \<leftarrow> cpu_clridle s; Some (UCTXT_IDLE, s) }
          else Some (UCTXT_INVALID, s) }"

text \<open>\<^verbatim>\<open>fatal\<close> prints and calls \<^verbatim>\<open>exit (-1)\<close>.\<close>

definition uctxt_getuser ::
  "'f frame_ops \<Rightarrow> u64 \<Rightarrow> ('f, 'a) uctxt_st_scheme \<Rightarrow> ('f, 'a) uctxt_st_scheme out option" where
  "uctxt_getuser F f s =
     do { (uctxt, s) \<leftarrow> uctxt_get F f s;
          if uctxt = UCTXT_INVALID then exit_status (- 1) s else Some (Ret uctxt s) }"

definition uctxt_frame_pointer :: "u64 \<Rightarrow> u64" where
  "uctxt_frame_pointer uctxt = (if uctxt \<noteq> UCTXT_INVALID \<and> uctxt \<noteq> UCTXT_IDLE then uctxt else 0)"

definition uctxt_frame :: "u64 \<Rightarrow> 'a cpu_st_scheme \<Rightarrow> 'a cpu_st_scheme out option" where
  "uctxt_frame uctxt s =
     (if uctxt = UCTXT_INVALID then None
      else if uctxt = UCTXT_IDLE then do { s \<leftarrow> cpu_idle s; Some (Idled s) }
      else Some (Ret uctxt s))"

definition uctxt_upd ::
  "('f \<Rightarrow> 'f) \<Rightarrow> u64 \<Rightarrow> ('f, 'a) uctxt_st_scheme \<Rightarrow> ('f, 'a) uctxt_st_scheme option" where
  "uctxt_upd g uctxt s =
     (let f = uctxt_frame_pointer uctxt in if f = 0 then None else Some (upd_frame f g s))"

definition uctxt_init ::
  "'f frame_ops \<Rightarrow> u64 \<Rightarrow> vaddr_t \<Rightarrow> vaddr_t \<Rightarrow> vaddr_t \<Rightarrow> ('f, 'a) uctxt_st_scheme \<Rightarrow>
   ('f, 'a) uctxt_st_scheme option" where
  "uctxt_init F uctxt ip sp gp s =
     (let f = uctxt_frame_pointer uctxt
      in if f = 0 then None
         else do { let s = upd_frame f (frame_init F) s;
                   let s = upd_frame f (frame_setip F ip) s;
                   let s = upd_frame f (frame_setsp F sp) s;
                   let s = upd_frame f (frame_setgp F gp) s;
                   Some s })"

definition uctxt_getip :: "'f frame_ops \<Rightarrow> u64 \<Rightarrow> ('f, 'a) uctxt_st_scheme \<Rightarrow> vaddr_t option" where
  "uctxt_getip F uctxt s =
     (let f = uctxt_frame_pointer uctxt in if f = 0 then None else Some (frame_getip F (frames s f)))"

definition uctxt_setip ::
  "'f frame_ops \<Rightarrow> u64 \<Rightarrow> vaddr_t \<Rightarrow> ('f, 'a) uctxt_st_scheme \<Rightarrow> ('f, 'a) uctxt_st_scheme option" where
  "uctxt_setip F uctxt v s = uctxt_upd (frame_setip F v) uctxt s"

definition uctxt_getsp :: "'f frame_ops \<Rightarrow> u64 \<Rightarrow> ('f, 'a) uctxt_st_scheme \<Rightarrow> vaddr_t option" where
  "uctxt_getsp F uctxt s =
     (let f = uctxt_frame_pointer uctxt in if f = 0 then None else Some (frame_getsp F (frames s f)))"

definition uctxt_setsp ::
  "'f frame_ops \<Rightarrow> u64 \<Rightarrow> vaddr_t \<Rightarrow> ('f, 'a) uctxt_st_scheme \<Rightarrow> ('f, 'a) uctxt_st_scheme option" where
  "uctxt_setsp F uctxt v s = uctxt_upd (frame_setsp F v) uctxt s"

definition uctxt_getgp :: "'f frame_ops \<Rightarrow> u64 \<Rightarrow> ('f, 'a) uctxt_st_scheme \<Rightarrow> vaddr_t option" where
  "uctxt_getgp F uctxt s =
     (let f = uctxt_frame_pointer uctxt in if f = 0 then None else Some (frame_getgp F (frames s f)))"

definition uctxt_setgp ::
  "'f frame_ops \<Rightarrow> u64 \<Rightarrow> vaddr_t \<Rightarrow> ('f, 'a) uctxt_st_scheme \<Rightarrow> ('f, 'a) uctxt_st_scheme option" where
  "uctxt_setgp F uctxt v s = uctxt_upd (frame_setgp F v) uctxt s"

definition uctxt_setret ::
  "'f frame_ops \<Rightarrow> u64 \<Rightarrow> u64 \<Rightarrow> ('f, 'a) uctxt_st_scheme \<Rightarrow> ('f, 'a) uctxt_st_scheme option" where
  "uctxt_setret F uctxt v s = uctxt_upd (frame_setret F v) uctxt s"

definition uctxt_seta0 ::
  "'f frame_ops \<Rightarrow> u64 \<Rightarrow> u64 \<Rightarrow> ('f, 'a) uctxt_st_scheme \<Rightarrow> ('f, 'a) uctxt_st_scheme option" where
  "uctxt_seta0 F uctxt v s = uctxt_upd (frame_seta0 F v) uctxt s"

definition uctxt_seta1 ::
  "'f frame_ops \<Rightarrow> u64 \<Rightarrow> u64 \<Rightarrow> ('f, 'a) uctxt_st_scheme \<Rightarrow> ('f, 'a) uctxt_st_scheme option" where
  "uctxt_seta1 F uctxt v s = uctxt_upd (frame_seta1 F v) uctxt s"

definition uctxt_seta2 ::
  "'f frame_ops \<Rightarrow> u64 \<Rightarrow> u64 \<Rightarrow> ('f, 'a) uctxt_st_scheme \<Rightarrow> ('f, 'a) uctxt_st_scheme option" where
  "uctxt_seta2 F uctxt v s = uctxt_upd (frame_seta2 F v) uctxt s"

definition uctxt_settls ::
  "'f frame_ops \<Rightarrow> u64 \<Rightarrow> u64 \<Rightarrow> ('f, 'a) uctxt_st_scheme \<Rightarrow> ('f, 'a) uctxt_st_scheme option" where
  "uctxt_settls F uctxt v s = uctxt_upd (frame_settls F v) uctxt s"

text \<open>\<open>userentry\<close> is what \<^verbatim>\<open>hal_virtmem_userentry\<close> gives.\<close>

definition uctxt_bootstrap ::
  "'f frame_ops \<Rightarrow> vaddr_t \<Rightarrow> u64 \<Rightarrow> ('f, 'a) uctxt_st_scheme \<Rightarrow> (bool \<times> ('f, 'a) uctxt_st_scheme) option" where
  "uctxt_bootstrap F userentry uctxt s =
     (if userentry = 0 then Some (False, s)
      else do { s \<leftarrow> uctxt_init F uctxt userentry 0 0 s; Some (True, s) })"

end
