(* ===== verification/Entry.thy ===== *)
theory Entry
  imports Uctxt
begin

text \<open>
  Entries into the kernel (\<^verbatim>\<open>libnux/entry.c\<close>) and the emulation of non-maskable interrupts
  (\<^verbatim>\<open>libnux/nmiemul.c\<close>). The handlers that a kernel built on the library supplies (\<^verbatim>\<open>entry_sysc\<close>,
  \<^verbatim>\<open>entry_pf\<close>, ...) are the parameter \<open>K\<close>: functions of the context and the state, about which nothing is
  assumed; like any code of the kernel they may end the run instead of returning.
\<close>

section \<open>The code\<close>

record 's kern_ops =
  entry_sysc :: "u64 \<Rightarrow> u64 list \<Rightarrow> 's \<Rightarrow> 's out option"
  entry_pf :: "u64 \<Rightarrow> vaddr_t \<Rightarrow> u32 \<Rightarrow> 's \<Rightarrow> 's out option"
  entry_ex :: "u64 \<Rightarrow> u32 \<Rightarrow> 's \<Rightarrow> 's out option"
  entry_alarm :: "u64 \<Rightarrow> 's \<Rightarrow> 's out option"
  entry_irq :: "u64 \<Rightarrow> u32 \<Rightarrow> bool \<Rightarrow> 's \<Rightarrow> 's out option"
  entry_ipi :: "u64 \<Rightarrow> 's \<Rightarrow> 's out option"

definition hal_entry_syscall ::
  "'f frame_ops \<Rightarrow> ('f, 'a) uctxt_st_scheme kern_ops \<Rightarrow> u64 \<Rightarrow> u64 list \<Rightarrow>
   ('f, 'a) uctxt_st_scheme \<Rightarrow> ('f, 'a) uctxt_st_scheme out option" where
  "hal_entry_syscall F K f args s =
     do { let s = nuxperf_inc pnux_entry_syscall s;
          (uctxt, s) \<leftarrow> uctxt_get F f s;
          if uctxt = UCTXT_INVALID \<or> uctxt = UCTXT_IDLE
          then nux_panic ''Unexpected Kernel Exception -- Syscall(!)'' f s
          else out_bind (entry_sysc K uctxt args s) uctxt_frame }"

definition hal_entry_pf ::
  "'f frame_ops \<Rightarrow> ('f, 'a) uctxt_st_scheme kern_ops \<Rightarrow> vaddr_t \<Rightarrow> size_t \<Rightarrow> u64 \<Rightarrow> vaddr_t \<Rightarrow> u32 \<Rightarrow>
   ('f, 'a) uctxt_st_scheme \<Rightarrow> ('f, 'a) uctxt_st_scheme out option" where
  "hal_entry_pf F K userbase usersize f va info s =
     (let s = nuxperf_inc pnux_entry_pagefault s
      in if \<not> nux_status_okcpu s then nux_panic ''Early Kernel Page Fault'' f s
         else do { (uctxt, s) \<leftarrow> uctxt_get F f s;
                   if uctxt = UCTXT_INVALID
                   then do { (jumped, s) \<leftarrow> (if uaddr_valid userbase usersize va
                                            then cpu_useraccess_checkpf va info s else Some (False, s));
                             if jumped then Some (Usercopy s)
                             else nux_panic ''Unexpected Kernel Page Fault'' f s }
                   else if uctxt = UCTXT_IDLE then nux_panic ''Unexpected Kernel Page Fault'' f s
                   else out_bind (entry_pf K uctxt va info s) uctxt_frame })"

definition hal_entry_debug ::
  "u64 \<Rightarrow> u32 \<Rightarrow> ('f, 'a) uctxt_st_scheme \<Rightarrow> ('f, 'a) uctxt_st_scheme out option" where
  "hal_entry_debug f xcpt s = nux_panic ''Kernel Panic'' f s"

definition hal_entry_xcpt ::
  "'f frame_ops \<Rightarrow> ('f, 'a) uctxt_st_scheme kern_ops \<Rightarrow> u64 \<Rightarrow> u32 \<Rightarrow>
   ('f, 'a) uctxt_st_scheme \<Rightarrow> ('f, 'a) uctxt_st_scheme out option" where
  "hal_entry_xcpt F K f xcpt s =
     (let s = nuxperf_inc pnux_entry_exception s
      in if \<not> nux_status_okcpu s then nux_panic ''Early Kernel Exception'' f s
         else do { (uctxt, s) \<leftarrow> uctxt_get F f s;
                   if uctxt = UCTXT_INVALID \<or> uctxt = UCTXT_IDLE
                   then nux_panic ''Unexpected Kernel Exception'' f s
                   else out_bind (entry_ex K uctxt xcpt s) uctxt_frame })"

text \<open>\<open>Ret\<close> of a function that returns nothing carries the frame.\<close>

definition hal_entry_nmi ::
  "u64 \<Rightarrow> ('f, 'a) uctxt_st_scheme \<Rightarrow> ('f, 'a) uctxt_st_scheme out option" where
  "hal_entry_nmi f s =
     (let s = nuxperf_inc pnux_entry_nmi s
      in if nux_status s AND NUXST_PANIC \<noteq> 0 then Some (Halted (hw Cpu_halt s))
         else if \<not> nux_status_okcpu s then Some (Ret f s)
         else do { s \<leftarrow> cpu_nmiop s; Some (Ret f s) })"

definition hal_entry_timer ::
  "'f frame_ops \<Rightarrow> ('f, 'a) uctxt_st_scheme kern_ops \<Rightarrow> u64 \<Rightarrow>
   ('f, 'a) uctxt_st_scheme \<Rightarrow> ('f, 'a) uctxt_st_scheme out option" where
  "hal_entry_timer F K f s =
     (let s = nuxperf_inc pnux_entry_timer s
      in out_bind (uctxt_getuser F f s)
           (\<lambda>uctxt s. out_bind (entry_alarm K uctxt s)
             (\<lambda>uctxt s. uctxt_frame uctxt (hw Eoi_timer s))))"

definition hal_entry_irq ::
  "'f frame_ops \<Rightarrow> ('f, 'a) uctxt_st_scheme kern_ops \<Rightarrow> u64 \<Rightarrow> u32 \<Rightarrow> bool \<Rightarrow>
   ('f, 'a) uctxt_st_scheme \<Rightarrow> ('f, 'a) uctxt_st_scheme out option" where
  "hal_entry_irq F K f irq islevel s =
     out_bind (uctxt_getuser F f s)
       (\<lambda>uctxt s. out_bind (entry_irq K uctxt irq islevel (nuxperf_inc pnux_entry_irq s))
         (\<lambda>uctxt s. uctxt_frame uctxt (hw (Eoi_irq irq) s)))"

definition hal_entry_ipi ::
  "'f frame_ops \<Rightarrow> ('f, 'a) uctxt_st_scheme kern_ops \<Rightarrow> u64 \<Rightarrow>
   ('f, 'a) uctxt_st_scheme \<Rightarrow> ('f, 'a) uctxt_st_scheme out option" where
  "hal_entry_ipi F K f s =
     out_bind (uctxt_getuser F f s)
       (\<lambda>uctxt s. out_bind (entry_ipi K uctxt (nuxperf_inc pnux_entry_ipi s))
         (\<lambda>uctxt s. uctxt_frame uctxt (hw Eoi_ipi s)))"

section \<open>NMI emulation\<close>

abbreviation (input) PENDING_NMI :: u8 where "PENDING_NMI \<equiv> 1"
abbreviation (input) PENDING_IPI :: u8 where "PENDING_IPI \<equiv> 2"

record 'f nmi_st = "'f uctxt_st" +
  pending :: "u8 list"

definition nmiemul_nmi_pending :: "('f, 'a) nmi_st_scheme \<Rightarrow> bool option" where
  "nmiemul_nmi_pending s =
     do { cpu \<leftarrow> cpu_id_cur s;
          if HAL_MAXCPUS \<le> unat cpu then None
          else Some (pending s ! unat cpu AND PENDING_NMI \<noteq> 0) }"

definition nmiemul_nmi_clear :: "('f, 'a) nmi_st_scheme \<Rightarrow> ('f, 'a) nmi_st_scheme option" where
  "nmiemul_nmi_clear s =
     do { cpu \<leftarrow> cpu_id_cur s;
          if HAL_MAXCPUS \<le> unat cpu then None
          else Some (s\<lparr>pending := (pending s)[unat cpu := pending s ! unat cpu AND NOT PENDING_NMI]\<rparr>) }"

definition nmiemul_ipi_pending :: "('f, 'a) nmi_st_scheme \<Rightarrow> bool option" where
  "nmiemul_ipi_pending s =
     do { cpu \<leftarrow> cpu_id_cur s;
          if HAL_MAXCPUS \<le> unat cpu then None
          else Some (pending s ! unat cpu AND PENDING_IPI \<noteq> 0) }"

definition nmiemul_ipi_clear :: "('f, 'a) nmi_st_scheme \<Rightarrow> ('f, 'a) nmi_st_scheme option" where
  "nmiemul_ipi_clear s =
     do { cpu \<leftarrow> cpu_id_cur s;
          if HAL_MAXCPUS \<le> unat cpu then None
          else Some (s\<lparr>pending := (pending s)[unat cpu := pending s ! unat cpu AND NOT PENDING_IPI]\<rparr>) }"

definition nmiemul_nmi_set :: "u32 \<Rightarrow> ('f, 'a) nmi_st_scheme \<Rightarrow> ('f, 'a) nmi_st_scheme option" where
  "nmiemul_nmi_set cpu s =
     (if HAL_MAXCPUS \<le> unat cpu then None
      else Some (s\<lparr>pending := (pending s)[unat cpu := pending s ! unat cpu OR PENDING_NMI]\<rparr>))"

definition nmiemul_nmi_setall :: "('f, 'a) nmi_st_scheme \<Rightarrow> ('f, 'a) nmi_st_scheme" where
  "nmiemul_nmi_setall s =
     fold (\<lambda>i s. s\<lparr>pending := (pending s)[i := pending s ! i OR PENDING_NMI]\<rparr>) [0..<HAL_MAXCPUS] s"

definition nmiemul_ipi_set :: "u32 \<Rightarrow> ('f, 'a) nmi_st_scheme \<Rightarrow> ('f, 'a) nmi_st_scheme option" where
  "nmiemul_ipi_set cpu s =
     (if HAL_MAXCPUS \<le> unat cpu then None
      else Some (s\<lparr>pending := (pending s)[unat cpu := pending s ! unat cpu OR PENDING_IPI]\<rparr>))"

definition nmiemul_ipi_setall :: "('f, 'a) nmi_st_scheme \<Rightarrow> ('f, 'a) nmi_st_scheme" where
  "nmiemul_ipi_setall s =
     fold (\<lambda>i s. s\<lparr>pending := (pending s)[i := pending s ! i OR PENDING_IPI]\<rparr>) [0..<HAL_MAXCPUS] s"

definition nmiemul_entry ::
  "u64 \<Rightarrow> ('f, 'a) nmi_st_scheme \<Rightarrow> ('f, 'a) nmi_st_scheme out option" where
  "nmiemul_entry f s =
     do { p \<leftarrow> nmiemul_nmi_pending s;
          if p then do { s \<leftarrow> nmiemul_nmi_clear s;
                         out_bind (hal_entry_nmi f s) (\<lambda>_ s. Some (Ret f s)) }
          else Some (Ret f s) }"

section \<open>Vocabulary of the proofs\<close>

definition kern0 :: "'s kern_ops" where
  "kern0 = \<lparr>entry_sysc = (\<lambda>u _ s. Some (Ret u s)), entry_pf = (\<lambda>u _ _ s. Some (Ret u s)),
     entry_ex = (\<lambda>u _ s. Some (Ret u s)), entry_alarm = (\<lambda>u s. Some (Ret u s)),
     entry_irq = (\<lambda>u _ _ s. Some (Ret u s)), entry_ipi = (\<lambda>u s. Some (Ret u s))\<rparr>"

definition ent0 :: "riscv_frame \<Rightarrow> riscv_frame nmi_st" where
  "ent0 fr = \<lparr>ktlb_cur = ktlb_cur st2, nux_stflags = nux_stflags st2, nux_apbooting = 0, number_cpus = 2,
     cpu_phys_to_id = cpu_phys_to_id st2, cpus = cpus st2, tlbmap = 0, cpus_active = 3, curcpu = 1,
     umaps = umaps st2, trace = [], frames = (\<lambda>_. fr), perf = (\<lambda>_. 0), pending = replicate 64 0\<rparr>"

lemma nuxperf_inc_simps [simp]:
  "frames (nuxperf_inc c s) = frames s" "cpus (nuxperf_inc c s) = cpus s" "curcpu (nuxperf_inc c s) = curcpu s"
  "cpu_curinfo (nuxperf_inc c s) = cpu_curinfo s" "nux_status_okcpu (nuxperf_inc c s) = nux_status_okcpu s"
  "nux_status (nuxperf_inc c s) = nux_status s" "cpu_wasidle (nuxperf_inc c s) = cpu_wasidle s"
  by (simp_all add: nuxperf_inc_def cpu_curinfo_def nux_status_okcpu_def nux_status_def cpu_wasidle_def)

lemma nux_panic_no_return: "nux_panic m f s \<noteq> Some (Ret v t)"
  by (simp add: nux_panic_def split: bind_splits prod.splits)

lemma out_bind_Ret [simp]: "out_bind (Some (Ret v s)) k = k v s"
  by (simp add: out_bind_def)

lemma uctxt_get_kernel:
  assumes "uctxt_get F f s = Some (u, t)" "\<not> frame_isuser F (frames s f)"
  shows "u = UCTXT_INVALID \<or> u = UCTXT_IDLE"
  using assms by (auto simp: uctxt_get_def split: bind_splits if_splits)

lemma uctxt_get_user:
  assumes "frame_isuser F (frames s f)" "cpu_wasidle s = Some False"
  shows "uctxt_get F f s = Some (f, s)"
  using assms by (simp add: uctxt_get_def)

lemma uctxt_get_idle:
  assumes "\<not> frame_isuser F (frames s f)" "cpu_wasidle s = Some True"
  shows "uctxt_get F f s = Some (UCTXT_IDLE, upd_cur (\<lambda>c. c\<lparr>idle := False\<rparr>) s)"
  using assms by (auto simp: uctxt_get_def cpu_wasidle_def cpu_clridle_def split: bind_splits)

text \<open>
  C15. A trap taken in the kernel never reaches the handlers of the kernel: whatever handlers are
  installed, a system call, an exception or a page fault on a frame that is not a user frame behaves the
  same, and it never resumes a frame: it panics or, for a fault on a user address during a copy from or
  to user memory, jumps to the recovery point of the copy.
\<close>

theorem kernel_trap_guarded:
  assumes "\<not> frame_isuser F (frames s f)"
  shows "hal_entry_syscall F K f args s = hal_entry_syscall F K' f args s \<and>
    hal_entry_xcpt F K f xcpt s = hal_entry_xcpt F K' f xcpt s \<and>
    hal_entry_pf F K ub us f va info s = hal_entry_pf F K' ub us f va info s \<and>
    hal_entry_syscall F K f args s \<noteq> Some (Ret v t) \<and>
    hal_entry_xcpt F K f xcpt s \<noteq> Some (Ret v t) \<and>
    hal_entry_pf F K ub us f va info s \<noteq> Some (Ret v t)"
proof -
  have k: "\<not> frame_isuser F (frames (nuxperf_inc c s) f)" for c using assms by simp
  note D = hal_entry_syscall_def hal_entry_xcpt_def hal_entry_pf_def Let_def
  have "hal_entry_syscall F K f args s = hal_entry_syscall F K' f args s"
    unfolding D by (auto dest!: uctxt_get_kernel [OF _ k] intro!: Option.bind_cong)
  moreover have "hal_entry_xcpt F K f xcpt s = hal_entry_xcpt F K' f xcpt s"
    unfolding D by (auto dest!: uctxt_get_kernel [OF _ k] intro!: Option.bind_cong)
  moreover have "hal_entry_pf F K ub us f va info s = hal_entry_pf F K' ub us f va info s"
    unfolding D by (auto dest!: uctxt_get_kernel [OF _ k] intro!: Option.bind_cong)
  moreover have "hal_entry_syscall F K f args s \<noteq> Some (Ret v t)"
    unfolding D by (auto simp: nux_panic_no_return dest!: uctxt_get_kernel [OF _ k] split: bind_splits if_splits)
  moreover have "hal_entry_xcpt F K f xcpt s \<noteq> Some (Ret v t)"
    unfolding D by (auto simp: nux_panic_no_return dest!: uctxt_get_kernel [OF _ k] split: bind_splits if_splits)
  moreover have "hal_entry_pf F K ub us f va info s \<noteq> Some (Ret v t)"
    unfolding D by (auto simp: nux_panic_no_return dest!: uctxt_get_kernel [OF _ k] split: bind_splits if_splits)
  ultimately show ?thesis by blast
qed

text \<open>A page fault on user address 0x1000, at kernel level.\<close>

theorem kernel_trap_guarded_witness:
  "hal_entry_pf riscv_frames kern0 0 0x40000000000 0x8000 0x1000 0 (ent0 (riscv_frame_zero\<lparr>rv_sstatus := SSTATUS_SPP\<rparr>))
     \<noteq> Some (Ret 0x8000 (ent0 riscv_frame_zero))"
  using kernel_trap_guarded [of riscv_frames "ent0 (riscv_frame_zero\<lparr>rv_sstatus := SSTATUS_SPP\<rparr>)" "0x8000" kern0 "[]" kern0 0 0
      "0x40000000000" "0x1000" 0 "0x8000" "ent0 riscv_frame_zero"]
  by (simp add: ent0_def riscv_frame_defs)

lemma u8_pending_bits:
  "(w OR PENDING_NMI) AND PENDING_NMI \<noteq> 0" "(w OR PENDING_NMI) AND - 2 = w AND - 2"
  "(w AND - 2) AND PENDING_NMI = 0" "(w AND - 2) AND PENDING_IPI = w AND PENDING_IPI"
  for w :: u8
proof -
  have n: "- 2 = NOT (1::u8)" by simp
  have "(w OR PENDING_NMI) AND PENDING_NMI = 1" by (rule bit_word_eqI) (auto simp: bit_simps)
  then show "(w OR PENDING_NMI) AND PENDING_NMI \<noteq> 0" by simp
  show "(w OR PENDING_NMI) AND - 2 = w AND - 2"
    unfolding n by (rule bit_word_eqI) (auto simp: bit_and_iff bit_or_iff bit_not_iff bit_1_iff)
  show "(w AND - 2) AND PENDING_NMI = 0"
    unfolding n by (rule bit_word_eqI) (auto simp: bit_and_iff bit_or_iff bit_not_iff bit_1_iff)
  have "(NOT 1 AND PENDING_IPI) = (PENDING_IPI::u8)" by simp
  then show "(w AND - 2) AND PENDING_IPI = w AND PENDING_IPI"
    unfolding n by (simp only: and.assoc)
qed

lemma cpu_id_cur_pending [simp]: "cpu_id_cur (s\<lparr>pending := p\<rparr>) = cpu_id_cur s"
  by (simp add: cpu_id_cur_def cpu_curinfo_def)



end
