(* ===== verification/Pte_Bits.thy ===== *)
theory Pte_Bits
  imports Hal
begin

text \<open>
  Bits of page-table entries: lemmas that turn masks with one bit into questions about single bits, shared by
  the entry formats of the architectures.
\<close>

lemma and_numeral_bit:
  "w AND 1 = 0 \<longleftrightarrow> \<not> bit w 0" "w AND 2 = 0 \<longleftrightarrow> \<not> bit w 1" "w AND 4 = 0 \<longleftrightarrow> \<not> bit w 2"
  "w AND 8 = 0 \<longleftrightarrow> \<not> bit w 3" "w AND 16 = 0 \<longleftrightarrow> \<not> bit w 4" "w AND 32 = 0 \<longleftrightarrow> \<not> bit w 5"
  "w AND 64 = 0 \<longleftrightarrow> \<not> bit w 6" "w AND 128 = 0 \<longleftrightarrow> \<not> bit w 7" "w AND 256 = 0 \<longleftrightarrow> \<not> bit w 8"
  "w AND 512 = 0 \<longleftrightarrow> \<not> bit w 9" "w AND 1024 = 0 \<longleftrightarrow> \<not> bit w 10" "w AND 2048 = 0 \<longleftrightarrow> \<not> bit w 11"
  for w :: "'a::len word"
  using and_exp_eq_0_iff_not_bit [of w 0] and_exp_eq_0_iff_not_bit [of w 1] and_exp_eq_0_iff_not_bit [of w 2]
    and_exp_eq_0_iff_not_bit [of w 3] and_exp_eq_0_iff_not_bit [of w 4] and_exp_eq_0_iff_not_bit [of w 5]
    and_exp_eq_0_iff_not_bit [of w 6] and_exp_eq_0_iff_not_bit [of w 7] and_exp_eq_0_iff_not_bit [of w 8]
    and_exp_eq_0_iff_not_bit [of w 9] and_exp_eq_0_iff_not_bit [of w 10] and_exp_eq_0_iff_not_bit [of w 11]
  by simp_all

lemma and_top_bit: "w AND 0x8000000000000000 = 0 \<longleftrightarrow> \<not> bit w 63" for w :: u64
  using and_exp_eq_0_iff_not_bit [of w 63] by simp

declare bit_numeral_word_iff [simp del]

lemma bit_2p: "k < LENGTH('a) \<Longrightarrow> 2 ^ k = (n::'a::len word) \<Longrightarrow> bit n j \<longleftrightarrow> j = k"
  by (auto simp: bit_exp_iff)

lemma bit_numeral_pow:
  "bit (1::u64) j \<longleftrightarrow> j = 0" "bit (2::u64) j \<longleftrightarrow> j = 1" "bit (4::u64) j \<longleftrightarrow> j = 2" "bit (8::u64) j \<longleftrightarrow> j = 3"
  "bit (16::u64) j \<longleftrightarrow> j = 4" "bit (32::u64) j \<longleftrightarrow> j = 5" "bit (64::u64) j \<longleftrightarrow> j = 6" "bit (128::u64) j \<longleftrightarrow> j = 7"
  "bit (256::u64) j \<longleftrightarrow> j = 8" "bit (512::u64) j \<longleftrightarrow> j = 9" "bit (1024::u64) j \<longleftrightarrow> j = 10" "bit (2048::u64) j \<longleftrightarrow> j = 11"
  "bit (0x8000000000000000::u64) j \<longleftrightarrow> j = 63"
  by (rule bit_2p; simp)+

lemma bit_numeral_pow32:
  "bit (1::u32) j \<longleftrightarrow> j = 0" "bit (2::u32) j \<longleftrightarrow> j = 1" "bit (4::u32) j \<longleftrightarrow> j = 2" "bit (8::u32) j \<longleftrightarrow> j = 3"
  "bit (16::u32) j \<longleftrightarrow> j = 4" "bit (32::u32) j \<longleftrightarrow> j = 5" "bit (64::u32) j \<longleftrightarrow> j = 6" "bit (128::u32) j \<longleftrightarrow> j = 7"
  "bit (256::u32) j \<longleftrightarrow> j = 8" "bit (512::u32) j \<longleftrightarrow> j = 9"
  by (rule bit_2p; simp)+

lemma bit_cond_or: "bit (if c then x OR y else x) j \<longleftrightarrow> bit x j \<or> c \<and> bit (y::'a::len word) j"
  by (simp add: bit_or_iff)

end
