(* ===== verification/X86_Pte.thy ===== *)
theory X86_Pte
  imports Pte_Bits
begin

text \<open>
  The leaf page-table entries of the x86 HAL (\<^verbatim>\<open>libhal_x86/pmap.c\<close>, \<^verbatim>\<open>libhal_x86/internal.h\<close>): how a
  frame number and the machine-independent permissions are packed into an entry and read back, and
  which TLB operation a change of an entry needs. \<open>pte_nx\<close> is the variable of that name: the no-execute
  bit where the CPU has it, 0 otherwise.
\<close>

section \<open>The code\<close>

abbreviation (input) PTE_P :: u64 where "PTE_P \<equiv> 1"
abbreviation (input) PTE_W :: u64 where "PTE_W \<equiv> 2"
abbreviation (input) PTE_U :: u64 where "PTE_U \<equiv> 4"
abbreviation (input) PTE_A :: u64 where "PTE_A \<equiv> 0x20"
abbreviation (input) PTE_D :: u64 where "PTE_D \<equiv> 0x40"
abbreviation (input) PTE_PS :: u64 where "PTE_PS \<equiv> 0x80"
abbreviation (input) PTE_G :: u64 where "PTE_G \<equiv> 0x100"
abbreviation (input) PTE_AVAIL0 :: u64 where "PTE_AVAIL0 \<equiv> 0x200"
abbreviation (input) PTE_AVAIL1 :: u64 where "PTE_AVAIL1 \<equiv> 0x400"
abbreviation (input) PTE_AVAIL2 :: u64 where "PTE_AVAIL2 \<equiv> 0x800"
abbreviation (input) PTE_NX :: u64 where "PTE_NX \<equiv> 0x8000000000000000"

definition l1epfn :: "u64 \<Rightarrow> pfn_t" where
  "l1epfn l1e = drop_bit PAGE_SHIFT (l1e AND 0x7ffffffffffff000)"

definition l1eflags :: "u64 \<Rightarrow> u64" where
  "l1eflags l1e = l1e AND 0x8000000000000fff"

definition x86_l1e_box :: "u64 \<Rightarrow> u64 \<Rightarrow> u32 \<Rightarrow> u64" where
  "x86_l1e_box pte_nx pfn prot =
     (let l1e = push_bit PAGE_SHIFT pfn;
          l1e = (if prot AND HAL_PTE_P \<noteq> 0 then l1e OR PTE_P else l1e);
          l1e = (if prot AND HAL_PTE_W \<noteq> 0 then l1e OR PTE_W else l1e);
          l1e = (if prot AND HAL_PTE_X = 0 \<and> prot AND HAL_PTE_P \<noteq> 0 then l1e OR pte_nx else l1e);
          l1e = (if prot AND HAL_PTE_U \<noteq> 0 then l1e OR PTE_U else l1e);
          l1e = (if prot AND HAL_PTE_GLOBAL \<noteq> 0 then l1e OR PTE_G else l1e);
          l1e = (if prot AND HAL_PTE_A \<noteq> 0 then l1e OR PTE_A else l1e);
          l1e = (if prot AND HAL_PTE_D \<noteq> 0 then l1e OR PTE_D else l1e);
          l1e = (if prot AND HAL_PTE_AVL0 \<noteq> 0 then l1e OR PTE_AVAIL0 else l1e);
          l1e = (if prot AND HAL_PTE_AVL1 \<noteq> 0 then l1e OR PTE_AVAIL1 else l1e);
          l1e = (if prot AND HAL_PTE_AVL2 \<noteq> 0 then l1e OR PTE_AVAIL2 else l1e)
      in l1e)"

definition x86_l1e_unbox :: "u64 \<Rightarrow> u64 \<times> u32" where
  "x86_l1e_unbox l1e =
     (let prot = 0;
          prot = (if l1e AND PTE_P \<noteq> 0 then prot OR HAL_PTE_P else prot);
          prot = (if l1e AND PTE_W \<noteq> 0 then prot OR HAL_PTE_W else prot);
          prot = (if l1e AND PTE_NX = 0 \<and> l1e AND PTE_P \<noteq> 0 then prot OR HAL_PTE_X else prot);
          prot = (if l1e AND PTE_U \<noteq> 0 then prot OR HAL_PTE_U else prot);
          prot = (if l1e AND PTE_G \<noteq> 0 then prot OR HAL_PTE_GLOBAL else prot);
          prot = (if l1e AND PTE_A \<noteq> 0 then prot OR HAL_PTE_A else prot);
          prot = (if l1e AND PTE_D \<noteq> 0 then prot OR HAL_PTE_D else prot);
          prot = (if l1e AND PTE_AVAIL0 \<noteq> 0 then prot OR HAL_PTE_AVL0 else prot);
          prot = (if l1e AND PTE_AVAIL1 \<noteq> 0 then prot OR HAL_PTE_AVL1 else prot);
          prot = (if l1e AND PTE_AVAIL2 \<noteq> 0 then prot OR HAL_PTE_AVL2 else prot)
      in (l1epfn l1e, prot))"

definition restricts_permissions :: "u64 \<Rightarrow> u64 \<Rightarrow> bool" where
  "restricts_permissions old new = True"

definition x86_l1e_tlbop :: "u64 \<Rightarrow> u64 \<Rightarrow> hal_tlbop_t" where
  "x86_l1e_tlbop old new =
     (if l1eflags old AND PTE_P = 0 then HAL_TLBOP_NONE
      else if l1epfn old \<noteq> l1epfn new \<or> restricts_permissions old new
      then (if l1eflags old AND PTE_G \<noteq> 0 \<or> l1eflags new AND PTE_G \<noteq> 0
            then HAL_TLBOP_FLUSHALL else HAL_TLBOP_FLUSH)
      else HAL_TLBOP_NONE)"

section \<open>Bits of an entry\<close>

lemma bit_x86_box:
  "bit (x86_l1e_box nx pfn prot) j \<longleftrightarrow>
     12 \<le> j \<and> j < 64 \<and> bit pfn (j - 12) \<or> bit nx j \<and> \<not> bit prot 2 \<and> bit prot 0 \<or>
     j = 0 \<and> bit prot 0 \<or> j = 1 \<and> bit prot 1 \<or> j = 2 \<and> bit prot 3 \<or> j = 8 \<and> bit prot 4 \<or>
     j = 5 \<and> bit prot 5 \<or> j = 6 \<and> bit prot 6 \<or> j = 9 \<and> bit prot 7 \<or> j = 10 \<and> bit prot 8 \<or> j = 11 \<and> bit prot 9"
  unfolding x86_l1e_box_def Let_def bit_cond_or and_numeral_bit bit_numeral_pow bit_push_bit_iff by auto

lemma bit_x86_unbox:
  "bit (snd (x86_l1e_unbox e)) j \<longleftrightarrow>
     j = 0 \<and> bit e 0 \<or> j = 1 \<and> bit e 1 \<or> j = 2 \<and> \<not> bit e 63 \<and> bit e 0 \<or> j = 3 \<and> bit e 2 \<or> j = 4 \<and> bit e 8 \<or>
     j = 5 \<and> bit e 5 \<or> j = 6 \<and> bit e 6 \<or> j = 7 \<and> bit e 9 \<or> j = 8 \<and> bit e 10 \<or> j = 9 \<and> bit e 11"
  unfolding x86_l1e_unbox_def Let_def bit_cond_or and_numeral_bit and_top_bit bit_numeral_pow32 snd_conv
  by auto

lemma bit_pfn_mask: "bit (0x7ffffffffffff000::u64) j \<longleftrightarrow> 12 \<le> j \<and> j < 63"
proof -
  have "(0x7ffffffffffff000::u64) = push_bit 12 (mask 51)" by (simp add: mask_numeral)
  then show ?thesis by (simp only: bit_push_bit_iff bit_mask_iff) auto
qed

lemma bit_l1epfn: "bit (l1epfn e) j \<longleftrightarrow> j < 51 \<and> bit e (12 + j)"
  unfolding l1epfn_def bit_drop_bit_eq comp_def bit_and_iff bit_pfn_mask by auto

lemma x86_box_pfn:
  assumes "unat pfn < 2 ^ 51" "nx = 0 \<or> nx = PTE_NX"
  shows "fst (x86_l1e_unbox (x86_l1e_box nx pfn prot)) = pfn"
proof (rule bit_word_eqI)
  fix j assume "j < LENGTH(64)"
  then have j: "j < 64" by simp
  have nx: "bit nx i \<Longrightarrow> i = 63" for i using assms(2) by (auto simp: bit_numeral_pow)
  have "bit (fst (x86_l1e_unbox (x86_l1e_box nx pfn prot))) j \<longleftrightarrow> j < 51 \<and> bit pfn j"
    using j nx [of "12 + j"] by (auto simp: x86_l1e_unbox_def Let_def bit_l1epfn bit_x86_box)
  then show "bit (fst (x86_l1e_unbox (x86_l1e_box nx pfn prot))) j = bit pfn j"
    using not_bit_ge [OF assms(1), of j] by auto
qed

lemma x86_box_prot:
  assumes "unat pfn < 2 ^ 51" "nx = 0 \<or> nx = PTE_NX" "unat prot < 2 ^ 10"
  shows "snd (x86_l1e_unbox (x86_l1e_box nx pfn prot)) =
    (if prot AND HAL_PTE_P = 0 then prot AND NOT HAL_PTE_X
     else if nx = 0 then prot OR HAL_PTE_X else prot)"
proof (rule bit_word_eqI)
  fix j assume "j < LENGTH(32)"
  have p63: "\<not> bit pfn 51" using not_bit_ge [OF assms(1), of 51] by simp
  have hi: "j = 0 \<or> j = 1 \<or> j = 2 \<or> j = 3 \<or> j = 4 \<or> j = 5 \<or> j = 6 \<or> j = 7 \<or> j = 8 \<or> j = 9"
    if "bit prot j"
  proof -
    have "j < 10" using not_bit_ge [OF assms(3), of j] that not_less by blast
    then show ?thesis by (auto simp: less_Suc_eq eval_nat_numeral)
  qed
  let ?e = "x86_l1e_box nx pfn prot"
  have nx: "\<not> bit nx i" if "i \<noteq> 63" for i using assms(2) that by (auto simp: bit_numeral_pow)
  have bits: "bit ?e 0 = bit prot 0" "bit ?e 1 = bit prot 1" "bit ?e 2 = bit prot 3" "bit ?e 8 = bit prot 4"
    "bit ?e 5 = bit prot 5" "bit ?e 6 = bit prot 6" "bit ?e 9 = bit prot 7" "bit ?e 10 = bit prot 8"
    "bit ?e 11 = bit prot 9" "bit ?e 63 = (nx \<noteq> 0 \<and> \<not> bit prot 2 \<and> bit prot 0)"
    using assms(2) p63 nx by (auto simp: bit_x86_box bit_numeral_pow)
  have unb: "bit (snd (x86_l1e_unbox ?e)) j \<longleftrightarrow>
     (if j = 2 then bit prot 0 \<and> (nx = 0 \<or> bit prot 2) else bit prot j)"
    unfolding bit_x86_unbox bits using hi by auto
  have n4: "bit (prot AND NOT HAL_PTE_X) j \<longleftrightarrow> bit prot j \<and> j \<noteq> 2"
    unfolding bit_and_iff bit_not_iff bit_numeral_pow32 using bit_imp_le_length [of prot j] by auto
  have o4: "bit (prot OR HAL_PTE_X) j \<longleftrightarrow> bit prot j \<or> j = 2"
    unfolding bit_or_iff bit_numeral_pow32 ..
  show "bit (snd (x86_l1e_unbox ?e)) j =
      bit (if prot AND HAL_PTE_P = 0 then prot AND NOT HAL_PTE_X else if nx = 0 then prot OR HAL_PTE_X else prot) j"
    unfolding unb and_numeral_bit
    using \<open>j < LENGTH(32)\<close> n4 o4 by (cases "bit prot 0"; cases "nx = 0"; cases "j = 2") simp_all
qed

lemma bit_flags_mask: "bit (0x8000000000000fff::u64) j \<longleftrightarrow> j < 12 \<or> j = 63"
proof -
  have "(0x8000000000000fff::u64) = mask 12 OR push_bit 63 1" by (simp add: mask_numeral)
  then show ?thesis by (simp only: bit_or_iff bit_push_bit_iff bit_mask_iff bit_1_iff) auto
qed

lemma bit_l1eflags: "bit (l1eflags e) j \<longleftrightarrow> (j < 12 \<or> j = 63) \<and> bit e j"
  unfolding l1eflags_def bit_and_iff bit_flags_mask by auto

section \<open>Properties\<close>

text \<open>
  C11. Reading back an entry written by \<^verbatim>\<open>hal_l1e_box\<close> gives the frame and the permissions that were
  asked for, whenever the frame fits the entry and the permissions are the ten defined bits. The two
  exceptions are those of the hardware: a non-present entry does not keep the execute permission, and a
  present one is always executable on a CPU without the no-execute bit.
\<close>

theorem x86_l1e_roundtrip:
  assumes "unat pfn < 2 ^ 51" "nx = 0 \<or> nx = PTE_NX" "unat prot < 2 ^ 10"
  shows "x86_l1e_unbox (x86_l1e_box nx pfn prot) =
    (pfn, if prot AND HAL_PTE_P = 0 then prot AND NOT HAL_PTE_X
          else if nx = 0 then prot OR HAL_PTE_X else prot)"
  using x86_box_pfn [OF assms(1,2), of prot] x86_box_prot [OF assms] by (simp only: prod_eq_iff fst_conv snd_conv)

theorem x86_l1e_roundtrip_witness:
  "x86_l1e_unbox (x86_l1e_box PTE_NX 0x12345 (HAL_PTE_P OR HAL_PTE_W)) = (0x12345, 3)"
  using x86_l1e_roundtrip [of "0x12345" PTE_NX 3] by simp


end
