(* ===== verification/Kmap.thy ===== *)
theory Kmap
  imports Cpu
begin

text \<open>
  Kernel mappings (\<^verbatim>\<open>libnux/kmap.c\<close>), over the page-table primitives \<open>H\<close> of a HAL and the frame allocator in
  \<open>M\<close>. The loops over a range advance by whole pages and compare addresses, so that a range that ends in the
  last page of the address space makes them run for ever: they are partial functions.
\<close>

section \<open>The code\<close>

definition kmap_map_prot :: "'a cpu_st_scheme hal \<Rightarrow> vaddr_t \<Rightarrow> pfn_t \<Rightarrow> u32 \<Rightarrow> bool \<Rightarrow> 'a cpu_st_scheme \<Rightarrow> (pfn_t \<times> 'a cpu_st_scheme) option" where
  "kmap_map_prot H va pfn prot alloc s =
     do { let l1e = hal_l1e_box H pfn prot;
          ((b, l1p), s) \<leftarrow> hal_kmap_getl1p H va alloc s;
          if \<not> b then None
          else do { (oldl1e, s) \<leftarrow> hal_l1e_set H l1p l1e s;
                    let s = ktlbgen_markdirty (hal_l1e_tlbop H oldl1e l1e) s;
                    let (oldpfn, oldprot) = hal_l1e_unbox H oldl1e;
                    Some (if oldprot AND HAL_PTE_P \<noteq> 0 then oldpfn else PFN_INVALID, s) } }"

definition kmap_getpfn :: "'a cpu_st_scheme hal \<Rightarrow> vaddr_t \<Rightarrow> 'a cpu_st_scheme \<Rightarrow> (pfn_t \<times> 'a cpu_st_scheme) option" where
  "kmap_getpfn H va s =
     do { ((b, l1p), s) \<leftarrow> hal_kmap_getl1p H va False s;
          if \<not> b then Some (PFN_INVALID, s)
          else do { (l1e, s) \<leftarrow> hal_l1e_get H l1p s;
                    let (pfn, flags) = hal_l1e_unbox H l1e;
                    Some (if flags AND HAL_PTE_P \<noteq> 0 then pfn else PFN_INVALID, s) } }"

definition kmap_map :: "'a cpu_st_scheme hal \<Rightarrow> vaddr_t \<Rightarrow> pfn_t \<Rightarrow> u32 \<Rightarrow> 'a cpu_st_scheme \<Rightarrow> (pfn_t \<times> 'a cpu_st_scheme) option" where
  "kmap_map H va pfn prot s = kmap_map_prot H va pfn prot True s"

definition kmap_map_noalloc :: "'a cpu_st_scheme hal \<Rightarrow> vaddr_t \<Rightarrow> pfn_t \<Rightarrow> u32 \<Rightarrow> 'a cpu_st_scheme \<Rightarrow> (pfn_t \<times> 'a cpu_st_scheme) option" where
  "kmap_map_noalloc H va pfn prot s = kmap_map_prot H va pfn prot False s"

definition kmap_unmap :: "'a cpu_st_scheme hal \<Rightarrow> vaddr_t \<Rightarrow> 'a cpu_st_scheme \<Rightarrow> (pfn_t \<times> 'a cpu_st_scheme) option" where
  "kmap_unmap H va s =
     do { let l1e = hal_l1e_box H 0 0;
          ((b, l1p), s) \<leftarrow> hal_kmap_getl1p H va False s;
          if b
          then do { (oldl1e, s) \<leftarrow> hal_l1e_set H l1p l1e s;
                    let s = ktlbgen_markdirty (hal_l1e_tlbop H oldl1e l1e) s;
                    let (oldpfn, oldprot) = hal_l1e_unbox H oldl1e;
                    Some (if oldprot AND HAL_PTE_P \<noteq> 0 then oldpfn else PFN_INVALID, s) }
          else Some (PFN_INVALID, s) }"

definition kmap_mapped :: "'a cpu_st_scheme hal \<Rightarrow> vaddr_t \<Rightarrow> 'a cpu_st_scheme \<Rightarrow> (bool \<times> 'a cpu_st_scheme) option" where
  "kmap_mapped H va s = do { ((b, _), s) \<leftarrow> hal_kmap_getl1p H va False s; Some (b, s) }"

partial_function (option) mapped_loop ::
  "'a cpu_st_scheme hal \<Rightarrow> vaddr_t \<Rightarrow> vaddr_t \<Rightarrow> 'a cpu_st_scheme \<Rightarrow> (bool \<times> 'a cpu_st_scheme) option" where [code]:
  "mapped_loop H i e s =
     (if i < e
      then do { (b, s) \<leftarrow> kmap_mapped H i s;
                if \<not> b then Some (False, s) else mapped_loop H (i + PAGE_SIZE) e s }
      else Some (True, s))"

definition kmap_mapped_range :: "'a cpu_st_scheme hal \<Rightarrow> vaddr_t \<Rightarrow> size_t \<Rightarrow> 'a cpu_st_scheme \<Rightarrow> (bool \<times> 'a cpu_st_scheme) option" where
  "kmap_mapped_range H va sz s = mapped_loop H (trunc_page va) (va + sz) s"

definition kmap_ensure ::
  "'a cpu_st_scheme hal \<Rightarrow> 'a cpu_st_scheme pfn_ops \<Rightarrow> vaddr_t \<Rightarrow> u32 \<Rightarrow> 'a cpu_st_scheme \<Rightarrow> (int \<times> 'a cpu_st_scheme) option" where
  "kmap_ensure H M va reqprot s =
     do { ((b, l1p), s) \<leftarrow> hal_kmap_getl1p H va False s;
          ((pfn, prot), s) \<leftarrow> (if b then do { (l1e, s) \<leftarrow> hal_l1e_get H l1p s; Some (hal_l1e_unbox H l1e, s) }
                                else Some ((PFN_INVALID, 0), s));
          if reqprot XOR prot = 0 then Some (0, s)
          else do { (r, s) \<leftarrow>
                      (if reqprot AND HAL_PTE_P \<noteq> prot AND HAL_PTE_P
                       then if reqprot AND HAL_PTE_P \<noteq> 0
                            then do { (l1p, s) \<leftarrow>
                                        (if l1p = L1P_INVALID
                                         then do { ((b, l1p), s) \<leftarrow> hal_kmap_getl1p H va True s;
                                                   if b then Some (l1p, s) else None }
                                         else Some (l1p, s));
                                      (pfn, s) \<leftarrow> op_alloc M False s;
                                      if pfn = PFN_INVALID then Some (None, s) else Some (Some (l1p, pfn), s) }
                            else do { s \<leftarrow> op_free M pfn s; Some (Some (l1p, PFN_INVALID), s) }
                       else Some (Some (l1p, pfn), s));
                    case r of
                      None \<Rightarrow> Some (- 1, s)
                    | Some (l1p, pfn) \<Rightarrow>
                        do { let l1e = hal_l1e_box H pfn reqprot;
                             (oldl1e, s) \<leftarrow> hal_l1e_set H l1p l1e s;
                             let s = ktlbgen_markdirty (hal_l1e_tlbop H oldl1e l1e) s;
                             Some (0, s) } } }"

partial_function (option) ensure_loop ::
  "'a cpu_st_scheme hal \<Rightarrow> 'a cpu_st_scheme pfn_ops \<Rightarrow> u32 \<Rightarrow> vaddr_t \<Rightarrow> vaddr_t \<Rightarrow> 'a cpu_st_scheme \<Rightarrow> (int \<times> 'a cpu_st_scheme) option" where [code]:
  "ensure_loop H M reqprot i e s =
     (if i < e
      then do { (r, s) \<leftarrow> kmap_ensure H M i reqprot s;
                if r \<noteq> 0 then Some (- 1, s) else ensure_loop H M reqprot (i + PAGE_SIZE) e s }
      else Some (0, s))"

definition kmap_ensure_range ::
  "'a cpu_st_scheme hal \<Rightarrow> 'a cpu_st_scheme pfn_ops \<Rightarrow> vaddr_t \<Rightarrow> size_t \<Rightarrow> u32 \<Rightarrow> 'a cpu_st_scheme \<Rightarrow> (int \<times> 'a cpu_st_scheme) option" where
  "kmap_ensure_range H M va sz reqprot s = ensure_loop H M reqprot (trunc_page va) (va + sz) s"

definition kmap_commit :: "'a cpu_st_scheme \<Rightarrow> 'a cpu_st_scheme" where
  "kmap_commit s = cpu_kmapupdate_broadcast s"

section \<open>What the mapping functions rely on\<close>

text \<open>The frame a leaf entry maps, as the functions report it.\<close>

definition entry_pfn :: "'s hal \<Rightarrow> u64 \<Rightarrow> pfn_t" where
  "entry_pfn H e = (if snd (hal_l1e_unbox H e) AND HAL_PTE_P \<noteq> 0 then fst (hal_l1e_unbox H e) else PFN_INVALID)"

lemma xor_eq_0: "a XOR b = 0 \<longleftrightarrow> a = b" for a b :: "'w::len word"
  by (auto simp: bit_eq_iff bit_xor_iff)

lemma and_1_eq: "a AND 1 \<noteq> 0 \<Longrightarrow> a AND 1 = (1 :: u32)"
  by (auto simp: and_one_eq)

text \<open>
  A mapping as its walk presents it: \<open>lk s va\<close> is the leaf entry of an address of the mapping (\<open>inr\<close>), 0 where
  there is none, \<open>at s va p\<close> says that \<open>p\<close> points to it, and \<open>pg\<close> identifies the page of an address. The walk
  changes no leaf entry and fails to create one only when the memory is \<open>full\<close>; writing through the pointer changes
  the entry of that page and no other.
\<close>

locale leaf_walk =
  fixes H :: "'a cpu_st_scheme hal"
    and walk :: "vaddr_t \<Rightarrow> bool \<Rightarrow> 'a cpu_st_scheme \<Rightarrow> ((bool \<times> u64) \<times> 'a cpu_st_scheme) option"
    and ok :: "'a cpu_st_scheme \<Rightarrow> bool"
    and lk :: "'a cpu_st_scheme \<Rightarrow> vaddr_t \<Rightarrow> u64"
    and at :: "'a cpu_st_scheme \<Rightarrow> vaddr_t \<Rightarrow> u64 \<Rightarrow> bool"
    and inr :: "vaddr_t \<Rightarrow> bool"
    and pg :: "vaddr_t \<Rightarrow> 'p"
    and full :: "'a cpu_st_scheme \<Rightarrow> bool"
  assumes walk_law: "ok s \<Longrightarrow> inr va \<Longrightarrow> \<exists>b p s'. walk va alloc s = Some ((b, p), s') \<and> ok s' \<and>
      (\<forall>x. inr x \<longrightarrow> lk s' x = lk s x) \<and> (\<not> alloc \<longrightarrow> s' = s) \<and> b = (p \<noteq> L1P_INVALID) \<and>
      (if b then at s' va p else lk s va = 0 \<and> (alloc \<longrightarrow> full s'))"
    and get_law: "ok s \<Longrightarrow> inr va \<Longrightarrow> at s va p \<Longrightarrow> hal_l1e_get H p s = Some (lk s va, s)"
    and set_law: "ok s \<Longrightarrow> inr va \<Longrightarrow> at s va p \<Longrightarrow> \<exists>s'. hal_l1e_set H p e s = Some (lk s va, s') \<and> ok s' \<and>
      (\<forall>x. inr x \<longrightarrow> lk s' x = (if pg x = pg va then e else lk s x))"
    and mark_law: "ok s \<Longrightarrow> ok (ktlbgen_markdirty op s) \<and> lk (ktlbgen_markdirty op s) = lk s"

text \<open>Kernel mappings, and the frames that the code takes from the allocator and gives back.\<close>

locale kernel_walk = leaf_walk H "hal_kmap_getl1p H" ok lk at inr pg full
  for H :: "'a cpu_st_scheme hal" and ok lk at inr and pg :: "vaddr_t \<Rightarrow> 'p" and full +
  fixes M :: "'a cpu_st_scheme pfn_ops" and owned :: "'a cpu_st_scheme \<Rightarrow> pfn_t \<Rightarrow> bool"
  assumes alloc_law: "ok s \<Longrightarrow> \<exists>f s'. op_alloc M low s = Some (f, s') \<and> ok s' \<and> (\<forall>x. inr x \<longrightarrow> lk s' x = lk s x) \<and>
      (\<forall>x p. at s x p \<longrightarrow> at s' x p) \<and> (f = PFN_INVALID \<longrightarrow> full s') \<and> (f \<noteq> PFN_INVALID \<longrightarrow> owned s' f)"
    and free_law: "ok s \<Longrightarrow> owned s f \<Longrightarrow> \<exists>s'. op_free M f s = Some s' \<and> ok s' \<and> (\<forall>x. inr x \<longrightarrow> lk s' x = lk s x) \<and>
      (\<forall>x p. at s x p \<longrightarrow> at s' x p) \<and> \<not> owned s' f"
    and owned_set: "ok s \<Longrightarrow> inr va \<Longrightarrow> at s va p \<Longrightarrow> hal_l1e_set H p e s = Some (e', s') \<Longrightarrow>
      owned (ktlbgen_markdirty op s') f = owned s f"
begin

lemma getpfn_law:
  assumes "ok s" "inr va"
  shows "hal_l1e_unbox H 0 = (f0, 0) \<Longrightarrow> kmap_getpfn H va s = Some (entry_pfn H (lk s va), s)"
proof -
  assume z: "hal_l1e_unbox H 0 = (f0, 0)"
  obtain b p s' where w: "hal_kmap_getl1p H va False s = Some ((b, p), s')" "s' = s" "if b then at s' va p else lk s va = 0"
    using walk_law [OF assms, of False] by auto
  show ?thesis
  proof (cases b)
    case True
    then have "hal_l1e_get H p s = Some (lk s va, s)" using w get_law [OF assms] by simp
    then show ?thesis using w True by (simp add: kmap_getpfn_def entry_pfn_def split: prod.splits)
  next
    case False
    then show ?thesis using w z by (simp add: kmap_getpfn_def entry_pfn_def)
  qed
qed

text \<open>Setting an entry and telling the TLB about it.\<close>

lemma set_mark:
  assumes "ok s" "inr va" "at s va p"
  shows "\<exists>s'. hal_l1e_set H p e s = Some (lk s va, s') \<and> ok (ktlbgen_markdirty op s') \<and>
    (\<forall>x. inr x \<longrightarrow> lk (ktlbgen_markdirty op s') x = (if pg x = pg va then e else lk s x))"
  using set_law [OF assms, of e] mark_law by metis

lemma map_law:
  assumes "ok s" "inr va"
  shows "(\<exists>s'. kmap_map_prot H va pfn prot alloc s = Some (entry_pfn H (lk s va), s') \<and> ok s' \<and>
      (\<forall>x. inr x \<longrightarrow> lk s' x = (if pg x = pg va then hal_l1e_box H pfn prot else lk s x))) \<or>
    (kmap_map_prot H va pfn prot alloc s = None \<and> lk s va = 0 \<and>
      (\<exists>p s'. hal_kmap_getl1p H va alloc s = Some ((False, p), s') \<and> (alloc \<longrightarrow> full s')))"
proof -
  obtain b p s1 where w: "hal_kmap_getl1p H va alloc s = Some ((b, p), s1)" "ok s1" "\<forall>x. inr x \<longrightarrow> lk s1 x = lk s x"
      "if b then at s1 va p else lk s va = 0 \<and> (alloc \<longrightarrow> full s1)"
    using walk_law [OF assms, of alloc] by blast
  show ?thesis
  proof (cases b)
    case True
    let ?e = "hal_l1e_box H pfn prot"
    obtain s2 where "hal_l1e_set H p ?e s1 = Some (lk s1 va, s2)"
        "ok (ktlbgen_markdirty (hal_l1e_tlbop H (lk s1 va) ?e) s2)"
        "\<forall>x. inr x \<longrightarrow> lk (ktlbgen_markdirty (hal_l1e_tlbop H (lk s1 va) ?e) s2) x = (if pg x = pg va then ?e else lk s1 x)"
      using set_mark [OF w(2) assms(2)] w(4) True by metis
    then show ?thesis using w(1,3) True assms(2) by (simp add: kmap_map_prot_def entry_pfn_def split: prod.splits)
  next
    case False
    then show ?thesis using w by (simp add: kmap_map_prot_def)
  qed
qed

lemma unmap_law:
  assumes "ok s" "inr va" and z: "hal_l1e_unbox H 0 = (f0, 0)" "hal_l1e_box H 0 0 = 0"
  shows "\<exists>s'. kmap_unmap H va s = Some (entry_pfn H (lk s va), s') \<and> ok s' \<and>
    (\<forall>x. inr x \<longrightarrow> pg x \<noteq> pg va \<longrightarrow> lk s' x = lk s x) \<and> lk s' va = 0"
proof -
  obtain b p s1 where w: "hal_kmap_getl1p H va False s = Some ((b, p), s1)" "s1 = s" "if b then at s1 va p else lk s va = 0"
    using walk_law [OF assms(1,2), of False] by auto
  show ?thesis
  proof (cases b)
    case True
    obtain s2 where "hal_l1e_set H p 0 s = Some (lk s va, s2)" "ok (ktlbgen_markdirty (hal_l1e_tlbop H (lk s va) 0) s2)"
        "\<forall>x. inr x \<longrightarrow> lk (ktlbgen_markdirty (hal_l1e_tlbop H (lk s va) 0) s2) x = (if pg x = pg va then 0 else lk s x)"
      using set_mark [OF assms(1,2), of p 0] w(2,3) True by metis
    then show ?thesis using w True assms(2) z by (simp add: kmap_unmap_def entry_pfn_def split: prod.splits)
  next
    case False
    then show ?thesis using w z assms(1) by (simp add: kmap_unmap_def entry_pfn_def)
  qed
qed

text \<open>The end of \<^verbatim>\<open>kmap_ensure\<close>: the new entry is written.\<close>

lemma ensure_write:
  assumes "ok s" "inr va" "at s va p"
  shows "\<exists>s'. do { (oldl1e, s) \<leftarrow> hal_l1e_set H p e s; Some (0 :: int, ktlbgen_markdirty (hal_l1e_tlbop H oldl1e e) s) } = Some (0, s') \<and>
    ok s' \<and> (\<forall>x. inr x \<longrightarrow> lk s' x = (if pg x = pg va then e else lk s x)) \<and> (\<forall>f. owned s' f = owned s f)"
proof -
  obtain s1 where "hal_l1e_set H p e s = Some (lk s va, s1)" "ok (ktlbgen_markdirty (hal_l1e_tlbop H (lk s va) e) s1)"
      "\<forall>x. inr x \<longrightarrow> lk (ktlbgen_markdirty (hal_l1e_tlbop H (lk s va) e) s1) x = (if pg x = pg va then e else lk s x)"
    using set_mark [OF assms] by metis
  then show ?thesis using owned_set [OF assms] by simp
qed

text \<open>What \<^verbatim>\<open>kmap_ensure\<close> reads first: the frame and the permissions of the entry, none where there is no entry.\<close>

lemma ensure_read:
  assumes "ok s" "inr va" and z: "hal_l1e_unbox H 0 = (f0, 0)"
  obtains b p where "hal_kmap_getl1p H va False s = Some ((b, p), s)" "b = (p \<noteq> L1P_INVALID)" "b \<longrightarrow> at s va p"
    "\<not> b \<longrightarrow> lk s va = 0"
    "(if b then do { (l1e, s) \<leftarrow> hal_l1e_get H p s; Some (hal_l1e_unbox H l1e, s) } else Some ((PFN_INVALID, 0), s)) =
       Some ((if b then fst (hal_l1e_unbox H (lk s va)) else PFN_INVALID, snd (hal_l1e_unbox H (lk s va))), s)"
proof -
  obtain b p s1 where w: "hal_kmap_getl1p H va False s = Some ((b, p), s1)" "s1 = s" "b = (p \<noteq> L1P_INVALID)"
      "if b then at s1 va p else lk s va = 0"
    using walk_law [OF assms(1,2), of False] by auto
  show thesis
  proof (rule that [of b p])
    show "(if b then do { (l1e, s) \<leftarrow> hal_l1e_get H p s; Some (hal_l1e_unbox H l1e, s) } else Some ((PFN_INVALID, 0), s)) =
       Some ((if b then fst (hal_l1e_unbox H (lk s va)) else PFN_INVALID, snd (hal_l1e_unbox H (lk s va))), s)"
      using w get_law [OF assms(1,2)] z by (cases b) simp_all
  qed (use w in \<open>auto split: if_splits\<close>)
qed

lemma ensure_unchanged:
  assumes "ok s" "inr va" "hal_l1e_unbox H 0 = (f0, 0)" "snd (hal_l1e_unbox H (lk s va)) = reqprot"
  shows "kmap_ensure H M va reqprot s = Some (0, s)"
  by (rule ensure_read [OF assms(1-3)]) (use assms(4) in \<open>simp add: kmap_ensure_def del: bind_split\<close>)

lemma ensure_populate:
  assumes ok: "ok s" and va: "inr va" and z: "hal_l1e_unbox H 0 = (f0, 0)"
    and np: "snd (hal_l1e_unbox H (lk s va)) AND HAL_PTE_P = 0" and req: "reqprot AND HAL_PTE_P \<noteq> 0"
  shows "(\<exists>f s'. kmap_ensure H M va reqprot s = Some (0, s') \<and> ok s' \<and> owned s' f \<and> f \<noteq> PFN_INVALID \<and>
      (\<forall>x. inr x \<longrightarrow> lk s' x = (if pg x = pg va then hal_l1e_box H f reqprot else lk s x))) \<or>
    (\<exists>s'. kmap_ensure H M va reqprot s = Some (- 1, s') \<and> ok s' \<and> full s' \<and> (\<forall>x. inr x \<longrightarrow> lk s' x = lk s x)) \<or>
    (\<exists>p s'. kmap_ensure H M va reqprot s = None \<and> hal_kmap_getl1p H va True s = Some ((False, p), s') \<and> full s')"
proof -
  let ?prot = "snd (hal_l1e_unbox H (lk s va))"
  have ne: "reqprot XOR ?prot \<noteq> 0" "reqprot AND HAL_PTE_P \<noteq> ?prot AND HAL_PTE_P" using np req by (auto simp: xor_eq_0)
  obtain b p where R: "hal_kmap_getl1p H va False s = Some ((b, p), s)" "b = (p \<noteq> L1P_INVALID)" "b \<longrightarrow> at s va p" "\<not> b \<longrightarrow> lk s va = 0"
    "(if b then do { (l1e, s) \<leftarrow> hal_l1e_get H p s; Some (hal_l1e_unbox H l1e, s) } else Some ((PFN_INVALID, 0), s)) =
       Some ((if b then fst (hal_l1e_unbox H (lk s va)) else PFN_INVALID, ?prot), s)"
    using ensure_read [OF ok va z] by metis
  obtain b' p' s1 where W: "(if p = L1P_INVALID then hal_kmap_getl1p H va True s else Some ((True, p), s)) = Some ((b', p'), s1)"
      "ok s1" "\<forall>x. inr x \<longrightarrow> lk s1 x = lk s x" "if b' then at s1 va p' else p = L1P_INVALID \<and> full s1"
    using walk_law [OF ok va, of True] R(2,3) ok by (cases "p = L1P_INVALID") auto
  have run: "kmap_ensure H M va reqprot s =
    do { ((b, l1p), s) \<leftarrow> (if p = L1P_INVALID then hal_kmap_getl1p H va True s else Some ((True, p), s));
         if \<not> b then None
         else do { (pfn, s) \<leftarrow> op_alloc M False s;
                   if pfn = PFN_INVALID then Some (- 1, s)
                   else do { (oldl1e, s) \<leftarrow> hal_l1e_set H l1p (hal_l1e_box H pfn reqprot) s;
                             Some (0, ktlbgen_markdirty (hal_l1e_tlbop H oldl1e (hal_l1e_box H pfn reqprot)) s) } } }"
    using ne req unfolding kmap_ensure_def R(1) R(5) by (auto simp: R(5) Let_def split: bind_splits prod.splits)
  show ?thesis
  proof (cases b')
    case False
    then show ?thesis using run W by (auto split: if_splits)
  next
    case True
    obtain f s2 where A: "op_alloc M False s1 = Some (f, s2)" "ok s2" "\<forall>x. inr x \<longrightarrow> lk s2 x = lk s1 x"
        "\<forall>x p. at s1 x p \<longrightarrow> at s2 x p" "f \<noteq> PFN_INVALID \<longrightarrow> owned s2 f" "f = PFN_INVALID \<longrightarrow> full s2"
      using alloc_law [OF W(2), of False] by blast
    show ?thesis
    proof (cases "f = PFN_INVALID")
      case inv: True
      then show ?thesis using run W True A by auto
    next
      case False
      have "at s2 va p'" using W(4) True A(4) by simp
      from ensure_write [OF A(2) va this, of "hal_l1e_box H f reqprot"] show ?thesis
        using run W(1,3) True A False by (intro disjI1 exI [of _ f]) auto
    qed
  qed
qed

lemma ensure_release:
  assumes ok: "ok s" and va: "inr va" and z: "hal_l1e_unbox H 0 = (f0, 0)" and u: "hal_l1e_unbox H (lk s va) = (pfn, prot)"
    and p: "prot AND HAL_PTE_P \<noteq> 0" and req: "reqprot AND HAL_PTE_P = 0" and own: "owned s pfn"
  shows "\<exists>s'. kmap_ensure H M va reqprot s = Some (0, s') \<and> ok s' \<and> \<not> owned s' pfn \<and>
    (\<forall>x. inr x \<longrightarrow> lk s' x = (if pg x = pg va then hal_l1e_box H PFN_INVALID reqprot else lk s x))"
proof -
  have ne: "reqprot XOR prot \<noteq> 0" "reqprot AND HAL_PTE_P \<noteq> prot AND HAL_PTE_P" using p req by (auto simp: xor_eq_0)
  obtain b q where R: "hal_kmap_getl1p H va False s = Some ((b, q), s)" "b = (q \<noteq> L1P_INVALID)" "b \<longrightarrow> at s va q" "\<not> b \<longrightarrow> lk s va = 0"
    "(if b then do { (l1e, s) \<leftarrow> hal_l1e_get H q s; Some (hal_l1e_unbox H l1e, s) } else Some ((PFN_INVALID, 0), s)) =
       Some ((if b then fst (hal_l1e_unbox H (lk s va)) else PFN_INVALID, snd (hal_l1e_unbox H (lk s va))), s)"
    using ensure_read [OF ok va z] by metis
  have b: b using R(4) u z p by (cases b) auto
  obtain s1 where F: "op_free M pfn s = Some s1" "ok s1" "\<forall>x. inr x \<longrightarrow> lk s1 x = lk s x" "\<forall>x p. at s x p \<longrightarrow> at s1 x p" "\<not> owned s1 pfn"
    using free_law [OF ok own] by blast
  have "kmap_ensure H M va reqprot s =
    do { (oldl1e, s) \<leftarrow> hal_l1e_set H q (hal_l1e_box H PFN_INVALID reqprot) s1;
         Some (0, ktlbgen_markdirty (hal_l1e_tlbop H oldl1e (hal_l1e_box H PFN_INVALID reqprot)) s) }"
    using ne p req b u F(1) R(2) get_law [OF ok va R(3) [rule_format, OF b]] by (simp add: kmap_ensure_def R(1) Let_def)
  moreover have "at s1 va q" using F(4) R(3) b by simp
  ultimately show ?thesis using ensure_write [OF F(2) va, of q "hal_l1e_box H PFN_INVALID reqprot"] F(3,5) by auto
qed

lemma ensure_change:
  assumes ok: "ok s" and va: "inr va" and z: "hal_l1e_unbox H 0 = (f0, 0)" and u: "hal_l1e_unbox H (lk s va) = (pfn, prot)"
    and p: "prot AND HAL_PTE_P \<noteq> 0" and req: "reqprot AND HAL_PTE_P \<noteq> 0" "reqprot \<noteq> prot"
  shows "\<exists>s'. kmap_ensure H M va reqprot s = Some (0, s') \<and> ok s' \<and> (\<forall>f. owned s' f = owned s f) \<and>
    (\<forall>x. inr x \<longrightarrow> lk s' x = (if pg x = pg va then hal_l1e_box H pfn reqprot else lk s x))"
proof -
  have ne: "reqprot XOR prot \<noteq> 0" "reqprot AND HAL_PTE_P = prot AND HAL_PTE_P" using p req by (auto simp: xor_eq_0 dest!: and_1_eq)
  obtain b q where R: "hal_kmap_getl1p H va False s = Some ((b, q), s)" "b = (q \<noteq> L1P_INVALID)" "b \<longrightarrow> at s va q" "\<not> b \<longrightarrow> lk s va = 0"
    using ensure_read [OF ok va z] by metis
  have b: b using R(4) u z p by (cases b) auto
  have at: "at s va q" using R(3) b by simp
  have "kmap_ensure H M va reqprot s =
    do { (oldl1e, s) \<leftarrow> hal_l1e_set H q (hal_l1e_box H pfn reqprot) s;
         Some (0, ktlbgen_markdirty (hal_l1e_tlbop H oldl1e (hal_l1e_box H pfn reqprot)) s) }"
    using ne b u R(2) get_law [OF ok va at] by (simp add: kmap_ensure_def R(1) Let_def)
  then show ?thesis using ensure_write [OF ok va at, of "hal_l1e_box H pfn reqprot"] by auto
qed

end

end
