(* ===== verification/Rbtree.thy ===== *)
theory Rbtree
  imports Nux_Prelude
begin

text \<open>
  The red-black tree of the C library (\<^verbatim>\<open>libec/rb.c\<close>, \<^verbatim>\<open>libec/rbtree.h\<close>), at the level of its
  pointers. The memory of nodes is a function from addresses to nodes; a node has its two links and the
  word \<^verbatim>\<open>rb_info\<close>, which packs the address of the father with two flags: on which side of the father the
  node is, and its colour. As in the code, the tree's root link is used as the left link of a node at the
  address \<open>rbt\<close> of the tree itself, and NULL is the address 0. A direction is a \<open>bool\<close>: \<open>False\<close> is left,
  \<open>True\<close> is right.

  The comparison functions of the tree's user are parameters: \<open>compare_key\<close> of a node's object and the
  key that is looked for (already applied to the key), \<open>compare_nodes\<close> of two objects. \<open>off\<close> is
  \<^verbatim>\<open>rbto_node_offset\<close>. Loops that follow links are partial: on a memory that is not a tree they may not
  end. The debugging and statistics code is not compiled in.
\<close>

section \<open>Nodes\<close>

record rb_node =
  rb_left :: u64
  rb_right :: u64
  rb_info :: u64

type_synonym rb_mem = "u64 \<Rightarrow> rb_node"

abbreviation (input) RB_FLAG_POSITION :: u64 where "RB_FLAG_POSITION \<equiv> 2"
abbreviation (input) RB_FLAG_RED :: u64 where "RB_FLAG_RED \<equiv> 1"
abbreviation (input) RB_FLAG_MASK :: u64 where "RB_FLAG_MASK \<equiv> 3"

definition rb_nodes :: "rb_mem \<Rightarrow> u64 \<Rightarrow> bool \<Rightarrow> u64" where
  "rb_nodes m p d = (if d then rb_right (m p) else rb_left (m p))"

definition set_nodes :: "u64 \<Rightarrow> bool \<Rightarrow> u64 \<Rightarrow> rb_mem \<Rightarrow> rb_mem" where
  "set_nodes p d v m = m(p := (if d then (m p)\<lparr>rb_right := v\<rparr> else (m p)\<lparr>rb_left := v\<rparr>))"

definition upd_info :: "u64 \<Rightarrow> (u64 \<Rightarrow> u64) \<Rightarrow> rb_mem \<Rightarrow> rb_mem" where
  "upd_info p f m = m(p := (m p)\<lparr>rb_info := f (rb_info (m p))\<rparr>)"

definition RB_FATHER :: "rb_mem \<Rightarrow> u64 \<Rightarrow> u64" where
  "RB_FATHER m p = rb_info (m p) AND NOT RB_FLAG_MASK"

definition RB_SET_FATHER :: "u64 \<Rightarrow> u64 \<Rightarrow> rb_mem \<Rightarrow> rb_mem" where
  "RB_SET_FATHER p f = upd_info p (\<lambda>i. f OR (i AND RB_FLAG_MASK))"

definition RB_POSITION :: "rb_mem \<Rightarrow> u64 \<Rightarrow> bool" where
  "RB_POSITION m p \<longleftrightarrow> rb_info (m p) AND RB_FLAG_POSITION \<noteq> 0"

definition RB_RED_P :: "rb_mem \<Rightarrow> u64 \<Rightarrow> bool" where
  "RB_RED_P m p \<longleftrightarrow> p \<noteq> 0 \<and> rb_info (m p) AND RB_FLAG_RED \<noteq> 0"

definition RB_BLACK_P :: "rb_mem \<Rightarrow> u64 \<Rightarrow> bool" where
  "RB_BLACK_P m p \<longleftrightarrow> p = 0 \<or> rb_info (m p) AND RB_FLAG_RED = 0"

definition RB_MARK_RED :: "u64 \<Rightarrow> rb_mem \<Rightarrow> rb_mem" where
  "RB_MARK_RED p = upd_info p (\<lambda>i. i OR RB_FLAG_RED)"

definition RB_MARK_BLACK :: "u64 \<Rightarrow> rb_mem \<Rightarrow> rb_mem" where
  "RB_MARK_BLACK p = upd_info p (\<lambda>i. i AND NOT RB_FLAG_RED)"

definition RB_SET_POSITION :: "u64 \<Rightarrow> bool \<Rightarrow> rb_mem \<Rightarrow> rb_mem" where
  "RB_SET_POSITION p d =
     upd_info p (\<lambda>i. if d then i OR RB_FLAG_POSITION else i AND NOT RB_FLAG_POSITION)"

definition RB_COPY_PROPERTIES :: "u64 \<Rightarrow> u64 \<Rightarrow> rb_mem \<Rightarrow> rb_mem" where
  "RB_COPY_PROPERTIES dst src m =
     upd_info dst (\<lambda>i. i XOR ((i XOR rb_info (m src)) AND RB_FLAG_MASK)) m"

definition RB_SWAP_PROPERTIES :: "u64 \<Rightarrow> u64 \<Rightarrow> rb_mem \<Rightarrow> rb_mem" where
  "RB_SWAP_PROPERTIES a b m =
     (let xorinfo = (rb_info (m a) XOR rb_info (m b)) AND RB_FLAG_MASK;
          m = upd_info a (\<lambda>i. i XOR xorinfo) m
      in upd_info b (\<lambda>i. i XOR xorinfo) m)"

text \<open>The alternative that the code keeps, disabled, beside its use of \<^verbatim>\<open>RB_SWAP_PROPERTIES\<close>: the properties
  exchanged through a temporary node, at an address \<open>tmp\<close> that is neither of the two.\<close>

definition swap_by_copy :: "u64 \<Rightarrow> u64 \<Rightarrow> u64 \<Rightarrow> rb_mem \<Rightarrow> rb_mem" where
  "swap_by_copy tmp new_father new_child m =
     (let m = upd_info tmp (\<lambda>_. 0) m;
          m = RB_COPY_PROPERTIES tmp new_father m;
          m = RB_COPY_PROPERTIES new_father new_child m
      in RB_COPY_PROPERTIES new_child tmp m)"

definition RB_CHILDLESS_P :: "rb_mem \<Rightarrow> u64 \<Rightarrow> bool" where
  "RB_CHILDLESS_P m p \<longleftrightarrow> p = 0 \<or> rb_nodes m p False = 0 \<and> rb_nodes m p True = 0"

definition RB_TWOCHILDREN_P :: "rb_mem \<Rightarrow> u64 \<Rightarrow> bool" where
  "RB_TWOCHILDREN_P m p \<longleftrightarrow> p \<noteq> 0 \<and> rb_nodes m p False \<noteq> 0 \<and> rb_nodes m p True \<noteq> 0"

section \<open>The tree\<close>

record rb_tree =
  rb_mem :: rb_mem
  rbt_min :: u64
  rbt_max :: u64

definition rbt_root :: "u64 \<Rightarrow> rb_mem \<Rightarrow> u64" where
  "rbt_root rbt m = rb_nodes m rbt False"

definition RB_ROOT_P :: "u64 \<Rightarrow> rb_mem \<Rightarrow> u64 \<Rightarrow> bool" where
  "RB_ROOT_P rbt m p \<longleftrightarrow> rbt_root rbt m = p"

definition rbt_minmax :: "rb_tree \<Rightarrow> bool \<Rightarrow> u64" where
  "rbt_minmax t d = (if d then rbt_max t else rbt_min t)"

definition set_minmax :: "bool \<Rightarrow> u64 \<Rightarrow> rb_tree \<Rightarrow> rb_tree" where
  "set_minmax d v t = (if d then t\<lparr>rbt_max := v\<rparr> else t\<lparr>rbt_min := v\<rparr>)"

abbreviation upd_mem :: "(rb_mem \<Rightarrow> rb_mem) \<Rightarrow> rb_tree \<Rightarrow> rb_tree" where
  "upd_mem g t \<equiv> t\<lparr>rb_mem := g (rb_mem t)\<rparr>"

definition rb_tree_init :: "u64 \<Rightarrow> rb_tree \<Rightarrow> rb_tree" where
  "rb_tree_init rbt t =
     (let t = upd_mem (set_nodes rbt False 0) t;
          t = set_minmax False (rbt_root rbt (rb_mem t)) t
      in set_minmax True (rbt_root rbt (rb_mem t)) t)"

section \<open>Look-up\<close>

partial_function (option) find_loop :: "u64 \<Rightarrow> (u64 \<Rightarrow> int) \<Rightarrow> rb_mem \<Rightarrow> u64 \<Rightarrow> u64 option" where [code]:
  "find_loop off compare_key m parent =
     (if parent = 0 then Some 0
      else let pobj = parent - off; diff = compare_key pobj
           in if diff = 0 then Some pobj
              else find_loop off compare_key m (rb_nodes m parent (diff < 0)))"

definition rb_tree_find_node :: "u64 \<Rightarrow> u64 \<Rightarrow> (u64 \<Rightarrow> int) \<Rightarrow> rb_tree \<Rightarrow> u64 option" where
  "rb_tree_find_node rbt off compare_key t = find_loop off compare_key (rb_mem t) (rbt_root rbt (rb_mem t))"

text \<open>The two bounded searches differ in the sign that updates \<^verbatim>\<open>last\<close>: \<open>geq\<close> selects.\<close>

partial_function (option) find_near_loop ::
  "u64 \<Rightarrow> bool \<Rightarrow> (u64 \<Rightarrow> int) \<Rightarrow> rb_mem \<Rightarrow> u64 \<Rightarrow> u64 \<Rightarrow> u64 option" where [code]:
  "find_near_loop off geq compare_key m parent latest =
     (if parent = 0 then Some (if latest = 0 then 0 else latest - off)
      else let pobj = parent - off; diff = compare_key pobj
           in if diff = 0 then Some pobj
              else find_near_loop off geq compare_key m (rb_nodes m parent (diff < 0))
                     (if (if geq then diff > 0 else diff < 0) then parent else latest))"

definition rb_tree_find_node_geq :: "u64 \<Rightarrow> u64 \<Rightarrow> (u64 \<Rightarrow> int) \<Rightarrow> rb_tree \<Rightarrow> u64 option" where
  "rb_tree_find_node_geq rbt off compare_key t =
     find_near_loop off True compare_key (rb_mem t) (rbt_root rbt (rb_mem t)) 0"

definition rb_tree_find_node_leq :: "u64 \<Rightarrow> u64 \<Rightarrow> (u64 \<Rightarrow> int) \<Rightarrow> rb_tree \<Rightarrow> u64 option" where
  "rb_tree_find_node_leq rbt off compare_key t =
     find_near_loop off False compare_key (rb_mem t) (rbt_root rbt (rb_mem t)) 0"

section \<open>Rotation\<close>

definition rb_tree_reparent_nodes :: "u64 \<Rightarrow> bool \<Rightarrow> rb_mem \<Rightarrow> rb_mem" where
  "rb_tree_reparent_nodes old_father which m =
     (let other = (\<not> which);
          grandpa = RB_FATHER m old_father;
          old_child = rb_nodes m old_father which;
          new_father = old_child;
          new_child = old_father;
          m = set_nodes grandpa (RB_POSITION m old_father) new_father m;
          m = set_nodes new_child which (rb_nodes m old_child other) m;
          m = set_nodes new_father other new_child m;
          m = RB_SET_FATHER new_father grandpa m;
          m = RB_SET_FATHER new_child new_father m;
          m = RB_SWAP_PROPERTIES new_father new_child m;
          m = RB_SET_POSITION new_child other m
      in if rb_nodes m new_child which \<noteq> 0
         then (let m = RB_SET_FATHER (rb_nodes m new_child which) new_child m
               in RB_SET_POSITION (rb_nodes m new_child which) which m)
         else m)"

section \<open>Insertion\<close>

text \<open>Cases 2 and 3 of the rebalancing: the uncle is black.\<close>

definition insert_rotate :: "u64 \<Rightarrow> u64 \<Rightarrow> u64 \<Rightarrow> u64 \<Rightarrow> bool \<Rightarrow> rb_mem \<Rightarrow> rb_mem" where
  "insert_rotate rbt self father grandpa which m =
     (let other = (\<not> which);
          m = (if self = rb_nodes m father other then rb_tree_reparent_nodes father other m else m);
          m = rb_tree_reparent_nodes grandpa which m
      in RB_MARK_BLACK (rbt_root rbt m) m)"

partial_function (option) rb_tree_insert_rebalance :: "u64 \<Rightarrow> u64 \<Rightarrow> u64 \<Rightarrow> rb_mem \<Rightarrow> rb_mem option" where [code]:
  "rb_tree_insert_rebalance rbt self father m =
     (let grandpa = RB_FATHER m father;
          which = (father = rb_nodes m grandpa True);
          other = (\<not> which);
          uncle = rb_nodes m grandpa other
      in if RB_BLACK_P m uncle then Some (insert_rotate rbt self father grandpa which m)
         else let m = RB_MARK_BLACK uncle m;
                  m = RB_MARK_BLACK father m
              in if RB_ROOT_P rbt m grandpa then Some m
                 else let m = RB_MARK_RED grandpa m;
                          self = grandpa;
                          father = RB_FATHER m self
                      in if RB_BLACK_P m father then Some m
                         else rb_tree_insert_rebalance rbt self father m)"

text \<open>Where the new leaf goes: \<open>Inl\<close> an object that compares equal, or the father and the side.\<close>

partial_function (option) insert_descend ::
  "u64 \<Rightarrow> (u64 \<Rightarrow> u64 \<Rightarrow> int) \<Rightarrow> u64 \<Rightarrow> rb_mem \<Rightarrow> u64 \<Rightarrow> u64 \<Rightarrow> bool \<Rightarrow> (u64 + u64 \<times> bool) option" where [code]:
  "insert_descend off compare_nodes object m tmp parent position =
     (if tmp = 0 then Some (Inr (parent, position))
      else let tobj = tmp - off; diff = compare_nodes tobj object
           in if diff = 0 then Some (Inl tobj)
              else insert_descend off compare_nodes object m (rb_nodes m tmp (diff < 0)) tmp (diff < 0))"

definition rb_tree_insert_node ::
  "u64 \<Rightarrow> u64 \<Rightarrow> (u64 \<Rightarrow> u64 \<Rightarrow> int) \<Rightarrow> u64 \<Rightarrow> rb_tree \<Rightarrow> (u64 \<times> rb_tree) option" where
  "rb_tree_insert_node rbt off compare_nodes object t =
     do { let self = object + off;
          place \<leftarrow> insert_descend off compare_nodes object (rb_mem t) (rbt_root rbt (rb_mem t)) rbt False;
          case place of
            Inl tobj \<Rightarrow> Some (tobj, t)
          | Inr (parent, position) \<Rightarrow>
              do { let t = upd_mem (RB_SET_FATHER self parent) t;
                   let t = upd_mem (RB_SET_POSITION self position) t;
                   let (rebalance, t) =
                     (if parent = rbt
                      then (False, set_minmax True self (set_minmax False self (upd_mem (RB_MARK_BLACK self) t)))
                      else (let t = (if parent = rbt_minmax t position then set_minmax position self t else t);
                                t = upd_mem (RB_MARK_RED self) t
                            in (RB_RED_P (rb_mem t) parent, t)));
                   let t = upd_mem (set_nodes self False (rb_nodes (rb_mem t) parent position)) t;
                   let t = upd_mem (set_nodes self True (rb_nodes (rb_mem t) parent position)) t;
                   let t = upd_mem (set_nodes parent position self) t;
                   if rebalance
                   then do { m \<leftarrow> rb_tree_insert_rebalance rbt self (RB_FATHER (rb_mem t) self) (rb_mem t);
                             Some (object, t\<lparr>rb_mem := m\<rparr>) }
                   else Some (object, t) } }"

section \<open>Iteration\<close>

partial_function (option) iterate_up :: "u64 \<Rightarrow> u64 \<Rightarrow> bool \<Rightarrow> rb_mem \<Rightarrow> u64 \<Rightarrow> u64 option" where [code]:
  "iterate_up rbt off other m self =
     (if RB_ROOT_P rbt m self then Some 0
      else if other = RB_POSITION m self then Some (RB_FATHER m self - off)
      else iterate_up rbt off other m (RB_FATHER m self))"

partial_function (option) iterate_down :: "bool \<Rightarrow> rb_mem \<Rightarrow> u64 \<Rightarrow> u64 option" where [code]:
  "iterate_down other m self =
     (if rb_nodes m self other = 0 then Some self else iterate_down other m (rb_nodes m self other))"

definition rb_tree_iterate :: "u64 \<Rightarrow> u64 \<Rightarrow> u64 \<Rightarrow> bool \<Rightarrow> rb_tree \<Rightarrow> u64 option" where
  "rb_tree_iterate rbt off object direction t =
     (let other = (\<not> direction); m = rb_mem t
      in if object = 0
         then (if rbt_root rbt m = 0 then Some 0 else Some (rbt_minmax t direction - off))
         else (let self = object + off
               in if rb_nodes m self direction = 0
                  then iterate_up rbt off other m self
                  else do { p \<leftarrow> iterate_down other m (rb_nodes m self direction); Some (p - off) }))"

section \<open>Removal\<close>

text \<open>The loop of the rebalancing. \<open>remove_rotate\<close> is its last part, cases 2b, 3 and 4.\<close>

definition remove_rotate :: "u64 \<Rightarrow> bool \<Rightarrow> u64 \<Rightarrow> rb_mem \<Rightarrow> rb_mem" where
  "remove_rotate parent which brother m =
     (let other = (\<not> which)
      in if RB_RED_P m parent \<and> RB_BLACK_P m brother \<and>
            RB_BLACK_P m (rb_nodes m brother False) \<and> RB_BLACK_P m (rb_nodes m brother True)
         then (let m = RB_MARK_BLACK parent m in RB_MARK_RED brother m)
         else (let (brother, m) =
                 (if RB_BLACK_P m (rb_nodes m brother other)
                  then (let m = rb_tree_reparent_nodes brother which m in (rb_nodes m parent other, m))
                  else (brother, m));
                   m = RB_MARK_BLACK (rb_nodes m brother other) m
               in rb_tree_reparent_nodes parent other m))"

partial_function (option) rb_tree_removal_rebalance :: "u64 \<Rightarrow> u64 \<Rightarrow> bool \<Rightarrow> rb_mem \<Rightarrow> rb_mem option" where [code]:
  "rb_tree_removal_rebalance rbt parent which m =
     (if \<not> RB_BLACK_P m (rb_nodes m parent which) then Some m
      else let other = (\<not> which); brother = rb_nodes m parent other
           in if RB_BLACK_P m parent \<and>
                 RB_BLACK_P m (rb_nodes m brother False) \<and> RB_BLACK_P m (rb_nodes m brother True)
              then (if RB_RED_P m brother
                    then (let m = rb_tree_reparent_nodes parent other m;
                              brother = rb_nodes m parent other
                          in Some (remove_rotate parent which brother m))
                    else (let m = RB_MARK_RED brother m
                          in if RB_ROOT_P rbt m parent then Some m
                             else rb_tree_removal_rebalance rbt (RB_FATHER m parent) (RB_POSITION m parent) m))
              else Some (remove_rotate parent which brother m))"

definition rb_tree_prune_node :: "u64 \<Rightarrow> u64 \<Rightarrow> bool \<Rightarrow> rb_tree \<Rightarrow> rb_tree option" where
  "rb_tree_prune_node rbt self rebalance t =
     (let which = RB_POSITION (rb_mem t) self;
          father = RB_FATHER (rb_mem t) self;
          was_root = RB_ROOT_P rbt (rb_mem t) self;
          t = upd_mem (set_nodes father which (rb_nodes (rb_mem t) self False)) t;
          t = (if rbt_minmax t (RB_POSITION (rb_mem t) self) = self
               then (let t = set_minmax (RB_POSITION (rb_mem t) self) father t
                     in if was_root then set_minmax True father t else t)
               else t);
          t = upd_mem (RB_SET_FATHER self 0) t
      in if rebalance
         then do { m \<leftarrow> rb_tree_removal_rebalance rbt father which (rb_mem t); Some (t\<lparr>rb_mem := m\<rparr>) }
         else Some t)"

definition rb_tree_prune_blackred_branch :: "u64 \<Rightarrow> u64 \<Rightarrow> bool \<Rightarrow> rb_tree \<Rightarrow> rb_tree" where
  "rb_tree_prune_blackred_branch rbt self which t =
     (let father = RB_FATHER (rb_mem t) self;
          son = rb_nodes (rb_mem t) self which;
          was_root = RB_ROOT_P rbt (rb_mem t) self;
          t = upd_mem (RB_COPY_PROPERTIES son self) t;
          t = upd_mem (set_nodes father (RB_POSITION (rb_mem t) son) son) t;
          t = upd_mem (RB_SET_FATHER son father) t;
          t = (if was_root then set_minmax (\<not> which) son t
               else if rbt_minmax t (RB_POSITION (rb_mem t) self) = self
               then set_minmax (RB_POSITION (rb_mem t) self) son t
               else t)
      in upd_mem (RB_SET_FATHER self 0) t)"

definition rb_tree_swap_prune_and_rebalance :: "u64 \<Rightarrow> u64 \<Rightarrow> u64 \<Rightarrow> rb_tree \<Rightarrow> rb_tree option" where
  "rb_tree_swap_prune_and_rebalance rbt self standin t =
     (let m = rb_mem t;
          standin_which = RB_POSITION m standin;
          standin_other = (\<not> standin_which);
          standin_father = RB_FATHER m standin;
          rebalance = RB_BLACK_P m standin;
          standin_son = (if standin_father = self then rb_nodes m standin standin_which
                         else rb_nodes m standin standin_other);
          (rebalance, m) =
            (if RB_RED_P m standin_son
             then (False, let m = RB_MARK_BLACK standin_son m
                          in if standin_father = self then m
                             else (let m = RB_SET_FATHER standin_son standin_father m
                                   in RB_SET_POSITION standin_son standin_which m))
             else (rebalance, m));
          (standin_father, standin_other, m) =
            (if standin_father = self then (standin, standin_other, m)
             else (let m = set_nodes standin_father standin_which standin_son m;
                       m = set_nodes standin standin_other (rb_nodes m self standin_other) m;
                       m = RB_SET_FATHER (rb_nodes m standin standin_other) standin m
                   in (standin_father, standin_which, m)));
          m = set_nodes standin standin_other (rb_nodes m self standin_other) m;
          m = RB_SET_FATHER (rb_nodes m standin standin_other) standin m;
          m = RB_COPY_PROPERTIES standin self m;
          m = RB_SET_FATHER standin (RB_FATHER m self) m;
          m = set_nodes (RB_FATHER m standin) (RB_POSITION m standin) standin m;
          t = t\<lparr>rb_mem := m\<rparr>;
          t = (if rbt_minmax t (RB_POSITION m self) = self
               then set_minmax (RB_POSITION m self) (RB_FATHER m self) t else t);
          t = upd_mem (RB_SET_FATHER self 0) t
      in if \<not> rebalance then Some t
         else do { m \<leftarrow> rb_tree_removal_rebalance rbt standin_father standin_which (rb_mem t);
                   Some (t\<lparr>rb_mem := m\<rparr>) })"

definition rb_tree_remove_node :: "u64 \<Rightarrow> u64 \<Rightarrow> u64 \<Rightarrow> rb_tree \<Rightarrow> rb_tree option" where
  "rb_tree_remove_node rbt off object t =
     (let self = object + off; m = rb_mem t
      in if RB_CHILDLESS_P m self
         then (let rebalance = (RB_BLACK_P m self \<and> \<not> RB_ROOT_P rbt m self)
               in rb_tree_prune_node rbt self rebalance t)
         else if \<not> RB_TWOCHILDREN_P m self
         then (let which = (rb_nodes m self False = 0)
               in Some (rb_tree_prune_blackred_branch rbt self which t))
         else (let which = (\<not> RB_POSITION m self)
               in do { standin \<leftarrow> rb_tree_iterate rbt off object which t;
                       rb_tree_swap_prune_and_rebalance rbt self (standin + off) t }))"

section \<open>Vocabulary of the proofs\<close>

definition redp :: "rb_mem \<Rightarrow> u64 \<Rightarrow> bool" where
  "redp m p \<longleftrightarrow> bit (rb_info (m p)) 0"

definition al :: "u64 \<Rightarrow> bool" where
  "al p \<longleftrightarrow> p AND 3 = 0"

section \<open>The packed word\<close>

lemma and_1_2_bit: "w AND 1 = 0 \<longleftrightarrow> \<not> bit w 0" "w AND 2 = 0 \<longleftrightarrow> \<not> bit w 1" for w :: "'a::len word"
  using and_exp_eq_0_iff_not_bit [of w 0] and_exp_eq_0_iff_not_bit [of w 1] by simp_all

lemma bit_123:
  "bit (1::u64) j \<longleftrightarrow> j = 0" "bit (2::u64) j \<longleftrightarrow> j = 1" "bit (3::u64) j \<longleftrightarrow> j = 0 \<or> j = 1"
proof -
  show "bit (1::u64) j \<longleftrightarrow> j = 0" by (simp add: bit_1_iff)
  have "bit (2 ^ 1 :: u64) j \<longleftrightarrow> j = 1" by (simp only: bit_exp_iff) auto
  then show "bit (2::u64) j \<longleftrightarrow> j = 1" by (simp only: power_one_right)
  have "(3::u64) = mask 2" by (simp add: mask_numeral)
  then show "bit (3::u64) j \<longleftrightarrow> j = 0 \<or> j = 1" by (simp only: bit_mask_iff) (auto simp: less_2_cases_iff)
qed

lemma bit_not64: "bit (NOT n) j \<longleftrightarrow> j < 64 \<and> \<not> bit n j" for n :: u64
  unfolding bit_not_iff by simp

lemma lt64: "0 < (64::nat)" "1 < (64::nat)" by simp_all

lemmas info_bits = bit_and_iff bit_or_iff bit_xor_iff bit_not64 bit_123 zero_neq_one one_neq_zero lt64

lemma word_bits_eqI: "(\<And>j. j < 64 \<Longrightarrow> bit a j = bit b j) \<Longrightarrow> a = b" for a b :: u64
  by (rule bit_word_eqI) simp

lemma al_bits: "al p \<longleftrightarrow> \<not> bit p 0 \<and> \<not> bit p 1"
proof
  assume "al p"
  then have "\<not> bit (p AND 3) 0" "\<not> bit (p AND 3) 1" unfolding al_def by simp_all
  then show "\<not> bit p 0 \<and> \<not> bit p 1" unfolding info_bits by blast
next
  assume "\<not> bit p 0 \<and> \<not> bit p 1"
  then have "p AND 3 = 0" by (intro word_bits_eqI) (auto simp only: info_bits bit_0_eq)
  then show "al p" by (simp add: al_def)
qed

lemma al_0 [simp]: "al 0" by (simp add: al_def)

lemma RB_POSITION_bit: "RB_POSITION m p \<longleftrightarrow> bit (rb_info (m p)) 1"
  by (simp add: RB_POSITION_def and_1_2_bit)

lemma RB_RED_redp: "RB_RED_P m p \<longleftrightarrow> p \<noteq> 0 \<and> redp m p"
  by (simp add: RB_RED_P_def redp_def and_1_2_bit)

lemma RB_BLACK_redp: "RB_BLACK_P m p \<longleftrightarrow> p = 0 \<or> \<not> redp m p"
  by (simp add: RB_BLACK_P_def redp_def and_1_2_bit)

lemma al_father [simp]: "al (RB_FATHER m p)"
  unfolding al_bits RB_FATHER_def info_bits by blast

lemma father_pack: "al f \<Longrightarrow> (f OR (i AND 3)) AND NOT 3 = f"
  by (rule word_bits_eqI) (auto simp only: info_bits al_bits)

lemma father_keep:
  "(i OR 1) AND NOT 3 = i AND NOT 3" "(i AND NOT 1) AND NOT 3 = i AND NOT 3"
  "(i OR 2) AND NOT 3 = i AND NOT 3" "(i AND NOT 2) AND NOT 3 = i AND NOT 3"
  "(i XOR (x AND 3)) AND NOT 3 = i AND NOT 3" for i x :: u64
  by (rule word_bits_eqI, auto simp only: info_bits)+

section \<open>Reading a memory after a write\<close>

lemma rb_nodes_set [simp]:
  "rb_nodes (set_nodes p d v m) q e = (if q = p \<and> e = d then v else rb_nodes m q e)"
  by (auto simp: rb_nodes_def set_nodes_def)

lemma info_set_nodes [simp]: "rb_info (set_nodes p d v m q) = rb_info (m q)"
  by (simp add: set_nodes_def)

lemma info_upd [simp]: "rb_info (upd_info p f m q) = (if q = p then f (rb_info (m p)) else rb_info (m q))"
  by (simp add: upd_info_def)

lemma rb_nodes_upd_info [simp]: "rb_nodes (upd_info p f m) q e = rb_nodes m q e"
  by (simp add: rb_nodes_def upd_info_def)

lemma set_nodes_info [simp]:
  "RB_FATHER (set_nodes p d v m) q = RB_FATHER m q" "RB_POSITION (set_nodes p d v m) q = RB_POSITION m q"
  "redp (set_nodes p d v m) q = redp m q"
  by (simp_all add: RB_FATHER_def RB_POSITION_def redp_def)

lemma father_set_father [simp]:
  assumes "al f" shows "RB_FATHER (RB_SET_FATHER p f m) q = (if q = p then f else RB_FATHER m q)"
  using father_pack [OF assms] by (simp only: RB_SET_FATHER_def RB_FATHER_def info_upd if_True if_False split: if_split) blast

lemma set_father [simp]:
  "rb_nodes (RB_SET_FATHER p f m) q e = rb_nodes m q e"
  "al f \<Longrightarrow> RB_POSITION (RB_SET_FATHER p f m) q = RB_POSITION m q"
  "al f \<Longrightarrow> redp (RB_SET_FATHER p f m) q = redp m q"
  by (simp_all only: RB_SET_FATHER_def RB_POSITION_bit redp_def info_upd rb_nodes_upd_info)
    (auto simp only: info_bits al_bits split: if_splits)

lemma set_position [simp]:
  "rb_nodes (RB_SET_POSITION p d m) q e = rb_nodes m q e"
  "RB_FATHER (RB_SET_POSITION p d m) q = RB_FATHER m q"
  "RB_POSITION (RB_SET_POSITION p d m) q = (if q = p then d else RB_POSITION m q)"
  "redp (RB_SET_POSITION p d m) q = redp m q"
  by (simp_all only: RB_SET_POSITION_def RB_FATHER_def RB_POSITION_bit redp_def info_upd rb_nodes_upd_info)
    (auto simp only: father_keep info_bits split: if_splits)

lemma mark_red [simp]:
  "rb_nodes (RB_MARK_RED p m) q e = rb_nodes m q e" "RB_FATHER (RB_MARK_RED p m) q = RB_FATHER m q"
  "RB_POSITION (RB_MARK_RED p m) q = RB_POSITION m q" "redp (RB_MARK_RED p m) q = (q = p \<or> redp m q)"
  by (simp_all only: RB_MARK_RED_def RB_FATHER_def RB_POSITION_bit redp_def info_upd rb_nodes_upd_info)
    (auto simp only: father_keep info_bits split: if_splits)

lemma mark_black [simp]:
  "rb_nodes (RB_MARK_BLACK p m) q e = rb_nodes m q e" "RB_FATHER (RB_MARK_BLACK p m) q = RB_FATHER m q"
  "RB_POSITION (RB_MARK_BLACK p m) q = RB_POSITION m q" "redp (RB_MARK_BLACK p m) q = (q \<noteq> p \<and> redp m q)"
  by (simp_all only: RB_MARK_BLACK_def RB_FATHER_def RB_POSITION_bit redp_def info_upd rb_nodes_upd_info)
    (auto simp only: father_keep info_bits split: if_splits)

lemma copy_properties [simp]:
  "rb_nodes (RB_COPY_PROPERTIES a b m) q e = rb_nodes m q e"
  "RB_FATHER (RB_COPY_PROPERTIES a b m) q = RB_FATHER m q"
  "RB_POSITION (RB_COPY_PROPERTIES a b m) q = RB_POSITION m (if q = a then b else q)"
  "redp (RB_COPY_PROPERTIES a b m) q = redp m (if q = a then b else q)"
  by (simp_all only: RB_COPY_PROPERTIES_def RB_FATHER_def RB_POSITION_bit redp_def info_upd rb_nodes_upd_info)
    (auto simp only: father_keep info_bits split: if_splits)

lemma swap_properties [simp]:
  "rb_nodes (RB_SWAP_PROPERTIES a b m) q e = rb_nodes m q e"
  "RB_FATHER (RB_SWAP_PROPERTIES a b m) q = RB_FATHER m q"
  "a \<noteq> b \<Longrightarrow> RB_POSITION (RB_SWAP_PROPERTIES a b m) q = RB_POSITION m (if q = a then b else if q = b then a else q)"
  "a \<noteq> b \<Longrightarrow> redp (RB_SWAP_PROPERTIES a b m) q = redp m (if q = a then b else if q = b then a else q)"
  by (simp_all only: RB_SWAP_PROPERTIES_def Let_def RB_FATHER_def RB_POSITION_bit redp_def info_upd rb_nodes_upd_info)
    (auto simp only: father_keep info_bits split: if_splits)

section \<open>Properties\<close>

text \<open>
  C29. Exchanging the flags of two nodes with the exclusive-or trick of \<^verbatim>\<open>RB_SWAP_PROPERTIES\<close> does what the
  disabled copy through a temporary node does: every node other than the temporary one ends up the same.
\<close>

theorem rb_swap_properties_equiv:
  assumes "a \<noteq> b" "tmp \<noteq> a" "tmp \<noteq> b" "q \<noteq> tmp"
  shows "RB_SWAP_PROPERTIES a b m q = swap_by_copy tmp a b m q"
proof -
  have x: "(w XOR v) AND 3 = (v XOR (w AND 3)) AND 3" for v w :: u64
    by (rule word_bits_eqI) (simp only: info_bits, blast)
  have i: "rb_info (RB_SWAP_PROPERTIES a b m q) = rb_info (swap_by_copy tmp a b m q)"
    using assms x [of "rb_info (m a)" "rb_info (m b)"]
    by (auto simp: RB_SWAP_PROPERTIES_def swap_by_copy_def RB_COPY_PROPERTIES_def Let_def)
  have n: "rb_nodes (RB_SWAP_PROPERTIES a b m) q e = rb_nodes (swap_by_copy tmp a b m) q e" for e
    by (simp add: swap_by_copy_def Let_def)
  show ?thesis
    using i n [of False] n [of True] by (simp add: rb_nodes_def)
qed

theorem rb_swap_properties_equiv_witness:
  "RB_SWAP_PROPERTIES 8 16 (\<lambda>p. \<lparr>rb_left = 0, rb_right = 0, rb_info = if p = 8 then 1 else 2\<rparr>) 8 =
   swap_by_copy 24 8 16 (\<lambda>p. \<lparr>rb_left = 0, rb_right = 0, rb_info = if p = 8 then 1 else 2\<rparr>) 8"
  by (rule rb_swap_properties_equiv) simp_all

end
