(* ===== verification/Rbtree_Heap.thy ===== *)
theory Rbtree_Heap
  imports Rbtree "HOL-Library.Multiset"
begin

text \<open>
  How the memory of \<open>Rbtree\<close> holds a tree: the tree of node addresses with their colours, the context of
  a subtree in it, and what rotations and colour changes of the code do to both. All pointer reasoning on
  existing links is here.
\<close>

section \<open>Vocabulary of the proofs\<close>

datatype ptree = Lf | Nd bool ptree u64 ptree

text \<open>A node with subtree \<open>a\<close> on side \<open>d\<close> and \<open>b\<close> on the other side.\<close>

definition mk :: "bool \<Rightarrow> bool \<Rightarrow> u64 \<Rightarrow> ptree \<Rightarrow> ptree \<Rightarrow> ptree" where
  "mk d c x a b = (if d then Nd c b x a else Nd c a x b)"

primrec inord :: "ptree \<Rightarrow> u64 list" where
  "inord Lf = []"
| "inord (Nd c l x r) = inord l @ x # inord r"

primrec rep :: "rb_mem \<Rightarrow> u64 \<Rightarrow> bool \<Rightarrow> u64 \<Rightarrow> ptree \<Rightarrow> bool" where
  "rep m f d p Lf \<longleftrightarrow> p = 0"
| "rep m f d p (Nd c l x r) \<longleftrightarrow>
     p = x \<and> x \<noteq> 0 \<and> al x \<and> RB_FATHER m x = f \<and> RB_POSITION m x = d \<and> redp m x = c \<and>
     rep m x False (rb_nodes m x False) l \<and> rep m x True (rb_nodes m x True) r"

type_synonym rbctx = "(bool \<times> bool \<times> u64 \<times> ptree) list"

primrec plug :: "ptree \<Rightarrow> rbctx \<Rightarrow> ptree" where
  "plug t [] = t"
| "plug t (fr # K) = (case fr of (d, c, x, b) \<Rightarrow> plug (mk d c x t b) K)"

primrec kp :: "rbctx \<Rightarrow> u64 list" where
  "kp [] = []"
| "kp (fr # K) = (case fr of (d, c, x, b) \<Rightarrow> x # inord b @ kp K)"

definition kf :: "u64 \<Rightarrow> rbctx \<Rightarrow> u64" where
  "kf rt K = (case K of [] \<Rightarrow> rt | (d, c, x, b) # _ \<Rightarrow> x)"

definition kd :: "rbctx \<Rightarrow> bool" where
  "kd K = (case K of [] \<Rightarrow> False | (d, c, x, b) # _ \<Rightarrow> d)"

primrec repk :: "rb_mem \<Rightarrow> u64 \<Rightarrow> rbctx \<Rightarrow> bool" where
  "repk m rt [] \<longleftrightarrow> True"
| "repk m rt (fr # K) \<longleftrightarrow> (case fr of (d, c, x, b) \<Rightarrow>
     x \<noteq> 0 \<and> al x \<and> RB_FATHER m x = kf rt K \<and> RB_POSITION m x = kd K \<and> redp m x = c \<and>
     rb_nodes m (kf rt K) (kd K) = x \<and> rep m x (\<not> d) (rb_nodes m x (\<not> d)) b \<and> repk m rt K)"

text \<open>The memory holds the tree \<open>T\<close>, rooted at the tree's own address \<open>rt\<close>.\<close>

definition wtree :: "rb_mem \<Rightarrow> u64 \<Rightarrow> ptree \<Rightarrow> bool" where
  "wtree m rt T \<longleftrightarrow> rt \<noteq> 0 \<and> al rt \<and> distinct (rt # inord T) \<and> rep m rt False (rb_nodes m rt False) T"

definition same_info :: "rb_mem \<Rightarrow> rb_mem \<Rightarrow> u64 \<Rightarrow> bool" where
  "same_info m m' x \<longleftrightarrow> RB_FATHER m' x = RB_FATHER m x \<and> RB_POSITION m' x = RB_POSITION m x \<and> redp m' x = redp m x"

section \<open>Trees in memory\<close>

lemma inord_mk: "mset (inord (mk d c x a b)) = add_mset x (mset (inord a) + mset (inord b))"
  by (simp add: mk_def)

lemma set_inord_mk [simp]: "set (inord (mk d c x a b)) = insert x (set (inord a) \<union> set (inord b))"
  by (auto simp: mk_def)

lemma distinct_inord_mk [simp]: "distinct (inord (mk d c x a b)) \<longleftrightarrow>
    x \<notin> set (inord a) \<and> x \<notin> set (inord b) \<and> distinct (inord a) \<and> distinct (inord b) \<and>
    set (inord a) \<inter> set (inord b) = {}"
  by (auto simp: mk_def)

lemma rep_mk [simp]: "rep m f e p (mk d c x a b) \<longleftrightarrow>
     p = x \<and> x \<noteq> 0 \<and> al x \<and> RB_FATHER m x = f \<and> RB_POSITION m x = e \<and> redp m x = c \<and>
     rep m x d (rb_nodes m x d) a \<and> rep m x (\<not> d) (rb_nodes m x (\<not> d)) b"
  by (cases d) (auto simp: mk_def)

lemma kf_simps [simp]: "kf rt [] = rt" "kf rt ((d, c, x, b) # K) = x"
  by (simp_all add: kf_def)

lemma kd_simps [simp]: "kd [] = False" "kd ((d, c, x, b) # K) = d"
  by (simp_all add: kd_def)

lemma kf_in: "kf rt K \<in> insert rt (set (kp K))"
  by (cases K) (auto simp: kf_def)

lemma mset_plug: "mset (inord (plug t K)) = mset (inord t) + mset (kp K)"
  by (induction K arbitrary: t) (auto simp: inord_mk split: prod.splits)

lemma distinct_plug: "distinct (inord (plug t K)) \<longleftrightarrow>
    distinct (inord t) \<and> distinct (kp K) \<and> set (inord t) \<inter> set (kp K) = {}"
  by (metis mset_plug distinct_append mset_append mset_eq_imp_distinct_iff)

lemma set_plug: "set (inord (plug t K)) = set (inord t) \<union> set (kp K)"
  by (metis mset_plug set_mset_mset set_mset_union)

lemma rep_plug: "rep m rt False (rb_nodes m rt False) (plug t K) \<longleftrightarrow>
    repk m rt K \<and> rep m (kf rt K) (kd K) (rb_nodes m (kf rt K) (kd K)) t"
  by (induction K arbitrary: t) (auto split: prod.splits)

lemma wtree_plug: "wtree m rt (plug t K) \<longleftrightarrow>
    rt \<noteq> 0 \<and> al rt \<and> rt \<notin> set (inord t) \<and> rt \<notin> set (kp K) \<and> distinct (inord t) \<and> distinct (kp K) \<and>
    set (inord t) \<inter> set (kp K) = {} \<and> repk m rt K \<and>
    rep m (kf rt K) (kd K) (rb_nodes m (kf rt K) (kd K)) t"
  unfolding wtree_def rep_plug distinct.simps set_plug distinct_plug by blast

lemma wtree_plugD:
  assumes "wtree m rt (plug t K)"
  shows "repk m rt K" "rep m (kf rt K) (kd K) (rb_nodes m (kf rt K) (kd K)) t"
    "distinct (inord t)" "distinct (kp K)" "rt \<notin> set (kp K)" "set (inord t) \<inter> set (kp K) = {}" "rt \<notin> set (inord t)"
    "rt \<noteq> 0" "al rt"
  using assms unfolding wtree_plug by simp_all

lemma wtree_plugI:
  assumes "wtree m rt (plug t K)" "set (inord t') \<subseteq> set (inord t)" "distinct (inord t')" "repk m' rt K"
    "rep m' (kf rt K) (kd K) (rb_nodes m' (kf rt K) (kd K)) t'"
  shows "wtree m' rt (plug t' K)"
  unfolding wtree_plug using wtree_plugD [OF assms(1)] assms(2-) by blast

lemma rep_mkD:
  assumes "rep m f e p (mk d c x a b)"
  shows "p = x" "x \<noteq> 0" "al x" "RB_FATHER m x = f" "RB_POSITION m x = e" "redp m x = c"
     "rep m x d (rb_nodes m x d) a" "rep m x (\<not> d) (rb_nodes m x (\<not> d)) b"
  using assms unfolding rep_mk by simp_all

lemma rep_0_notin: "rep m f d p t \<Longrightarrow> 0 \<notin> set (inord t)"
  by (induction t arbitrary: f d p) auto

lemma rep_al: "rep m f d p t \<Longrightarrow> x \<in> set (inord t) \<Longrightarrow> al x"
  by (induction t arbitrary: f d p) auto

lemma repk_al: "repk m rt K \<Longrightarrow> x \<in> set (kp K) \<Longrightarrow> al x \<and> x \<noteq> 0"
  by (induction K) (auto split: prod.splits dest: rep_al rep_0_notin)

lemma kf_al: "repk m rt K \<Longrightarrow> al rt \<Longrightarrow> rt \<noteq> 0 \<Longrightarrow> al (kf rt K) \<and> kf rt K \<noteq> 0"
  using kf_in [of rt K] repk_al [of m rt K "kf rt K"] by auto

lemma rep_root_in: "rep m f d p t \<Longrightarrow> p \<noteq> 0 \<Longrightarrow> p \<in> set (inord t)"
  by (cases t) auto

section \<open>Changes outside a tree\<close>

lemma rep_cong:
  "\<forall>x\<in>set (inord t). same_info m m' x \<and> (\<forall>d. rb_nodes m' x d = rb_nodes m x d) \<Longrightarrow> rep m' f d p t = rep m f d p t"
  by (induction t arbitrary: f d p) (auto simp: same_info_def)

lemma rep_move:
  assumes "rep m f d p t" "distinct (inord t)"
    and "\<forall>x\<in>set (inord t). redp m' x = redp m x \<and> (\<forall>d. rb_nodes m' x d = rb_nodes m x d) \<and> (x \<noteq> p \<longrightarrow> same_info m m' x)"
    and "p \<noteq> 0 \<Longrightarrow> RB_FATHER m' p = f' \<and> RB_POSITION m' p = d'"
  shows "rep m' f' d' p t"
proof (cases t)
  case (Nd c l x r)
  have "\<forall>q\<in>set (inord l). same_info m m' q \<and> (\<forall>d. rb_nodes m' q d = rb_nodes m q d)"
    "\<forall>q\<in>set (inord r). same_info m m' q \<and> (\<forall>d. rb_nodes m' q d = rb_nodes m q d)"
    using assms(1-3) Nd by auto
  note C = this [THEN rep_cong]
  show ?thesis using assms Nd by (auto simp: C)
qed (use assms in auto)

lemma repk_cong:
  assumes "repk m rt K" "distinct (kp K)" "rt \<notin> set (kp K)"
    and "\<forall>x\<in>set (kp K). same_info m m' x"
    and "\<forall>x\<in>insert rt (set (kp K)). \<forall>d. (x, d) \<noteq> (kf rt K, kd K) \<longrightarrow> rb_nodes m' x d = rb_nodes m x d"
  shows "repk m' rt K"
  using assms
proof (induction K)
  case (Cons fr K)
  obtain d c x b where fr: "fr = (d, c, x, b)" by (cases fr)
  have x: "x \<notin> set (kp K)" "x \<noteq> rt" "x \<notin> set (inord b)" "set (inord b) \<inter> set (kp K) = {}"
    using Cons.prems(2,3) fr by auto
  have n: "rb_nodes m' q e = rb_nodes m q e" if "q \<in> insert rt (set (kp K))" for q e
    using Cons.prems(5) fr that x by auto
  have "repk m' rt K"
    using Cons.prems fr n by (intro Cons.IH) auto
  moreover have "\<forall>q\<in>set (inord b). same_info m m' q \<and> (\<forall>e. rb_nodes m' q e = rb_nodes m q e)"
  proof
    fix q assume q: "q \<in> set (inord b)"
    then have "q \<noteq> x" using x by auto
    then show "same_info m m' q \<and> (\<forall>e. rb_nodes m' q e = rb_nodes m q e)"
      using Cons.prems(4,5) fr q by auto
  qed
  then have "rep m' x (\<not> d) (rb_nodes m x (\<not> d)) b"
    using Cons.prems(1) fr by (subst rep_cong [where m = m]) auto
  moreover have "rb_nodes m' x (\<not> d) = rb_nodes m x (\<not> d)"
    using Cons.prems(5) fr by auto
  moreover have "rb_nodes m' (kf rt K) (kd K) = rb_nodes m (kf rt K) (kd K)"
    using n kf_in by blast
  ultimately show ?case using Cons.prems(1,4) fr by (auto simp: same_info_def)
qed simp

section \<open>Rotation and colours\<close>

lemma reparent_eqs:
  fixes m x w
  defines "m' \<equiv> rb_tree_reparent_nodes x w m" and "g \<equiv> RB_FATHER m x" and "y \<equiv> rb_nodes m x w"
  defines "ca \<equiv> rb_nodes m y (\<not> w)"
  assumes ne: "x \<noteq> y" "g \<noteq> x" "g \<noteq> y" "ca \<noteq> x" "ca \<noteq> y" "al x" "al y"
  shows "rb_nodes m' q e = (if q = g \<and> e = RB_POSITION m x then y else if q = x \<and> e = w then ca
           else if q = y \<and> e = (\<not> w) then x else rb_nodes m q e)"
    and "RB_FATHER m' q = (if q = y then g else if q = x then y else if q = ca \<and> ca \<noteq> 0 then x else RB_FATHER m q)"
    and "RB_POSITION m' q = (if q = y then RB_POSITION m x else if q = x then \<not> w
           else if q = ca \<and> ca \<noteq> 0 then w else RB_POSITION m q)"
    and "redp m' q = (if q = y then redp m x else if q = x then redp m y else redp m q)"
proof -
  have "al g" by (simp add: g_def)
  define N where "N = set_nodes y (\<not> w) x (set_nodes x w ca (set_nodes g (RB_POSITION m x) y m))"
  define M where "M = RB_SET_POSITION x (\<not> w) (RB_SWAP_PROPERTIES y x (RB_SET_FATHER x y (RB_SET_FATHER y g N)))"
  have NM: "rb_nodes M = rb_nodes N" by (intro ext) (simp add: M_def)
  have Nx: "rb_nodes N x w = ca" using ne by (simp add: N_def)
  have m': "m' = (if ca \<noteq> 0 then RB_SET_POSITION ca w (RB_SET_FATHER ca x M) else M)"
    unfolding m'_def rb_tree_reparent_nodes_def Let_def g_def [symmetric] y_def [symmetric]
    using ne NM [unfolded M_def N_def] Nx [unfolded N_def] unfolding M_def N_def by (simp add: ca_def [symmetric])
  show "rb_nodes m' q e = (if q = g \<and> e = RB_POSITION m x then y else if q = x \<and> e = w then ca
           else if q = y \<and> e = (\<not> w) then x else rb_nodes m q e)"
    using ne by (simp add: m' NM N_def)
  have F: "RB_FATHER M q = (if q = y then g else if q = x then y else RB_FATHER m q)" for q
    using ne \<open>al g\<close> by (simp add: M_def N_def)
  show "RB_FATHER m' q = (if q = y then g else if q = x then y else if q = ca \<and> ca \<noteq> 0 then x else RB_FATHER m q)"
    using ne by (simp add: m' F)
  have P: "RB_POSITION M q = (if q = y then RB_POSITION m x else if q = x then \<not> w else RB_POSITION m q)" for q
    using ne \<open>al g\<close> by (simp add: M_def N_def)
  show "RB_POSITION m' q = (if q = y then RB_POSITION m x else if q = x then \<not> w
           else if q = ca \<and> ca \<noteq> 0 then w else RB_POSITION m q)"
    using ne by (simp add: m' P)
  have C: "redp M q = (if q = y then redp m x else if q = x then redp m y else redp m q)" for q
    using ne \<open>al g\<close> by (simp add: M_def N_def)
  show "redp m' q = (if q = y then redp m x else if q = x then redp m y else redp m q)"
    using ne by (simp add: m' C)
qed

lemma kf_notin: "set (inord t) \<inter> set (kp K) = {} \<Longrightarrow> rt \<notin> set (inord t) \<Longrightarrow> kf rt K \<notin> set (inord t)"
  using kf_in [of rt K] by auto

lemma wtree_reparent:
  assumes "wtree m rt (plug (mk w c x (mk (\<not> w) cy y a b) e) K)"
  shows "wtree (rb_tree_reparent_nodes x w m) rt (plug (mk (\<not> w) c y (mk w cy x a e) b) K)"
proof -
  let ?m = "rb_tree_reparent_nodes x w m" and ?g = "kf rt K" and ?d = "kd K" and ?ca = "rb_nodes m y (\<not> w)"
  note P = wtree_plugD [OF assms]
  note D = P(3-7) and R = P(1)
  note x = rep_mkD(1-6) [OF P(2)] and y = rep_mkD [OF rep_mkD(7) [OF P(2)]]
  note subs = y(7) y(8) [unfolded not_not] rep_mkD(8) [OF P(2)]
  have g: "?g \<notin> {x, y} \<union> set (inord a) \<union> set (inord b) \<union> set (inord e)"
    using kf_notin [OF D(4,5)] by simp
  have d: "x \<noteq> y" "x \<notin> set (inord a)" "x \<notin> set (inord b)" "x \<notin> set (inord e)" "y \<notin> set (inord a)" "y \<notin> set (inord b)"
    "y \<notin> set (inord e)" "distinct (inord a)" "distinct (inord b)" "distinct (inord e)" "set (inord a) \<inter> set (inord b) = {}"
    "set (inord a) \<inter> set (inord e) = {}" "set (inord b) \<inter> set (inord e) = {}"
    using D(1) by auto
  have k: "x \<notin> set (kp K)" "y \<notin> set (kp K)" "set (inord a) \<inter> set (kp K) = {}" "rt \<noteq> x" "rt \<noteq> y" "rt \<notin> set (inord a)"
    using D(4,5) by auto
  have ca: "?ca \<in> insert 0 (set (inord a))" using subs(1) rep_root_in by blast
  have ca2: "?ca \<noteq> x" "?ca \<noteq> y" "?ca \<noteq> 0 \<longrightarrow> ?ca \<notin> set (inord b) \<and> ?ca \<notin> set (inord e) \<and> ?ca \<notin> set (kp K) \<and> ?ca \<noteq> ?g"
    using ca d k g x(2) y(2) by auto
  have gxy: "?g \<noteq> x" "?g \<noteq> y" using g by simp_all
  note E = reparent_eqs [of x m w, unfolded y(1) x(4,5), OF d(1) gxy ca2(1,2) x(3) y(3)]
  have N: "rb_nodes ?m q i = rb_nodes m q i" if "q \<noteq> x" "q \<noteq> y" "q \<noteq> ?g \<or> i \<noteq> ?d" for q i
    using that by (auto simp: E(1))
  have I: "same_info m ?m q" if "q \<noteq> x" "q \<noteq> y" "q \<noteq> ?ca \<or> ?ca = 0" for q
    using that by (auto simp: E(2-4) same_info_def)
  have U: "same_info m ?m q \<and> (\<forall>i. rb_nodes ?m q i = rb_nodes m q i)" if "q \<notin> {x, y, ?g}" "q \<noteq> ?ca \<or> ?ca = 0" for q
    using N I that by simp
  have "repk ?m rt K"
  proof (rule repk_cong [OF R D(2,3)]; intro ballI allI impI)
    fix q assume q: "q \<in> set (kp K)"
    show "same_info m ?m q" by (rule I) (use q k ca2 in auto)
  next
    fix q i assume "q \<in> insert rt (set (kp K))" "(q, i) \<noteq> (?g, ?d)"
    then show "rb_nodes ?m q i = rb_nodes m q i" by (intro N) (use k in auto)
  qed
  moreover have "rep ?m x w ?ca a"
  proof (rule rep_move [OF subs(1) d(8)])
    have "redp ?m q = redp m q \<and> (\<forall>i. rb_nodes ?m q i = rb_nodes m q i) \<and> (q \<noteq> ?ca \<longrightarrow> same_info m ?m q)"
      if "q \<in> set (inord a)" for q
    proof -
      have q: "q \<noteq> x" "q \<noteq> y" "q \<noteq> ?g" using that d(2,5) g by auto
      then show ?thesis using N I by (simp add: E(4))
    qed
    then show "\<forall>q\<in>set (inord a). redp ?m q = redp m q \<and> (\<forall>i. rb_nodes ?m q i = rb_nodes m q i) \<and> (q \<noteq> ?ca \<longrightarrow> same_info m ?m q)"
      by blast
    show "?ca \<noteq> 0 \<Longrightarrow> RB_FATHER ?m ?ca = x \<and> RB_POSITION ?m ?ca = w" using ca2 by (simp add: E(2,3))
  qed
  moreover have "rep ?m y w (rb_nodes m y w) b"
  proof -
    have "\<forall>q\<in>set (inord b). same_info m ?m q \<and> (\<forall>i. rb_nodes ?m q i = rb_nodes m q i)"
      by (intro ballI U) (use d(3,6) g ca2 in auto)
    from rep_cong [OF this] subs(2) show ?thesis by simp
  qed
  moreover have "rep ?m x (\<not> w) (rb_nodes m x (\<not> w)) e"
  proof -
    have "\<forall>q\<in>set (inord e). same_info m ?m q \<and> (\<forall>i. rb_nodes ?m q i = rb_nodes m q i)"
      by (intro ballI U) (use d(4,7) g ca2 in auto)
    from rep_cong [OF this] subs(3) show ?thesis by simp
  qed
  moreover have "rb_nodes ?m ?g ?d = y" "rb_nodes ?m y (\<not> w) = x" "rb_nodes ?m y w = rb_nodes m y w" "rb_nodes ?m x w = ?ca"
    "rb_nodes ?m x (\<not> w) = rb_nodes m x (\<not> w)"
    using d(1) gxy gxy [symmetric] by (simp_all add: E(1))
  moreover have "RB_FATHER ?m y = ?g" "RB_POSITION ?m y = ?d" "redp ?m y = c" "RB_FATHER ?m x = y" "RB_POSITION ?m x = (\<not> w)" "redp ?m x = cy"
    using d(1) x(6) y(6) by (simp_all add: E(2-4))
  ultimately have "repk ?m rt K" "rep ?m ?g ?d (rb_nodes ?m ?g ?d) (mk (\<not> w) c y (mk w cy x a e) b)"
    using x(2,3) y(2,3) by simp_all
  then show ?thesis
    using d by (intro wtree_plugI [OF assms]) auto
qed

lemma wtree_mark:
  assumes "wtree m rt (plug (Nd c l x r) K)"
  shows "wtree (RB_MARK_RED x m) rt (plug (Nd True l x r) K)" "wtree (RB_MARK_BLACK x m) rt (plug (Nd False l x r) K)"
proof -
  have R: "repk m rt K" and D: "distinct (kp K)" "rt \<notin> set (kp K)" "x \<notin> set (kp K)"
    using assms unfolding wtree_plug by auto
  have "repk (RB_MARK_RED x m) rt K" "repk (RB_MARK_BLACK x m) rt K"
    by (rule repk_cong [OF R D(1,2)]; use D(3) in \<open>auto simp: same_info_def\<close>)+
  moreover have "rep (RB_MARK_RED x m) x d p t = rep m x d p t" "rep (RB_MARK_BLACK x m) x d p t = rep m x d p t"
    if "x \<notin> set (inord t)" for d p t
    by (rule rep_cong; use that in \<open>auto simp: same_info_def\<close>)+
  ultimately show "wtree (RB_MARK_RED x m) rt (plug (Nd True l x r) K)" "wtree (RB_MARK_BLACK x m) rt (plug (Nd False l x r) K)"
    using assms unfolding wtree_plug by auto
qed

end
