(* ===== verification/Rbtree_Insert.thy ===== *)
theory Rbtree_Insert
  imports Rbtree_Heap
begin

text \<open>
  Red-black trees as invariants of subtree and context, and the correctness of the look-up and of the
  insertion of \<^verbatim>\<open>libec/rb.c\<close>: where the new node goes, that the rebalancing loop ends, and that the result is
  again a red-black tree, with its minimum and maximum tracked.
\<close>

section \<open>Vocabulary of the proofs\<close>

primrec rootred :: "ptree \<Rightarrow> bool" where
  "rootred Lf = False"
| "rootred (Nd c l x r) = c"

primrec rp :: "ptree \<Rightarrow> u64" where
  "rp Lf = 0"
| "rp (Nd c l x r) = x"

primrec bh :: "ptree \<Rightarrow> nat" where
  "bh Lf = 0"
| "bh (Nd c l x r) = bh l + (if c then 0 else 1)"

primrec rbv :: "ptree \<Rightarrow> bool" where
  "rbv Lf = True"
| "rbv (Nd c l x r) = (rbv l \<and> rbv r \<and> bh l = bh r \<and> (c \<longrightarrow> \<not> rootred l \<and> \<not> rootred r))"

text \<open>A subtree of black height \<open>n\<close> whose root is red iff \<open>c\<close> can be put in the hole.\<close>

primrec kinv :: "rbctx \<Rightarrow> nat \<Rightarrow> bool \<Rightarrow> bool" where
  "kinv [] n c = (\<not> c)"
| "kinv (fr # K) n c = (case fr of (d, cf, x, b) \<Rightarrow>
     rbv b \<and> bh b = n \<and> (cf \<longrightarrow> \<not> c \<and> \<not> rootred b) \<and> kinv K (if cf then n else Suc n) cf)"

primrec kl :: "rbctx \<Rightarrow> u64 list" where
  "kl [] = []"
| "kl (fr # K) = (case fr of (d, c, x, b) \<Rightarrow> kl K @ (if d then inord b @ [x] else []))"

primrec kr :: "rbctx \<Rightarrow> u64 list" where
  "kr [] = []"
| "kr (fr # K) = (case fr of (d, c, x, b) \<Rightarrow> (if d then [] else x # inord b) @ kr K)"

definition rbt_ok :: "ptree \<Rightarrow> bool" where
  "rbt_ok T \<longleftrightarrow> rbv T \<and> \<not> rootred T"

text \<open>A comparison against one key is consistent with the order of the list: nodes below it come first.\<close>

definition mono_cmp :: "(u64 \<Rightarrow> int) \<Rightarrow> u64 \<Rightarrow> u64 list \<Rightarrow> bool" where
  "mono_cmp ck off xs \<longleftrightarrow> sorted_wrt (\<lambda>a b. ck (a - off) \<ge> 0 \<longrightarrow> ck (b - off) > 0) xs"

definition rb_holds :: "u64 \<Rightarrow> rb_tree \<Rightarrow> ptree \<Rightarrow> bool" where
  "rb_holds rt t T \<longleftrightarrow> wtree (rb_mem t) rt T \<and> rbt_ok T \<and>
     (T \<noteq> Lf \<longrightarrow> rbt_min t = hd (inord T) \<and> rbt_max t = last (inord T))"

section \<open>Red-black trees and their contexts\<close>

lemma mk_swap: "mk (\<not> d) c x a b = mk d c x b a"
  by (simp add: mk_def)

lemma rootred_mk [simp]: "rootred (mk d c x a b) = c"
  by (simp add: mk_def)

lemma rp_mk [simp]: "rp (mk d c x a b) = x"
  by (simp add: mk_def)

lemma rbv_mk [simp]: "rbv (mk d c x a b) = (rbv a \<and> rbv b \<and> bh a = bh b \<and> (c \<longrightarrow> \<not> rootred a \<and> \<not> rootred b))"
  by (auto simp: mk_def)

lemma bh_mk: "bh a = bh b \<Longrightarrow> bh (mk d c x a b) = (if c then bh a else Suc (bh a))"
  by (simp add: mk_def)

lemma mk_cases: obtains "t = Lf" | c x a b where "t = mk d c x a b"
  by (cases t; cases d) (auto simp: mk_def)

lemma rootred_mkE: assumes "rootred t" obtains x a b where "t = mk d True x a b"
  using assms by (cases t; cases d) (auto simp: mk_def)

lemma inord_mk2: "inord (mk d c x a b) = (if d then inord b @ x # inord a else inord a @ x # inord b)"
  by (simp add: mk_def)

lemma inord_plug: "inord (plug t K) = kl K @ inord t @ kr K"
  by (induction K arbitrary: t) (auto simp: inord_mk2 split: prod.splits)

lemma rbt_ok_plug: "rbt_ok (plug t K) \<longleftrightarrow> rbv t \<and> kinv K (bh t) (rootred t)"
proof (induction K arbitrary: t)
  case (Cons fr K)
  obtain d c x b where fr: "fr = (d, c, x, b)" by (cases fr)
  have "rbt_ok (plug t (fr # K)) \<longleftrightarrow> rbv (mk d c x t b) \<and> kinv K (bh (mk d c x t b)) c"
    using Cons.IH [of "mk d c x t b"] fr by simp
  also have "\<dots> \<longleftrightarrow> rbv t \<and> kinv (fr # K) (bh t) (rootred t)"
    using bh_mk [of t b d c x] by (auto simp: fr)
  finally show ?case .
qed (auto simp: rbt_ok_def)

lemma rep_rp: "rep m f d p t \<Longrightarrow> p = rp t"
  by (cases t) auto

lemma rep_black: "rep m f d p t \<Longrightarrow> RB_BLACK_P m p \<longleftrightarrow> \<not> rootred t"
  by (cases t) (auto simp: RB_BLACK_redp)

lemma rep_red: "rep m f d p t \<Longrightarrow> RB_RED_P m p \<longleftrightarrow> rootred t"
  by (cases t) (auto simp: RB_RED_redp)

lemma rp_in: "t \<noteq> Lf \<Longrightarrow> rp t \<in> set (inord t)"
  by (cases t) auto

lemma wtree_frameD:
  assumes "wtree m rt (plug t ((d, c, x, b) # K))"
  shows "x \<noteq> 0" "al x" "RB_FATHER m x = kf rt K" "RB_POSITION m x = kd K" "redp m x = c"
    "rb_nodes m (kf rt K) (kd K) = x" "rb_nodes m x d = rp t" "rb_nodes m x (\<not> d) = rp b"
    "RB_BLACK_P m (rb_nodes m x d) \<longleftrightarrow> \<not> rootred t" "RB_BLACK_P m (rb_nodes m x (\<not> d)) \<longleftrightarrow> \<not> rootred b"
    "RB_BLACK_P m x \<longleftrightarrow> \<not> c" "RB_RED_P m x \<longleftrightarrow> c"
    "x \<notin> set (inord t)" "x \<notin> set (inord b)" "x \<notin> set (kp K)" "x \<noteq> rt"
    "rp t \<noteq> x" "rp b \<noteq> x" "t \<noteq> Lf \<Longrightarrow> rp t \<noteq> rp b"
proof -
  note P = wtree_plugD [OF assms]
  have k: "x \<noteq> 0" "al x" "RB_FATHER m x = kf rt K" "RB_POSITION m x = kd K" "redp m x = c"
    "rb_nodes m (kf rt K) (kd K) = x" "rep m x (\<not> d) (rb_nodes m x (\<not> d)) b"
    using P(1) by simp_all
  have t: "rep m x d (rb_nodes m x d) t" using P(2) by simp
  show "x \<noteq> 0" "al x" "RB_FATHER m x = kf rt K" "RB_POSITION m x = kd K" "redp m x = c"
    "rb_nodes m (kf rt K) (kd K) = x" by fact+
  show rt: "rb_nodes m x d = rp t" and rb: "rb_nodes m x (\<not> d) = rp b" using t k rep_rp by blast+
  show "RB_BLACK_P m (rb_nodes m x d) \<longleftrightarrow> \<not> rootred t" "RB_BLACK_P m (rb_nodes m x (\<not> d)) \<longleftrightarrow> \<not> rootred b"
    using t k rep_black by blast+
  show "RB_BLACK_P m x \<longleftrightarrow> \<not> c" "RB_RED_P m x \<longleftrightarrow> c" using k by (simp_all add: RB_BLACK_redp RB_RED_redp)
  show x: "x \<notin> set (inord t)" "x \<notin> set (inord b)" "x \<notin> set (kp K)" "x \<noteq> rt" using P(4-6) by auto
  have "0 \<notin> set (inord t)" "0 \<notin> set (inord b)" using t k rep_0_notin by blast+
  show "rp t \<noteq> x" "rp b \<noteq> x" using x k(1) rp_in by (metis rp.simps(1))+
  have "set (inord t) \<inter> set (inord b) = {}" using P(6) by auto
  then show "t \<noteq> Lf \<Longrightarrow> rp t \<noteq> rp b"
    using rp_in [of t] rp_in [of b] \<open>0 \<notin> set (inord t)\<close> by (cases "b = Lf") auto
qed

lemma wtree_mark_mk:
  assumes "wtree m rt (plug (mk d c x a b) K)"
  shows "wtree (RB_MARK_RED x m) rt (plug (mk d True x a b) K)" "wtree (RB_MARK_BLACK x m) rt (plug (mk d False x a b) K)"
  using wtree_mark assms by (cases d; simp add: mk_def)+

lemma plug_focus: "plug (mk d c x a b) K = plug a ((d, c, x, b) # K)" "plug (mk d c x a b) K = plug b ((\<not> d, c, x, a) # K)"
  by (simp_all add: mk_swap)

lemma wtree_root:
  assumes "wtree m rt (plug (mk d c x a b) K)"
  shows "RB_ROOT_P rt m x \<longleftrightarrow> K = []"
proof -
  have root: "rbt_root rt m = rp (plug (mk d c x a b) K)"
    using assms unfolding wtree_def rbt_root_def using rep_rp by blast
  have "rp (plug t K) \<in> set (kp K)" if "K \<noteq> []" for t
    using that
  proof (induction K arbitrary: t)
    case (Cons fr K)
    then show ?case by (cases "K = []") (auto split: prod.splits)
  qed simp
  moreover have "x \<notin> set (kp K)" using wtree_plugD(6) [OF assms] by auto
  ultimately show ?thesis unfolding RB_ROOT_P_def root by (metis plug.simps(1) rp_mk)
qed

section \<open>Rebalancing after an insertion\<close>

lemma wtree_mark_root:
  assumes "wtree m rt T" "rbt_ok T" "T \<noteq> Lf"
  shows "wtree (RB_MARK_BLACK (rbt_root rt m) m) rt T"
proof -
  obtain c l x r where T: "T = Nd c l x r" using assms(3) by (cases T) auto
  have "rbt_root rt m = x" using assms(1) T by (auto simp: wtree_def rbt_root_def)
  then show ?thesis using wtree_mark(2) [of m rt c l x r "[]"] assms T by (simp add: rbt_ok_def)
qed

lemma insert_rotate_ok:
  assumes W: "wtree m rt (plug t ((d1, True, f, b) # (d2, False, g, u) # K))"
    and t: "t = mk d True x ta tb" "rbv t" and k: "kinv ((d1, True, f, b) # (d2, False, g, u) # K) (bh t) False"
    and u: "\<not> rootred u"
  shows "\<exists>T. wtree (insert_rotate rt x f g d2 m) rt T \<and> rbt_ok T \<and>
    inord T = inord (plug t ((d1, True, f, b) # (d2, False, g, u) # K))"
proof -
  let ?n = "bh t"
  have n: "rbv b" "bh b = ?n" "\<not> rootred b" "rbv u" "bh u = ?n" "kinv K (Suc ?n) False" using k by auto
  note F = wtree_frameD [OF W]
  have tn: "t \<noteq> Lf" using t by (auto simp: mk_def split: if_splits)
  have self: "x = rb_nodes m f (\<not> d2) \<longleftrightarrow> d1 \<noteq> d2"
  proof (cases "d1 = d2")
    case True
    then have "rb_nodes m f (\<not> d2) = rp b" using F(8) by simp
    moreover have "rp t = x" using t(1) by simp
    ultimately show ?thesis using F(19) tn True by auto
  next
    case False
    then have "rb_nodes m f (\<not> d2) = rp t" using F(7) by (cases d1; cases d2) auto
    then show ?thesis using t(1) False by simp
  qed
  show ?thesis
  proof (cases "d1 = d2")
    case True
    let ?T = "plug (mk (\<not> d2) False f (mk d2 True g b u) t) K"
    have "wtree m rt (plug (mk d2 False g (mk (\<not> d2) True f b t) u) K)"
      using W True by (simp add: mk_swap)
    from wtree_reparent [OF this] have W': "wtree (rb_tree_reparent_nodes g d2 m) rt ?T" .
    have ok: "rbt_ok ?T"
      unfolding rbt_ok_plug using n t u by (simp add: bh_mk)
    have "insert_rotate rt x f g d2 m = RB_MARK_BLACK (rbt_root rt (rb_tree_reparent_nodes g d2 m)) (rb_tree_reparent_nodes g d2 m)"
      using self True by (simp add: insert_rotate_def Let_def)
    moreover have "?T \<noteq> Lf" using wtree_def by (metis append_is_Nil_conv inord.simps(1) inord_plug inord_mk2 list.distinct(1))
    moreover have "inord ?T = inord (plug t ((d1, True, f, b) # (d2, False, g, u) # K))"
      using True by (simp add: inord_plug inord_mk2)
    ultimately show ?thesis using wtree_mark_root [OF W' ok] ok by metis
  next
    case False
    then have d1: "d1 = (\<not> d2)" by auto
    obtain a a' where ta: "t = mk d2 True x a a'" using t(1) by (metis mk_def mk_swap)
    let ?m = "rb_tree_reparent_nodes f (\<not> d2) m"
    have "wtree m rt (plug (mk (\<not> d2) True f (mk (\<not> \<not> d2) True x a a') b) ((d2, False, g, u) # K))"
      using W ta d1 by simp
    from wtree_reparent [OF this]
    have W1: "wtree ?m rt (plug (mk d2 True x (mk (\<not> d2) True f a b) a') ((d2, False, g, u) # K))" by simp
    then have "wtree ?m rt (plug (mk d2 False g (mk (\<not> d2) True x a' (mk (\<not> d2) True f a b)) u) K)"
      by (simp add: mk_swap)
    from wtree_reparent [OF this]
    have W2: "wtree (rb_tree_reparent_nodes g d2 ?m) rt (plug (mk (\<not> d2) False x (mk d2 True g a' u) (mk (\<not> d2) True f a b)) K)"
      (is "wtree ?m2 rt ?T") .
    have ok: "rbt_ok ?T"
      unfolding rbt_ok_plug using n t(2) u ta bh_mk [of a a' d2 True x] by (simp add: bh_mk)
    have "insert_rotate rt x f g d2 m = RB_MARK_BLACK (rbt_root rt ?m2) ?m2"
      using self False by (simp add: insert_rotate_def Let_def)
    moreover have "?T \<noteq> Lf" by (metis append_is_Nil_conv inord.simps(1) inord_plug inord_mk2 list.distinct(1))
    moreover have "inord ?T = inord (plug t ((d1, True, f, b) # (d2, False, g, u) # K))"
      using d1 ta by (simp add: inord_plug inord_mk2)
    ultimately show ?thesis using wtree_mark_root [OF W2 ok] ok by metis
  qed
qed

lemma kinv_black: "kinv K n False \<Longrightarrow> (K = [] \<Longrightarrow> \<not> c) \<Longrightarrow>
    (\<And>d x b K'. K = (d, True, x, b) # K' \<Longrightarrow> \<not> c) \<Longrightarrow> kinv K n c"
  by (cases K) auto

lemma insert_rebalance_ok:
  assumes "wtree m rt (plug t ((d1, True, f, b) # K))" "t = mk d True x ta tb" "rbv t"
    and "kinv ((d1, True, f, b) # K) (bh t) False"
  shows "\<exists>m' T. rb_tree_insert_rebalance rt x f m = Some m' \<and> wtree m' rt T \<and> rbt_ok T \<and>
    inord T = inord (plug t ((d1, True, f, b) # K))"
  using assms
proof (induction "length K" arbitrary: m t d x ta tb d1 f b K rule: less_induct)
  case less
  note W = less.prems(1)
  have "kinv K (bh t) True" using less.prems(4) by simp
  then obtain d2 g u K2 where K: "K = (d2, False, g, u) # K2" by (cases K) auto
  have n: "rbv b" "bh b = bh t" "\<not> rootred b" "rbv u" "bh u = bh t" "kinv K2 (Suc (bh t)) False"
    using less.prems(4) K by auto
  note F = wtree_frameD [OF W]
  have G: "wtree m rt (plug (mk d1 True f t b) ((d2, False, g, u) # K2))" using W K by simp
  note G' = wtree_frameD [OF G]
  have gp: "RB_FATHER m f = g" using F(3) K by simp
  have which: "(f = rb_nodes m g True) = d2"
    using G'(7,8) G'(19) by (cases d2) (auto simp: mk_def split: if_splits)
  have uncle: "rb_nodes m g (\<not> d2) = rp u" by (rule G')
  show ?case
  proof (cases "rootred u")
    case False
    have "rb_tree_insert_rebalance rt x f m = Some (insert_rotate rt x f g d2 m)"
      using G'(10) False by (subst rb_tree_insert_rebalance.simps) (simp add: gp which Let_def)
    then show ?thesis using insert_rotate_ok [of m rt t d1 f b d2 g u K2 d x ta tb] less.prems False K by auto
  next
    case True
    then obtain ux ua ub where u: "u = mk d2 True ux ua ub" by (rule rootred_mkE)
    let ?m1 = "RB_MARK_BLACK ux m" and ?u = "mk d2 False ux ua ub"
    let ?m2 = "RB_MARK_BLACK f ?m1" and ?f = "mk d1 False f t b"
    have "wtree m rt (plug (mk d2 True ux ua ub) ((\<not> d2, False, g, mk d1 True f t b) # K2))"
      using G u by (simp add: mk_swap)
    from wtree_mark_mk(2) [OF this]
    have "wtree ?m1 rt (plug (mk d1 True f t b) ((d2, False, g, ?u) # K2))" by (simp add: mk_swap)
    from wtree_mark_mk(2) [OF this]
    have W2: "wtree ?m2 rt (plug (mk d2 False g ?f ?u) K2)" by simp
    have bhs: "bh ?f = Suc (bh t)" "bh ?u = Suc (bh t)" "rbv ?f" "rbv ?u"
      using n less.prems(3) u bh_mk [of ua ub d2 True ux] by (simp_all add: bh_mk)
    have same: "inord (plug (mk d2 c g ?f ?u) K2) = inord (plug t ((d1, True, f, b) # K))" for c
      using K u by (simp add: inord_plug inord_mk2)
    have root: "RB_ROOT_P rt ?m2 g \<longleftrightarrow> K2 = []" by (rule wtree_root [OF W2])
    have step: "rb_tree_insert_rebalance rt x f m =
       (if K2 = [] then Some ?m2
        else let m3 = RB_MARK_RED g ?m2 in
          if RB_BLACK_P m3 (RB_FATHER m3 g) then Some m3 else rb_tree_insert_rebalance rt g (RB_FATHER m3 g) m3)"
      using G'(10) True u by (subst rb_tree_insert_rebalance.simps) (simp add: gp which uncle Let_def root)
    show ?thesis
    proof (cases K2)
      case Nil
      have "rbt_ok (plug (mk d2 False g ?f ?u) K2)"
        unfolding rbt_ok_plug using bhs n(6) Nil by simp
      then show ?thesis using step W2 same Nil by auto
    next
      case (Cons fr K3)
      obtain d3 c3 h v where fr: "fr = (d3, c3, h, v)" by (cases fr)
      let ?m3 = "RB_MARK_RED g ?m2" and ?g = "mk d2 True g ?f ?u"
      have W3: "wtree ?m3 rt (plug ?g ((d3, c3, h, v) # K3))"
        using wtree_mark_mk(1) [OF W2] Cons fr by simp
      have fa: "RB_FATHER ?m3 g = h"
        using wtree_plugD(2) [OF W3] by simp
      have bl: "RB_BLACK_P ?m3 h \<longleftrightarrow> \<not> c3" by (rule wtree_frameD(11) [OF W3])
      have g: "rbv ?g" "bh ?g = Suc (bh t)" using bhs by (simp_all add: bh_mk)
      have ki: "kinv ((d3, c3, h, v) # K3) (bh ?g) False" using n(6) unfolding Cons fr g(2) .
      show ?thesis
      proof (cases c3)
        case False
        have "kinv ((d3, c3, h, v) # K3) (bh ?g) True" using ki False by simp
        then have "rbt_ok (plug ?g ((d3, c3, h, v) # K3))" unfolding rbt_ok_plug rootred_mk using g(1) by blast
        moreover have "rb_tree_insert_rebalance rt x f m = Some ?m3"
          using step Cons fa bl False by simp
        ultimately show ?thesis using W3 same [of True] Cons fr by auto
      next
        case True
        have "\<exists>m' T. rb_tree_insert_rebalance rt g h ?m3 = Some m' \<and> wtree m' rt T \<and> rbt_ok T \<and>
            inord T = inord (plug ?g ((d3, True, h, v) # K3))"
          by (rule less.hyps) (use W3 ki g True K Cons fr in \<open>auto simp: bh_mk\<close>)
        moreover have "rb_tree_insert_rebalance rt x f m = rb_tree_insert_rebalance rt g h ?m3"
          using step Cons fa bl True by simp
        ultimately show ?thesis using same [of True] Cons fr True by simp
      qed
    qed
  qed
qed

section \<open>Look-up\<close>

lemma find_loop_ok:
  assumes "rep m f d p t" "mono_cmp ck off (inord t)"
  shows "\<exists>r. find_loop off ck m p = Some r \<and>
    ((\<exists>x\<in>set (inord t). ck (x - off) = 0 \<and> r = x - off) \<or> ((\<forall>x\<in>set (inord t). ck (x - off) \<noteq> 0) \<and> r = 0))"
  using assms
proof (induction t arbitrary: f d p)
  case Lf
  then show ?case by (subst find_loop.simps) simp
next
  case (Nd c l x r)
  have p: "p = x" "x \<noteq> 0" using Nd.prems by auto
  have ml: "mono_cmp ck off (inord l)" "mono_cmp ck off (inord r)"
    and lx: "\<And>y. y \<in> set (inord l) \<Longrightarrow> ck (y - off) \<ge> 0 \<Longrightarrow> ck (x - off) > 0"
    and xr: "\<And>y. y \<in> set (inord r) \<Longrightarrow> ck (x - off) \<ge> 0 \<Longrightarrow> ck (y - off) > 0"
    using Nd.prems(2) by (auto simp: mono_cmp_def sorted_wrt_append)
  consider "ck (x - off) = 0" | "ck (x - off) < 0" | "ck (x - off) > 0" by linarith
  then show ?case
  proof cases
    case 1
    then show ?thesis using p by (subst find_loop.simps) (simp add: Let_def)
  next
    case 2
    have "\<forall>y\<in>set (inord l). ck (y - off) \<noteq> 0" using lx 2 by force
    moreover have "find_loop off ck m p = find_loop off ck m (rb_nodes m x True)"
      using p 2 by (subst find_loop.simps) (simp add: Let_def)
    ultimately show ?thesis using Nd.IH(2) [OF _ ml(2)] Nd.prems(1) 2 by fastforce
  next
    case 3
    have "\<forall>y\<in>set (inord r). ck (y - off) \<noteq> 0" using xr 3 by force
    moreover have "find_loop off ck m p = find_loop off ck m (rb_nodes m x False)"
      using p 3 by (subst find_loop.simps) (simp add: Let_def)
    ultimately show ?thesis using Nd.IH(1) [OF _ ml(1)] Nd.prems(1) 3 by fastforce
  qed
qed

lemma rb_find_ok:
  assumes "rb_holds rt t T" "mono_cmp ck off (inord T)"
  shows "\<exists>r. rb_tree_find_node rt off ck t = Some r \<and>
    ((\<exists>x\<in>set (inord T). ck (x - off) = 0 \<and> r = x - off) \<or> ((\<forall>x\<in>set (inord T). ck (x - off) \<noteq> 0) \<and> r = 0))"
  using find_loop_ok [of "rb_mem t" rt False "rb_nodes (rb_mem t) rt False" T ck off] assms
  by (simp add: rb_holds_def wtree_def rb_tree_find_node_def rbt_root_def)

section \<open>Insertion\<close>

lemma insert_descend_ok:
  assumes "wtree m rt (plug t K)" "mono_cmp ck off (inord t)" "ck = (\<lambda>o'. cn o' obj)"
    "\<forall>x\<in>set (kl K). ck (x - off) < 0" "\<forall>x\<in>set (kr K). ck (x - off) > 0"
  shows "(\<exists>x\<in>set (inord t). ck (x - off) = 0 \<and> insert_descend off cn obj m (rp t) (kf rt K) (kd K) = Some (Inl (x - off))) \<or>
    (\<exists>K'. insert_descend off cn obj m (rp t) (kf rt K) (kd K) = Some (Inr (kf rt K', kd K')) \<and> plug Lf K' = plug t K \<and>
       (\<forall>x\<in>set (kl K'). ck (x - off) < 0) \<and> (\<forall>x\<in>set (kr K'). ck (x - off) > 0))"
  using assms
proof (induction t arbitrary: K)
  case Lf
  have "insert_descend off cn obj m (rp Lf) (kf rt K) (kd K) = Some (Inr (kf rt K, kd K))"
    by (subst insert_descend.simps) simp
  then show ?case using Lf by blast
next
  case (Nd c l x r)
  have x0: "x \<noteq> 0" and ch: "rb_nodes m x False = rp l" "rb_nodes m x True = rp r"
    using wtree_plugD(2) [OF Nd.prems(1)] by (auto dest: rep_rp)
  have ml: "mono_cmp ck off (inord l)" "mono_cmp ck off (inord r)"
    and lx: "\<And>y. y \<in> set (inord l) \<Longrightarrow> ck (y - off) \<ge> 0 \<Longrightarrow> ck (x - off) > 0"
    and xr: "\<And>y. y \<in> set (inord r) \<Longrightarrow> ck (x - off) \<ge> 0 \<Longrightarrow> ck (y - off) > 0"
    using Nd.prems(2) by (auto simp: mono_cmp_def sorted_wrt_append)
  consider "ck (x - off) = 0" | "ck (x - off) < 0" | "ck (x - off) > 0" by linarith
  then show ?case
  proof cases
    case 1
    then show ?thesis using x0 Nd.prems(3) by (subst (1) insert_descend.simps) (simp add: Let_def)
  next
    case 2
    let ?K = "(True, c, x, l) # K"
    have "insert_descend off cn obj m (rp (Nd c l x r)) (kf rt K) (kd K) = insert_descend off cn obj m (rp r) (kf rt ?K) (kd ?K)"
      using x0 2 ch Nd.prems(3) by (subst insert_descend.simps) (simp add: Let_def)
    moreover have pl: "plug r ?K = plug (Nd c l x r) K" by (simp add: mk_def)
    moreover have "\<forall>y\<in>set (kl ?K). ck (y - off) < 0" using lx 2 Nd.prems(4) by force
    moreover have "\<forall>y\<in>set (kr ?K). ck (y - off) > 0" using Nd.prems(5) by simp
    ultimately show ?thesis using Nd.IH(2) [of ?K] Nd.prems(1,3) ml(2) by auto
  next
    case 3
    let ?K = "(False, c, x, r) # K"
    have "insert_descend off cn obj m (rp (Nd c l x r)) (kf rt K) (kd K) = insert_descend off cn obj m (rp l) (kf rt ?K) (kd ?K)"
      using x0 3 ch Nd.prems(3) by (subst insert_descend.simps) (simp add: Let_def)
    moreover have pl: "plug l ?K = plug (Nd c l x r) K" by (simp add: mk_def)
    moreover have "\<forall>y\<in>set (kr ?K). ck (y - off) > 0" using xr 3 Nd.prems(5) by force
    moreover have "\<forall>y\<in>set (kl ?K). ck (y - off) < 0" using Nd.prems(4) by simp
    ultimately show ?thesis using Nd.IH(1) [of ?K] Nd.prems(1,3) ml(1) by auto
  qed
qed

text \<open>A fresh node linked in place of an empty subtree.\<close>

lemma wtree_link:
  assumes W: "wtree m rt (plug Lf K)" and s: "s \<noteq> 0" "al s" "s \<noteq> rt" "s \<notin> set (kp K)"
    and m': "\<And>q e. rb_nodes m' q e = (if q = kf rt K \<and> e = kd K then s else if q = s then 0 else rb_nodes m q e)"
      "\<And>q. q \<noteq> s \<Longrightarrow> same_info m m' q" "RB_FATHER m' s = kf rt K" "RB_POSITION m' s = kd K" "redp m' s = c"
  shows "wtree m' rt (plug (Nd c Lf s Lf) K)"
proof -
  note P = wtree_plugD [OF W]
  have g: "kf rt K \<noteq> s" using kf_in [of rt K] s by auto
  have "repk m' rt K"
  proof (rule repk_cong [OF P(1,4,5)]; intro ballI allI impI)
    fix q assume "q \<in> set (kp K)"
    then show "same_info m m' q" using m'(2) [of q] s(4) by metis
  next
    fix q e assume "q \<in> insert rt (set (kp K))" "(q, e) \<noteq> (kf rt K, kd K)"
    then show "rb_nodes m' q e = rb_nodes m q e" using m'(1) s by auto
  qed
  moreover have "rep m' (kf rt K) (kd K) (rb_nodes m' (kf rt K) (kd K)) (Nd c Lf s Lf)"
    using m' s g by simp
  ultimately show ?thesis unfolding wtree_plug using P s by simp
qed

lemma same_info_simps [simp]:
  "q \<noteq> p \<Longrightarrow> al f \<Longrightarrow> same_info m (RB_SET_FATHER p f m0) q = same_info m m0 q"
  "q \<noteq> p \<Longrightarrow> same_info m (RB_SET_POSITION p d m0) q = same_info m m0 q"
  "q \<noteq> p \<Longrightarrow> same_info m (RB_MARK_RED p m0) q = same_info m m0 q"
  "q \<noteq> p \<Longrightarrow> same_info m (RB_MARK_BLACK p m0) q = same_info m m0 q"
  "q \<noteq> p \<Longrightarrow> same_info m (RB_COPY_PROPERTIES p p' m0) q = same_info m m0 q"
  "same_info m (set_nodes p e v m0) q = same_info m m0 q" "same_info m m q"
  by (simp_all add: same_info_def)

lemma kl_kr_kp: "set (kl K) \<union> set (kr K) = set (kp K)"
proof -
  have "set (inord (plug Lf K)) = set (kl K) \<union> set (kr K)" by (simp add: inord_plug)
  then show ?thesis by (simp add: set_plug)
qed

lemma minmax_insert:
  assumes "K = (d, c, x, b) # K'" "distinct (kl K @ kr K)"
  shows "(x = (if d then last (kl K @ kr K) else hd (kl K @ kr K))) = (if d then kr K = [] else kl K = [])"
proof (cases d)
  case True
  then have k: "kl K = kl K' @ inord b @ [x]" "kr K = kr K'" using assms(1) by auto
  then show ?thesis using True assms(2) by (cases "kr K = []") (auto simp: last_append dest: last_in_set)
next
  case False
  then have k: "kr K = x # inord b @ kr K'" "kl K = kl K'" using assms(1) by auto
  then show ?thesis using False assms(2) by (cases "kl K = []") (auto dest: hd_in_set)
qed

lemma rb_insert_ok:
  assumes H: "rb_holds rt t T" and M: "mono_cmp (\<lambda>o'. cn o' obj) off (inord T)"
    and s: "s = obj + off" "s \<noteq> 0" "al s" "s \<noteq> rt" "s \<notin> set (inord T)"
  shows "(\<exists>x\<in>set (inord T). cn (x - off) obj = 0 \<and> rb_tree_insert_node rt off cn obj t = Some (x - off, t)) \<or>
    (\<exists>t' T' xs ys. rb_tree_insert_node rt off cn obj t = Some (obj, t') \<and> rb_holds rt t' T' \<and>
       inord T = xs @ ys \<and> inord T' = xs @ s # ys \<and>
       (\<forall>x\<in>set xs. cn (x - off) obj < 0) \<and> (\<forall>x\<in>set ys. cn (x - off) obj > 0))"
proof -
  let ?m = "rb_mem t"
  have W: "wtree ?m rt (plug T [])" and ok: "rbt_ok T" using H by (simp_all add: rb_holds_def)
  have root: "rbt_root rt ?m = rp T" using W by (auto simp: wtree_def rbt_root_def dest: rep_rp)
  from insert_descend_ok [where cn = cn and obj = obj, OF W M refl]
  have "(\<exists>x\<in>set (inord T). cn (x - off) obj = 0 \<and> insert_descend off cn obj ?m (rbt_root rt ?m) rt False = Some (Inl (x - off))) \<or>
    (\<exists>K. insert_descend off cn obj ?m (rbt_root rt ?m) rt False = Some (Inr (kf rt K, kd K)) \<and> plug Lf K = T \<and>
       (\<forall>x\<in>set (kl K). cn (x - off) obj < 0) \<and> (\<forall>x\<in>set (kr K). cn (x - off) obj > 0))"
    by (simp add: root)
  then show ?thesis
  proof
    assume "\<exists>x\<in>set (inord T). cn (x - off) obj = 0 \<and> insert_descend off cn obj ?m (rbt_root rt ?m) rt False = Some (Inl (x - off))"
    then show ?thesis by (auto simp: rb_tree_insert_node_def)
  next
    assume "\<exists>K. insert_descend off cn obj ?m (rbt_root rt ?m) rt False = Some (Inr (kf rt K, kd K)) \<and> plug Lf K = T \<and>
       (\<forall>x\<in>set (kl K). cn (x - off) obj < 0) \<and> (\<forall>x\<in>set (kr K). cn (x - off) obj > 0)"
    then obtain K where D: "insert_descend off cn obj ?m (rbt_root rt ?m) rt False = Some (Inr (kf rt K, kd K))"
      and T: "plug Lf K = T" and lt: "\<forall>x\<in>set (kl K). cn (x - off) obj < 0" and gt: "\<forall>x\<in>set (kr K). cn (x - off) obj > 0"
      by blast
    have WL: "wtree ?m rt (plug Lf K)" using W T by simp
    note P = wtree_plugD [OF WL]
    have iT: "inord T = kl K @ kr K" using T inord_plug [of Lf K] by simp
    have sk: "s \<notin> set (kp K)" using s iT kl_kr_kp [of K] by auto
    let ?f = "kf rt K" and ?d = "kd K"
    have f: "?f \<noteq> s" "al ?f" "?f \<noteq> 0" using kf_in [of rt K] s sk kf_al [OF P(1) P(9,8)] by auto
    have leaf: "rb_nodes ?m ?f ?d = 0" using P(2) by simp
    have fr: "?f = rt \<longleftrightarrow> K = []" using kf_in [of rt K] P(5) by (cases K) (auto simp: kf_def)
    let ?B = "RB_SET_POSITION s ?d (RB_SET_FATHER s ?f ?m)"
    let ?L = "\<lambda>m. set_nodes ?f ?d s (set_nodes s True 0 (set_nodes s False 0 m))"
    have kin: "kinv K 0 False" using ok T rbt_ok_plug [of Lf K] by simp
    show ?thesis
    proof (cases K)
      case Nil
      let ?m' = "?L (RB_MARK_BLACK s ?B)" and ?T = "plug (Nd False Lf s Lf) K"
      have "wtree ?m' rt ?T"
        by (rule wtree_link [OF WL s(2-4) sk]) (use f leaf Nil in auto)
      moreover have "rb_tree_insert_node rt off cn obj t = Some (obj, \<lparr>rb_mem = ?m', rbt_min = s, rbt_max = s\<rparr>)"
        using D f leaf Nil s(1) by (simp add: rb_tree_insert_node_def Let_def set_minmax_def)
      ultimately show ?thesis using Nil iT lt gt by (auto simp: rb_holds_def rbt_ok_def intro!: exI [of _ "?T"])
    next
      case (Cons fr' K')
      obtain d c x b where fr': "fr' = (d, c, x, b)" by (cases fr')
      have K: "K = (d, c, x, b) # K'" using Cons fr' by simp
      let ?m1 = "RB_MARK_RED s ?B" and ?T = "plug (Nd True Lf s Lf) K"
      let ?m' = "?L ?m1"
      have W': "wtree ?m' rt ?T"
        by (rule wtree_link [OF WL s(2-4) sk]) (use f leaf in auto)
      let ?mm = "if ?f = rbt_minmax t ?d then set_minmax ?d s t else t"
      have mm: "rb_mem ?mm = ?m" by (simp add: set_minmax_def)
      have red: "RB_RED_P ?m1 ?f = c"
        using wtree_frameD(12) [of ?m rt Lf d c x b K'] WL K f by (simp add: RB_RED_redp)
      have ins: "rb_tree_insert_node rt off cn obj t =
          (if c then do { m \<leftarrow> rb_tree_insert_rebalance rt s ?f ?m'; Some (obj, ?mm\<lparr>rb_mem := m\<rparr>) }
           else Some (obj, ?mm\<lparr>rb_mem := ?m'\<rparr>))"
        using D f leaf fr K s(1) red mm
        by (auto simp: rb_tree_insert_node_def Let_def set_minmax_def rbt_minmax_def)
      have iT': "inord ?T = kl K @ s # kr K" by (simp add: inord_plug)
      have dist: "distinct (kl K @ kr K)" using W iT unfolding wtree_def by simp
      have Tne: "T \<noteq> Lf" using iT K by (cases d) auto
      have old: "rbt_min t = hd (kl K @ kr K)" "rbt_max t = last (kl K @ kr K)"
        using H Tne iT by (simp_all add: rb_holds_def)
      have mmok: "rbt_min ?mm = hd (kl K @ s # kr K) \<and> rbt_max ?mm = last (kl K @ s # kr K)"
      proof (cases d)
        case True
        have "kl K \<noteq> []" using K True by simp
        moreover have "(x = rbt_max t) = (kr K = [])" using minmax_insert [OF K dist] True old by simp
        moreover have "?f = x" "?d" using K True by simp_all
        ultimately have e: "?mm = (if kr K = [] then t\<lparr>rbt_max := s\<rparr> else t)" and ne: "kl K \<noteq> []"
          by (simp_all add: rbt_minmax_def set_minmax_def)
        show ?thesis unfolding e using ne by (cases "kr K = []") (simp_all add: old hd_append last_append)
      next
        case False
        have "kr K \<noteq> []" using K False by simp
        moreover have "(x = rbt_min t) = (kl K = [])" using minmax_insert [OF K dist] False old by simp
        moreover have "?f = x" "\<not> ?d" using K False by simp_all
        ultimately have e: "?mm = (if kl K = [] then t\<lparr>rbt_min := s\<rparr> else t)" and ne: "kr K \<noteq> []"
          by (simp_all add: rbt_minmax_def set_minmax_def)
        show ?thesis unfolding e using ne by (cases "kl K = []") (simp_all add: old hd_append last_append)
      qed
      have fin: "\<exists>m T'. (if c then rb_tree_insert_rebalance rt s ?f ?m' else Some ?m') = Some m \<and> wtree m rt T' \<and> rbt_ok T' \<and>
          inord T' = kl K @ s # kr K"
      proof (cases c)
        case True
        have KT: "K = (d, True, x, b) # K'" using K True by simp
        have W1: "wtree ?m' rt (plug (Nd True Lf s Lf) ((d, True, x, b) # K'))" using W' unfolding KT .
        have k1: "kinv ((d, True, x, b) # K') (bh (Nd True Lf s Lf)) False" using kin K True by simp
        have "Nd True Lf s Lf = mk False True s Lf Lf" "rbv (Nd True Lf s Lf)" by (simp_all add: mk_def)
        from insert_rebalance_ok [OF W1 this k1]
        have "\<exists>m T'. rb_tree_insert_rebalance rt s ?f ?m' = Some m \<and> wtree m rt T' \<and> rbt_ok T' \<and> inord T' = inord ?T"
          unfolding KT kf_simps .
        then show ?thesis unfolding iT' if_P [OF True] .
      next
        case False
        have "rbt_ok ?T" unfolding rbt_ok_plug using kin K False by simp
        then show ?thesis using W' iT' False by auto
      qed
      then obtain m T' where mT: "(if c then rb_tree_insert_rebalance rt s ?f ?m' else Some ?m') = Some m"
        "wtree m rt T'" "rbt_ok T'" "inord T' = kl K @ s # kr K" by blast
      have "rb_tree_insert_node rt off cn obj t = Some (obj, ?mm\<lparr>rb_mem := m\<rparr>)"
        using mT(1) unfolding ins by (cases c) simp_all
      moreover have "rb_holds rt (?mm\<lparr>rb_mem := m\<rparr>) T'"
        using mT mmok by (simp add: rb_holds_def)
      ultimately show ?thesis using iT lt gt mT(4) by metis
    qed
  qed
qed

end
