(* ===== verification/Rbtree_Remove.thy ===== *)
theory Rbtree_Remove
  imports Rbtree_Insert
begin

text \<open>
  The correctness of the removal of \<^verbatim>\<open>libec/rb.c\<close>: leaf, one child, two children with the exchange of the
  node and its stand-in, and the rebalancing loop.
\<close>

section \<open>Vocabulary of the proofs\<close>

primrec blk :: "ptree \<Rightarrow> ptree" where
  "blk Lf = Lf"
| "blk (Nd c l x r) = Nd False l x r"

text \<open>The memory after the node is exchanged with its stand-in, before any rebalancing.\<close>

definition swap_mem :: "bool \<Rightarrow> bool \<Rightarrow> u64 \<Rightarrow> u64 \<Rightarrow> u64 \<Rightarrow> u64 \<Rightarrow> bool \<Rightarrow> u64 \<Rightarrow> u64 \<Rightarrow> bool \<Rightarrow> rb_mem \<Rightarrow> rb_mem" where
  "swap_mem near W s z son f d pB fz sred m =
     (let m = (if sred then (let m = RB_MARK_BLACK son m in if near then m
                             else RB_SET_POSITION son (\<not> W) (RB_SET_FATHER son fz m)) else m);
          m = (if near then m
               else RB_SET_FATHER (rb_nodes m s W) z (set_nodes z W (rb_nodes m s W) (set_nodes fz (\<not> W) son m)));
          m = set_nodes z (\<not> W) pB m;
          m = RB_SET_FATHER pB z m;
          m = RB_COPY_PROPERTIES z s m;
          m = RB_SET_FATHER z f m;
          m = set_nodes f d z m
      in RB_SET_FATHER s 0 m)"

primrec depth :: "ptree \<Rightarrow> nat" where
  "depth Lf = 0"
| "depth (Nd c l x r) = Suc (max (depth l) (depth r))"

section \<open>Rebalancing after a removal\<close>

lemma kinv_mono: "kinv K n True \<Longrightarrow> kinv K n False"
  by (cases K) auto

lemma kinvD: "kinv ((d, cf, x, b) # K) n c \<Longrightarrow>
    rbv b \<and> bh b = n \<and> (cf \<longrightarrow> \<not> c \<and> \<not> rootred b) \<and> kinv K (if cf then n else Suc n) cf"
  by simp

text \<open>Case 4: the brother is black and the far nephew red.\<close>

lemma remove_case4:
  assumes W: "wtree m rt (plug t ((w, c, p, mk w False y ba bb) # K))" and t: "rbv t" "\<not> rootred t"
    and k: "kinv ((w, c, p, mk w False y ba bb) # K) (Suc (bh t)) False" and r: "rootred bb"
  shows "\<exists>T. wtree (rb_tree_reparent_nodes p (\<not> w) (RB_MARK_BLACK (rb_nodes m y (\<not> w)) m)) rt T \<and> rbt_ok T \<and>
    inord T = inord (plug t ((w, c, p, mk w False y ba bb) # K))"
proof -
  obtain v va vb where bb: "bb = mk w True v va vb" using r by (rule rootred_mkE)
  let ?bb = "mk w False v va vb" and ?m = "RB_MARK_BLACK v m"
  have W0: "wtree m rt (plug bb ((\<not> w, False, y, ba) # (\<not> w, c, p, t) # K))"
    using W by (simp add: mk_swap)
  have ch: "rb_nodes m y (\<not> w) = v" using wtree_frameD(7) [OF W0] bb by simp
  have "wtree ?m rt (plug ?bb ((\<not> w, False, y, ba) # (\<not> w, c, p, t) # K))"
    using wtree_mark_mk(2) W0 bb by metis
  then have "wtree ?m rt (plug (mk (\<not> w) c p (mk (\<not> \<not> w) False y ba ?bb) t) K)"
    by (simp add: mk_swap)
  from wtree_reparent [OF this]
  have W1: "wtree (rb_tree_reparent_nodes p (\<not> w) ?m) rt (plug (mk w c y (mk (\<not> w) False p ba t) ?bb) K)" by simp
  have n: "rbv ba" "rbv bb" "bh ba = bh bb" "bh ba = bh t" "kinv K (if c then Suc (bh t) else Suc (Suc (bh t))) c"
    using kinvD [OF k] bh_mk [of ba bb w False y] by auto
  have "bh ?bb = Suc (bh t)" "rbv ?bb" using n bb bh_mk [of va vb w True v] by (auto simp: bh_mk)
  moreover have "bh (mk (\<not> w) False p ba t) = Suc (bh t)" "rbv (mk (\<not> w) False p ba t)" using n t by (simp_all add: bh_mk)
  ultimately have "rbt_ok (plug (mk w c y (mk (\<not> w) False p ba t) ?bb) K)"
    unfolding rbt_ok_plug using n(5) by (cases c) (simp_all add: bh_mk)
  moreover have "inord (plug (mk w c y (mk (\<not> w) False p ba t) ?bb) K) = inord (plug t ((w, c, p, mk w False y ba bb) # K))"
    by (simp add: inord_plug inord_mk2 bb)
  ultimately show ?thesis using W1 ch by auto
qed

lemma remove_rotate_ok:
  assumes W: "wtree m rt (plug t ((w, c, p, mk w False y ba bb) # K))" and t: "rbv t" "\<not> rootred t"
    and k: "kinv ((w, c, p, mk w False y ba bb) # K) (Suc (bh t)) False" and r: "c \<or> rootred ba \<or> rootred bb"
  shows "\<exists>T. wtree (remove_rotate p w y m) rt T \<and> rbt_ok T \<and> inord T = inord (plug t ((w, c, p, mk w False y ba bb) # K))"
proof -
  have Wb: "wtree m rt (plug ba ((w, False, y, bb) # (\<not> w, c, p, t) # K))"
    using W by (simp add: mk_swap)
  note F = wtree_frameD [OF W] and B = wtree_frameD [OF Wb]
  have n: "rbv ba" "rbv bb" "bh ba = bh bb" "bh ba = bh t" "kinv K (if c then Suc (bh t) else Suc (Suc (bh t))) c"
    using kinvD [OF k] bh_mk [of ba bb w False y] by auto
  have nb: "(RB_BLACK_P m (rb_nodes m y False) \<and> RB_BLACK_P m (rb_nodes m y True)) = (\<not> rootred ba \<and> \<not> rootred bb)"
    using B(9,10) by (cases w) auto
  show ?thesis
  proof (cases "c \<and> \<not> rootred ba \<and> \<not> rootred bb")
    case True
    have e: "remove_rotate p w y m = RB_MARK_RED y (RB_MARK_BLACK p m)"
      using F(12) B(11) nb True by (simp add: remove_rotate_def)
    have "wtree (RB_MARK_BLACK p m) rt (plug (mk w False p t (mk w False y ba bb)) K)"
      using wtree_mark_mk(2) [of m rt w c p t "mk w False y ba bb" K] W by simp
    then have "wtree (RB_MARK_BLACK p m) rt (plug (mk w False y ba bb) ((\<not> w, False, p, t) # K))"
      by (simp add: mk_swap)
    from wtree_mark_mk(1) [OF this]
    have "wtree (remove_rotate p w y m) rt (plug (mk w False p t (mk w True y ba bb)) K)"
      unfolding e by (simp add: mk_swap)
    moreover have "rbt_ok (plug (mk w False p t (mk w True y ba bb)) K)"
      unfolding rbt_ok_plug using n t True kinv_mono [of K "Suc (bh t)"] by (simp add: bh_mk)
    moreover have "inord (plug (mk w False p t (mk w True y ba bb)) K) = inord (plug t ((w, c, p, mk w False y ba bb) # K))"
      by (simp add: inord_plug inord_mk2)
    ultimately show ?thesis by blast
  next
    case False
    have not1: "\<not> (RB_RED_P m p \<and> RB_BLACK_P m y \<and> RB_BLACK_P m (rb_nodes m y False) \<and> RB_BLACK_P m (rb_nodes m y True))"
      using F(12) B(11) nb False by auto
    show ?thesis
    proof (cases "rootred bb")
      case True
      have "remove_rotate p w y m = rb_tree_reparent_nodes p (\<not> w) (RB_MARK_BLACK (rb_nodes m y (\<not> w)) m)"
        unfolding remove_rotate_def Let_def if_not_P [OF not1] using B(10) True by simp
      then show ?thesis using remove_case4 [OF W t k True] by simp
    next
      case bb: False
      then have "rootred ba" using r False by auto
      then obtain z za zb where ba: "ba = mk (\<not> w) True z za zb" by (rule rootred_mkE)
      let ?m = "rb_tree_reparent_nodes y w m" and ?b = "mk w False z zb (mk w True y za bb)"
      have "wtree m rt (plug (mk w False y (mk (\<not> w) True z za zb) bb) ((\<not> w, c, p, t) # K))"
        using W ba by (simp add: mk_swap)
      from wtree_reparent [OF this]
      have W1: "wtree ?m rt (plug t ((w, c, p, ?b) # K))" by (simp add: mk_swap)
      have z: "rb_nodes ?m p (\<not> w) = z" using wtree_frameD(8) [OF W1] by simp
      have e: "remove_rotate p w y m = rb_tree_reparent_nodes p (\<not> w) (RB_MARK_BLACK (rb_nodes ?m z (\<not> w)) ?m)"
        unfolding remove_rotate_def Let_def if_not_P [OF not1] using B(10) bb z by simp
      have zs: "rbv za" "rbv zb" "bh za = bh t" "bh zb = bh t" "\<not> rootred za"
        using n ba bh_mk [of za zb "\<not> w" True z] by auto
      have "kinv ((w, c, p, ?b) # K) (Suc (bh t)) False"
        using n zs bb by (cases c) (simp_all add: bh_mk)
      from remove_case4 [OF W1 t this]
      have "\<exists>T. wtree (remove_rotate p w y m) rt T \<and> rbt_ok T \<and> inord T = inord (plug t ((w, c, p, ?b) # K))"
        unfolding e by simp
      moreover have "inord (plug t ((w, c, p, ?b) # K)) = inord (plug t ((w, c, p, mk w False y ba bb) # K))"
        by (simp add: inord_plug inord_mk2 ba)
      ultimately show ?thesis by simp
    qed
  qed
qed

lemma removal_rebalance_ok:
  assumes "wtree m rt (plug t ((w, c, p, b) # K))" "rbv t" "\<not> rootred t"
    and "kinv ((w, c, p, b) # K) (Suc (bh t)) False"
  shows "\<exists>m' T. rb_tree_removal_rebalance rt p w m = Some m' \<and> wtree m' rt T \<and> rbt_ok T \<and>
    inord T = inord (plug t ((w, c, p, b) # K))"
  using assms
proof (induction "length K" arbitrary: m t w c p b K rule: less_induct)
  case less
  note W = less.prems(1) and t = less.prems(2,3)
  note ki = kinvD [OF less.prems(4)]
  have "b \<noteq> Lf" using ki by auto
  then obtain cb y ba bb where b: "b = mk w cb y ba bb" using mk_cases by metis
  have Wb: "wtree m rt (plug ba ((w, cb, y, bb) # (\<not> w, c, p, t) # K))"
    using W b by (simp add: mk_swap)
  note F = wtree_frameD [OF W] and B = wtree_frameD [OF Wb]
  have bro: "rb_nodes m p (\<not> w) = y" using F(8) b by simp
  have nb: "(RB_BLACK_P m (rb_nodes m y False) \<and> RB_BLACK_P m (rb_nodes m y True)) = (\<not> rootred ba \<and> \<not> rootred bb)"
    using B(9,10) by (cases w) auto
  have step: "rb_tree_removal_rebalance rt p w m =
     (if \<not> c \<and> \<not> rootred ba \<and> \<not> rootred bb
      then if cb then Some (remove_rotate p w (rb_nodes (rb_tree_reparent_nodes p (\<not> w) m) p (\<not> w)) (rb_tree_reparent_nodes p (\<not> w) m))
           else let m = RB_MARK_RED y m in if RB_ROOT_P rt m p then Some m
             else rb_tree_removal_rebalance rt (RB_FATHER m p) (RB_POSITION m p) m
      else Some (remove_rotate p w y m))"
    using F(9,11) t(2) nb B(12)
    by (subst rb_tree_removal_rebalance.simps) (simp add: bro Let_def)
  have bs: "rbv ba" "rbv bb" "bh ba = bh bb" "cb \<longrightarrow> \<not> rootred ba \<and> \<not> rootred bb" "bh ba = (if cb then Suc (bh t) else bh t)"
    using ki b bh_mk [of ba bb w cb y] by (auto split: if_splits)
  show ?case
  proof (cases "\<not> c \<and> \<not> rootred ba \<and> \<not> rootred bb")
    case False
    have cb: "\<not> cb" using False bs(4) ki b by auto
    have r: "c \<or> rootred ba \<or> rootred bb" using False by blast
    have "\<exists>T. wtree (remove_rotate p w y m) rt T \<and> rbt_ok T \<and> inord T = inord (plug t ((w, c, p, mk w False y ba bb) # K))"
      by (rule remove_rotate_ok) (use W t less.prems(4) b cb r in auto)
    then show ?thesis using step False b cb by auto
  next
    case True
    show ?thesis
    proof (cases cb)
      case cb: True
      let ?m = "rb_tree_reparent_nodes p (\<not> w) m"
      have "wtree m rt (plug (mk (\<not> w) False p (mk (\<not> \<not> w) True y ba bb) t) K)"
        using W b cb True by (simp add: mk_swap)
      from wtree_reparent [OF this]
      have W1: "wtree ?m rt (plug t ((w, True, p, ba) # (w, False, y, bb) # K))" by (simp add: mk_swap)
      have "ba \<noteq> Lf" using bs(5) cb by auto
      then obtain cz z za zb where ba: "ba = mk w cz z za zb" using mk_cases by metis
      have cz: "\<not> cz" using True ba by simp
      have z: "rb_nodes ?m p (\<not> w) = z" using wtree_frameD(8) [OF W1] ba by simp
      have k1: "kinv ((w, True, p, ba) # (w, False, y, bb) # K) (Suc (bh t)) False"
        using ki bs cb True by auto
      have "\<exists>T. wtree (remove_rotate p w z ?m) rt T \<and> rbt_ok T \<and>
          inord T = inord (plug t ((w, True, p, mk w False z za zb) # (w, False, y, bb) # K))"
        by (rule remove_rotate_ok) (use W1 t k1 ba cz in auto)
      moreover have "inord (plug t ((w, True, p, mk w False z za zb) # (w, False, y, bb) # K)) = inord (plug t ((w, c, p, b) # K))"
        using ba b cz by (simp add: inord_plug inord_mk2)
      ultimately show ?thesis using step True cb z by auto
    next
      case cb: False
      let ?m = "RB_MARK_RED y m" and ?b = "mk w True y ba bb"
      let ?t = "mk w False p t ?b"
      have "wtree m rt (plug (mk w False y ba bb) ((\<not> w, c, p, t) # K))" using W b cb by (simp add: mk_swap)
      from wtree_mark_mk(1) [OF this] True
      have W1: "wtree ?m rt (plug ?t K)" by (simp add: mk_swap)
      have t1: "rbv ?t" "\<not> rootred ?t" "bh ?t = Suc (bh t)" using bs t True cb by (simp_all add: bh_mk)
      have root: "RB_ROOT_P rt ?m p \<longleftrightarrow> K = []" by (rule wtree_root [OF W1])
      have k1: "kinv K (Suc (Suc (bh t))) False" using ki True by auto
      have same: "inord (plug ?t K) = inord (plug t ((w, c, p, b) # K))"
        using b by (simp add: inord_plug inord_mk2)
      show ?thesis
      proof (cases K)
        case Nil
        have "rbt_ok (plug ?t K)" using t1 Nil by (simp add: rbt_ok_def)
        then show ?thesis using step True cb root Nil W1 same by (auto simp: Let_def)
      next
        case (Cons fr K2)
        obtain d2 c2 q u where fr: "fr = (d2, c2, q, u)" by (cases fr)
        have W2: "wtree ?m rt (plug ?t ((d2, c2, q, u) # K2))" using W1 Cons fr by simp
        have fp: "RB_FATHER ?m p = q" "RB_POSITION ?m p = d2"
          using wtree_plugD(2) [OF W1] Cons fr by simp_all
        have "\<exists>m' T. rb_tree_removal_rebalance rt q d2 ?m = Some m' \<and> wtree m' rt T \<and> rbt_ok T \<and>
            inord T = inord (plug ?t ((d2, c2, q, u) # K2))"
          using less.hyps [of K2 ?m ?t d2 c2 q u] W2 t1 k1 Cons fr by (metis length_Cons lessI)
        moreover have "rb_tree_removal_rebalance rt p w m = rb_tree_removal_rebalance rt q d2 ?m"
          using step True cb root Cons fp by (simp add: Let_def)
        ultimately show ?thesis using same Cons fr by simp
      qed
    qed
  qed
qed

section \<open>Removal of a node with at most one child\<close>

text \<open>The node \<open>s\<close> with at most one child is replaced, in its father, by what is left of it.\<close>

lemma wtree_replace:
  assumes W: "wtree m rt (plug t K)" and sub: "set (inord t') \<subseteq> set (inord t)" "distinct (inord t')"
    and m': "rb_nodes m' (kf rt K) (kd K) = rp t'"
      "\<And>q e. q \<notin> set (inord t) \<Longrightarrow> (q, e) \<noteq> (kf rt K, kd K) \<Longrightarrow> rb_nodes m' q e = rb_nodes m q e"
      "\<And>q. q \<notin> set (inord t) \<Longrightarrow> same_info m m' q"
      "rep m' (kf rt K) (kd K) (rp t') t'"
  shows "wtree m' rt (plug t' K)"
proof -
  note P = wtree_plugD [OF W]
  have "repk m' rt K"
  proof (rule repk_cong [OF P(1,4,5)]; intro ballI allI impI)
    fix q assume "q \<in> set (kp K)"
    then have "q \<notin> set (inord t)" using P(6) by auto
    then show "same_info m m' q" by (rule m'(3))
  next
    fix q e assume "q \<in> insert rt (set (kp K))" and ne: "(q, e) \<noteq> (kf rt K, kd K)"
    then have "q \<notin> set (inord t)" using P(6,7) by auto
    then show "rb_nodes m' q e = rb_nodes m q e" using ne by (rule m'(2))
  qed
  then show ?thesis using wtree_plugI [OF W sub] m'(1,4) by simp
qed

lemma minmax_unlink:
  assumes "K = (d, c, x, b) # K'" "distinct (kl K @ s # kr K)"
  shows "(s = (if d then last (kl K @ s # kr K) else hd (kl K @ s # kr K))) = (if d then kr K = [] else kl K = [])"
    "d \<Longrightarrow> kl K \<noteq> [] \<and> last (kl K) = x" "\<not> d \<Longrightarrow> kr K \<noteq> [] \<and> hd (kr K) = x"
proof -
  show "(s = (if d then last (kl K @ s # kr K) else hd (kl K @ s # kr K))) = (if d then kr K = [] else kl K = [])"
    using assms(2) by (cases "kr K"; cases "kl K") (auto dest: last_in_set)
  show "d \<Longrightarrow> kl K \<noteq> [] \<and> last (kl K) = x" "\<not> d \<Longrightarrow> kr K \<noteq> [] \<and> hd (kr K) = x" using assms(1) by auto
qed

lemma prune_node_ok:
  assumes H: "rb_holds rt t (plug (Nd c Lf s Lf) K)"
  shows "\<exists>t' T'. rb_tree_prune_node rt s (\<not> c \<and> K \<noteq> []) t = Some t' \<and> rb_holds rt t' T' \<and> inord T' = kl K @ kr K"
proof -
  let ?m = "rb_mem t" and ?f = "kf rt K" and ?d = "kd K"
  have W: "wtree ?m rt (plug (Nd c Lf s Lf) K)" and ok: "rbt_ok (plug (Nd c Lf s Lf) K)"
    using H by (simp_all add: rb_holds_def)
  note P = wtree_plugD [OF W]
  have s: "s \<noteq> 0" "RB_FATHER ?m s = ?f" "RB_POSITION ?m s = ?d" "rb_nodes ?m s False = 0" "rb_nodes ?m s True = 0"
    using P(2) by auto
  have fs: "?f \<noteq> s" using kf_notin [OF P(6,7)] by auto
  have dist: "distinct (kl K @ s # kr K)" using W inord_plug [of "Nd c Lf s Lf" K] unfolding wtree_def by simp
  let ?m' = "RB_SET_FATHER s 0 (set_nodes ?f ?d 0 ?m)"
  have W': "wtree ?m' rt (plug Lf K)"
    by (rule wtree_replace [OF W]) (use fs in auto)
  have root: "RB_ROOT_P rt ?m s \<longleftrightarrow> K = []"
    using wtree_root [of ?m rt False c s Lf Lf K] W by (simp add: mk_def)
  have old: "rbt_min t = hd (kl K @ s # kr K)" "rbt_max t = last (kl K @ s # kr K)"
    using H inord_plug [of "Nd c Lf s Lf" K] unfolding rb_holds_def
    by (metis append_is_Nil_conv append_Cons append_Nil inord.simps list.distinct(1))+
  have kin: "kinv K (if c then 0 else 1) c" using ok unfolding rbt_ok_plug by (cases c) simp_all
  define tm where "tm = (if rbt_minmax t ?d = s then (let t = set_minmax ?d ?f t in if K = [] then set_minmax True ?f t else t) else t)"
  have tm: "rb_mem tm = ?m" by (simp add: tm_def set_minmax_def Let_def)
  have e: "rb_tree_prune_node rt s r t =
     (if r then do { m \<leftarrow> rb_tree_removal_rebalance rt ?f ?d ?m'; Some (tm\<lparr>rb_mem := m\<rparr>) } else Some (tm\<lparr>rb_mem := ?m'\<rparr>))" for r
    using s root fs by (simp add: rb_tree_prune_node_def Let_def tm_def rbt_minmax_def set_minmax_def)
  have fin: "\<exists>m T'. (if \<not> c \<and> K \<noteq> [] then rb_tree_removal_rebalance rt ?f ?d ?m' else Some ?m') = Some m \<and>
      wtree m rt T' \<and> rbt_ok T' \<and> inord T' = kl K @ kr K"
  proof (cases "\<not> c \<and> K \<noteq> []")
    case True
    then obtain d2 c2 x b K2 where K: "K = (d2, c2, x, b) # K2" by (cases K) auto
    have "\<exists>m' T. rb_tree_removal_rebalance rt x d2 ?m' = Some m' \<and> wtree m' rt T \<and> rbt_ok T \<and>
        inord T = inord (plug Lf ((d2, c2, x, b) # K2))"
      by (rule removal_rebalance_ok) (use W' kin True in \<open>simp_all add: K [symmetric]\<close>)
    then show ?thesis using True inord_plug [of Lf K] unfolding K by simp
  next
    case False
    have "kinv K 0 False" using False kin kinv_mono [of K 0] by (cases c) auto
    then have "rbt_ok (plug Lf K)" unfolding rbt_ok_plug by simp
    then show ?thesis using False W' inord_plug [of Lf K] by auto
  qed
  have mm: "kl K @ kr K \<noteq> [] \<longrightarrow> rbt_min tm = hd (kl K @ kr K) \<and> rbt_max tm = last (kl K @ kr K)"
  proof (cases K)
    case (Cons fr K')
    obtain d2 c2 x b where fr: "fr = (d2, c2, x, b)" by (cases fr)
    have K: "K = (d2, c2, x, b) # K'" using Cons fr by simp
    note M = minmax_unlink [OF K dist]
    have fd: "?f = x" "?d = d2" "K \<noteq> []" using K by simp_all
    show ?thesis
    proof (cases d2)
      case True
      have tme: "tm = (if kr K = [] then t\<lparr>rbt_max := x\<rparr> else t)"
        using M(1) fd True old by (auto simp: tm_def rbt_minmax_def set_minmax_def Let_def)
      show ?thesis using M(2) True unfolding tme by (cases "kr K = []") (simp_all add: old hd_append last_append)
    next
      case False
      have tme: "tm = (if kl K = [] then t\<lparr>rbt_min := x\<rparr> else t)"
        using M(1) fd False old by (auto simp: tm_def rbt_minmax_def set_minmax_def Let_def)
      show ?thesis using M(3) False unfolding tme by (cases "kl K = []") (simp_all add: old hd_append last_append)
    qed
  qed simp
  obtain m T' where mT: "(if \<not> c \<and> K \<noteq> [] then rb_tree_removal_rebalance rt ?f ?d ?m' else Some ?m') = Some m"
      "wtree m rt T'" "rbt_ok T'" "inord T' = kl K @ kr K" using fin by blast
  have "rb_tree_prune_node rt s (\<not> c \<and> K \<noteq> []) t = Some (tm\<lparr>rb_mem := m\<rparr>)"
    using mT(1) unfolding e by (auto split: if_splits)
  moreover have "rb_holds rt (tm\<lparr>rb_mem := m\<rparr>) T'"
    using mT mm unfolding rb_holds_def by (cases T') auto
  ultimately show ?thesis using mT(4) by blast
qed

lemma prune_blackred_ok:
  assumes H: "rb_holds rt t (plug (mk w c s (mk d0 cx x xa xb) Lf) K)"
  shows "\<exists>T'. rb_holds rt (rb_tree_prune_blackred_branch rt s w t) T' \<and> inord T' = kl K @ x # kr K \<and> xa = Lf \<and> xb = Lf"
proof -
  let ?m = "rb_mem t" and ?f = "kf rt K" and ?d = "kd K" and ?x = "mk d0 cx x xa xb"
  have W: "wtree ?m rt (plug (mk w c s ?x Lf) K)" and ok: "rbt_ok (plug (mk w c s ?x Lf) K)"
    using H by (simp_all add: rb_holds_def)
  have rb: "rbv (mk w c s ?x Lf)" and kin: "kinv K (bh (mk w c s ?x Lf)) c" using ok unfolding rbt_ok_plug by simp_all
  have "bh ?x = 0" "rbv ?x" "c \<longrightarrow> \<not> cx" using rb by auto
  then have cx: "cx" "bh xa = 0" "bh xb = 0" "\<not> rootred xa" "\<not> rootred xb"
    by (auto simp: mk_def split: if_splits)
  have "t = Lf" if "bh t = 0" "\<not> rootred t" for t using that by (cases t) auto
  then have xab: "xa = Lf" "xb = Lf" using cx by blast+
  have c: "\<not> c" using cx(1) \<open>c \<longrightarrow> \<not> cx\<close> by blast
  have xleaf: "?x = Nd cx Lf x Lf" using xab by (simp add: mk_def)
  note P = wtree_plugD [OF W]
  note S = rep_mkD [OF P(2)]
  have x: "rb_nodes ?m s w = x" "x \<noteq> 0" "al x" "RB_FATHER ?m x = s" "RB_POSITION ?m x = w"
    "rb_nodes ?m x False = 0" "rb_nodes ?m x True = 0"
    using S(7) xleaf by auto
  have sx: "s \<noteq> x" using P(3) by auto
  have f: "?f \<noteq> s" "?f \<noteq> x" using kf_notin [OF P(6,7)] by auto
  have fal: "al ?f" using kf_al [OF P(1) P(9,8)] by simp
  let ?m' = "RB_SET_FATHER s 0 (RB_SET_FATHER x ?f (set_nodes ?f ?d x (RB_COPY_PROPERTIES x s ?m)))"
  let ?T = "plug (Nd False Lf x Lf) K"
  have W': "wtree ?m' rt ?T"
    by (rule wtree_replace [OF W]) (use f x sx fal S c in auto)
  have root: "RB_ROOT_P rt ?m s \<longleftrightarrow> K = []" by (rule wtree_root [OF W])
  define tm where "tm = (if K = [] then set_minmax (\<not> w) x t else if rbt_minmax t ?d = s then set_minmax ?d x t else t)"
  have tm: "rb_mem tm = ?m" by (simp add: tm_def set_minmax_def)
  have e: "rb_tree_prune_blackred_branch rt s w t = tm\<lparr>rb_mem := ?m'\<rparr>"
    using x S f sx fal root
    by (auto simp: rb_tree_prune_blackred_branch_def Let_def tm_def rbt_minmax_def set_minmax_def)
  have "kinv K 1 False" using kin c \<open>bh ?x = 0\<close> bh_mk [of ?x Lf w c s] by simp
  then have ok': "rbt_ok ?T" unfolding rbt_ok_plug by simp
  have i: "inord (plug (mk w c s ?x Lf) K) = kl K @ (if w then [s, x] else [x, s]) @ kr K"
    using xleaf by (simp add: inord_plug inord_mk2)
  have dist: "distinct (kl K @ (if w then [s, x] else [x, s]) @ kr K)" using W i unfolding wtree_def by simp
  have "inord (plug (mk w c s ?x Lf) K) \<noteq> []" unfolding i by (cases w) auto
  then have ne: "plug (mk w c s ?x Lf) K \<noteq> Lf" by auto
  have old: "rbt_min t = hd (kl K @ (if w then [s, x] else [x, s]) @ kr K)"
    "rbt_max t = last (kl K @ (if w then [s, x] else [x, s]) @ kr K)"
    using H ne unfolding rb_holds_def i [symmetric] by blast+
  have mm: "rbt_min tm = hd (kl K @ x # kr K) \<and> rbt_max tm = last (kl K @ x # kr K)"
  proof (cases K)
    case Nil
    then show ?thesis using old by (cases w) (auto simp: tm_def set_minmax_def)
  next
    case (Cons fr K')
    obtain d2 c2 y b where fr: "fr = (d2, c2, y, b)" by (cases fr)
    have fd: "?d = d2" "K \<noteq> []" using Cons fr by simp_all
    show ?thesis
    proof (cases d2)
      case True
      have ne: "kl K \<noteq> []" using Cons fr True by simp
      have "(s = rbt_max t) = (\<not> w \<and> kr K = [])"
        using dist by (cases "kr K = []"; cases w) (auto simp: old dest: last_in_set)
      then have tme: "tm = (if \<not> w \<and> kr K = [] then t\<lparr>rbt_max := x\<rparr> else t)"
        using fd True by (auto simp: tm_def rbt_minmax_def set_minmax_def)
      show ?thesis using ne unfolding tme by (cases "kr K = []"; cases w) (simp_all add: old hd_append last_append)
    next
      case False
      have ne: "kr K \<noteq> []" using Cons fr False by simp
      have "(s = rbt_min t) = (w \<and> kl K = [])"
        using dist by (cases "kl K = []"; cases w) (auto simp: old hd_append dest: hd_in_set)
      then have tme: "tm = (if w \<and> kl K = [] then t\<lparr>rbt_min := x\<rparr> else t)"
        using fd False by (auto simp: tm_def rbt_minmax_def set_minmax_def)
      show ?thesis using ne unfolding tme by (cases "kl K = []"; cases w) (simp_all add: old hd_append last_append)
    qed
  qed
  have "rb_holds rt (rb_tree_prune_blackred_branch rt s w t) ?T"
    unfolding e using W' ok' mm by (simp add: rb_holds_def inord_plug)
  then show ?thesis using xab by (intro exI [of _ ?T]) (simp add: inord_plug)
qed

section \<open>Iteration\<close>

lemma iterate_down_ok:
  assumes "rep m f d p A" "A \<noteq> Lf"
  shows "\<exists>J cz z son. iterate_down e m p = Some z \<and> A = plug (mk e cz z Lf son) J \<and> (\<forall>fr\<in>set J. fst fr = e)"
  using assms
proof (induction "size A" arbitrary: A f d p rule: less_induct)
  case less
  obtain cz z a b where A: "A = mk e cz z a b" using less.prems(2) mk_cases by metis
  have z: "p = z" "rep m z e (rb_nodes m z e) a" using less.prems(1) A by auto
  show ?case
  proof (cases "a = Lf")
    case True
    have "iterate_down e m p = Some z" using z True by (subst iterate_down.simps) simp
    then show ?thesis using A True by (intro exI [of _ "[]"]) auto
  next
    case False
    have "rb_nodes m z e \<noteq> 0" using z(2) False by (cases a) auto
    then have st: "iterate_down e m p = iterate_down e m (rb_nodes m z e)"
      using z(1) by (subst iterate_down.simps) simp
    have "size a < size A" using A by (cases e) (auto simp: mk_def)
    from less.hyps [OF this z(2) False]
    obtain J c2 z2 son where "iterate_down e m (rb_nodes m z e) = Some z2" "a = plug (mk e c2 z2 Lf son) J" "\<forall>fr\<in>set J. fst fr = e"
      by blast
    moreover have "plug (plug t J) K = plug t (J @ K)" for t K
      by (induction J arbitrary: t) (auto split: prod.splits)
    then have "mk e cz z (plug t J) b = plug t (J @ [(e, cz, z, b)])" for t
      by (metis plug.simps(1) plug.simps(2) old.prod.case)
    ultimately show ?thesis using st A by (intro exI [of _ "J @ [(e, cz, z, b)]"]) auto
  qed
qed

section \<open>Removal of a node with two children\<close>

lemma plug_append: "plug (plug t J) K = plug t (J @ K)"
  by (induction J arbitrary: t) (auto split: prod.splits)

lemma kp_append [simp]: "kp (J @ K) = kp J @ kp K"
  by (induction J) (auto split: prod.splits)

lemma kf_append: "kf rt (J @ K) = (if J = [] then kf rt K else kf rt J)" "kd (J @ K) = (if J = [] then kd K else kd J)"
  by (cases J; auto simp: kf_def kd_def split: prod.splits)+

lemma kf_in_kp: "J \<noteq> [] \<Longrightarrow> kf rt J \<in> set (kp J)"
  by (cases J) (auto simp: kf_def split: prod.splits)

lemma repk_tail: "repk m rt (J @ K) \<Longrightarrow> repk m rt K"
  by (induction J) (auto split: prod.splits)

lemma rep_father: "rep m f d p t \<Longrightarrow> q \<in> set (inord t) \<Longrightarrow> (q = p \<and> RB_FATHER m q = f) \<or> RB_FATHER m q \<in> set (inord t)"
proof (induction t arbitrary: f d p)
  case (Nd c l x r)
  have x: "p = x" "RB_FATHER m x = f" "rep m x False (rb_nodes m x False) l" "rep m x True (rb_nodes m x True) r"
    using Nd.prems(1) by auto
  consider "q = x" | "q \<in> set (inord l)" | "q \<in> set (inord r)" using Nd.prems(2) by auto
  then show ?case
    by cases (use x Nd.IH(1) [OF x(3)] Nd.IH(2) [OF x(4)] in auto)
qed simp

lemma repk_swap:
  assumes "repk m rt (J @ (W, c, s, B) # K)" "distinct (kp (J @ (W, c, s, B) # K))" "rt \<notin> set (kp (J @ (W, c, s, B) # K))"
    and "repk m' rt ((W, c, z, B) # K)"
    and "J \<noteq> [] \<Longrightarrow> rb_nodes m' z W = rb_nodes m s W"
    and "\<forall>q\<in>set (kp J). RB_POSITION m' q = RB_POSITION m q \<and> redp m' q = redp m q \<and>
           RB_FATHER m' q = (if RB_FATHER m q = s then z else RB_FATHER m q)"
    and "\<forall>q\<in>set (kp J). \<forall>e. (q, e) \<noteq> (kf rt J, kd J) \<longrightarrow> rb_nodes m' q e = rb_nodes m q e"
  shows "repk m' rt (J @ (W, c, z, B) # K)"
  using assms
proof (induction J)
  case (Cons fr J)
  obtain d cf x b where fr: "fr = (d, cf, x, b)" by (cases fr)
  have D: "x \<notin> set (kp J)" "x \<noteq> s" "s \<notin> set (inord b)" "x \<notin> set (inord b)" "set (inord b) \<inter> set (kp J) = {}" "s \<notin> set (kp J)" "x \<noteq> rt"
    using Cons.prems(2,3) fr by auto
  have R: "x \<noteq> 0" "al x" "RB_FATHER m x = kf rt (J @ (W, c, s, B) # K)" "RB_POSITION m x = kd (J @ (W, c, s, B) # K)" "redp m x = cf"
    "rb_nodes m (kf rt (J @ (W, c, s, B) # K)) (kd (J @ (W, c, s, B) # K)) = x" "rep m x (\<not> d) (rb_nodes m x (\<not> d)) b"
    "repk m rt (J @ (W, c, s, B) # K)"
    using Cons.prems(1) fr by auto
  have N: "rb_nodes m' q e = rb_nodes m q e" if "q \<in> set (inord b) \<union> set (kp J) \<or> q = x \<and> e = (\<not> d)" for q e
    using Cons.prems(7) fr D that by auto
  have rec: "repk m' rt (J @ (W, c, z, B) # K)"
  proof (rule Cons.IH)
    show "\<forall>q\<in>set (kp J). \<forall>e. (q, e) \<noteq> (kf rt J, kd J) \<longrightarrow> rb_nodes m' q e = rb_nodes m q e" using N by blast
  qed (use Cons.prems R fr in auto)
  have "RB_FATHER m' x = kf rt (J @ (W, c, z, B) # K)"
  proof (cases "J = []")
    case True
    then show ?thesis using R(3) Cons.prems(6) fr by simp
  next
    case False
    then have "RB_FATHER m x \<noteq> s" using R(3) kf_in_kp [of J rt] D(6) by (auto simp: kf_append)
    then show ?thesis using R(3) Cons.prems(6) fr False by (auto simp: kf_append)
  qed
  moreover have "rb_nodes m' (kf rt (J @ (W, c, z, B) # K)) (kd (J @ (W, c, z, B) # K)) = x"
  proof (cases "J = []")
    case True
    then show ?thesis using R(6) Cons.prems(5) by simp
  next
    case False
    then show ?thesis using R(6) N [of "kf rt J" "kd J"] kf_in_kp [OF False, of rt] by (simp add: kf_append)
  qed
  moreover have "rep m' x (\<not> d) (rb_nodes m' x (\<not> d)) b"
  proof -
    have "same_info m m' q \<and> (\<forall>e. rb_nodes m' q e = rb_nodes m q e)" if q: "q \<in> set (inord b)" for q
    proof -
      have "RB_FATHER m q \<noteq> s" using rep_father [OF R(7) q] D(2,3) by auto
      then show ?thesis using Cons.prems(6) fr q N by (auto simp: same_info_def)
    qed
    then have "rep m' x (\<not> d) (rb_nodes m x (\<not> d)) b = rep m x (\<not> d) (rb_nodes m x (\<not> d)) b"
      by (intro rep_cong) blast
    then show ?thesis using R(7) N [of x "\<not> d"] by simp
  qed
  ultimately show ?case using R rec Cons.prems(6) fr by (auto simp: kf_append)
qed simp

lemma wtree_swap:
  assumes W: "wtree m rt (plug (mk (\<not> W) cz z Lf son) (J @ (W, c, s, B) # K))"
    and son: "son = Lf \<or> (\<exists>x. son = Nd True Lf x Lf)" and B: "B \<noteq> Lf"
    and N: "\<And>q e. rb_nodes m' q e = (if q = kf rt K \<and> e = kd K then z else if q = z \<and> e = (\<not> W) then rp B
        else if q = z \<and> e = W then (if J = [] then rp son else rb_nodes m s W)
        else if J \<noteq> [] \<and> q = kf rt J \<and> e = kd J then rp son else rb_nodes m q e)"
    and F: "\<And>q. RB_FATHER m' q = (if q = s then 0 else if q = z then kf rt K else if q = rp B then z
        else if J \<noteq> [] \<and> q = rb_nodes m s W then z
        else if son \<noteq> Lf \<and> q = rp son then (if J = [] then z else kf rt J) else RB_FATHER m q)"
    and P: "\<And>q. RB_POSITION m' q = (if q = z then kd K else if son \<noteq> Lf \<and> q = rp son then (if J = [] then W else kd J)
        else RB_POSITION m q)"
    and R: "\<And>q. redp m' q = (if q = z then c else if son \<noteq> Lf \<and> q = rp son then False else redp m q)"
  shows "wtree m' rt (plug (blk son) (J @ (W, c, z, B) # K))"
proof -
  let ?Z = "mk (\<not> W) cz z Lf son" and ?f = "kf rt K" and ?d = "kd K"
  note Q = wtree_plugD [OF W]
  have RK: "repk m rt K" "s \<noteq> 0" "al s" "RB_FATHER m s = ?f" "RB_POSITION m s = ?d" "redp m s = c"
    "rb_nodes m ?f ?d = s" "rep m s (\<not> W) (rb_nodes m s (\<not> W)) B"
    using repk_tail [OF Q(1)] by auto
  have D: "distinct (kp J)" "distinct (kp K)" "distinct (inord B)" "s \<notin> set (kp J)" "s \<notin> set (kp K)" "s \<notin> set (inord B)"
    "set (kp J) \<inter> set (kp K) = {}" "set (kp J) \<inter> set (inord B) = {}" "set (inord B) \<inter> set (kp K) = {}"
    using Q(4) by auto
  have z: "z \<noteq> 0" "al z" "z \<notin> set (kp J)" "z \<notin> set (kp K)" "z \<notin> set (inord B)" "z \<noteq> s" "z \<notin> set (inord son)"
    using Q(2,3,6) by auto
  have sd: "set (inord son) \<inter> set (kp J) = {}" "set (inord son) \<inter> set (kp K) = {}" "set (inord son) \<inter> set (inord B) = {}" "s \<notin> set (inord son)"
    using Q(6) by auto
  have rt: "rt \<notin> set (kp J)" "rt \<notin> set (kp K)" "rt \<noteq> s" "rt \<notin> set (inord B)" "rt \<noteq> z" "rt \<notin> set (inord son)" using Q(5,7) by auto
  have fin: "?f \<in> insert rt (set (kp K))" by (rule kf_in)
  have f: "?f \<noteq> z" "?f \<noteq> s" "?f \<notin> set (kp J)" "?f \<notin> set (inord B)" "?f \<notin> set (inord son)"
    using fin z(4,5) D(5,7,9) sd(2) rt by (metis disjoint_iff insertE)+
  have pB: "rp B \<in> set (inord B)" using B rp_in by blast
  have ps: "son \<noteq> Lf \<Longrightarrow> rp son \<in> set (inord son)" using rp_in by blast
  have fJ: "J \<noteq> [] \<Longrightarrow> kf rt J \<in> set (kp J)" by (rule kf_in_kp)
  have pA: "rb_nodes m s W \<in> set (kp J)" if Jne: "J \<noteq> []"
  proof -
    obtain J' fr where J: "J = J' @ [fr]" using Jne by (cases J rule: rev_exhaust) auto
    obtain d cf x b where fr: "fr = (d, cf, x, b)" by (cases fr)
    have "repk m rt (fr # (W, c, s, B) # K)" using repk_tail [of m rt J' "fr # (W, c, s, B) # K"] Q(1) unfolding J by (simp del: repk.simps)
    then have "rb_nodes m s W = x" unfolding fr by simp
    then show ?thesis unfolding J fr by simp
  qed
  have U: "same_info m m' q" if "q \<noteq> s" "q \<noteq> z" "q \<noteq> rp B" "J \<noteq> [] \<longrightarrow> q \<noteq> rb_nodes m s W" "son \<noteq> Lf \<longrightarrow> q \<noteq> rp son" for q
    using that by (auto simp: same_info_def F P R)
  have V: "rb_nodes m' q e = rb_nodes m q e" if "(q, e) \<noteq> (?f, ?d)" "q \<noteq> z" "J \<noteq> [] \<longrightarrow> (q, e) \<noteq> (kf rt J, kd J)" for q e
    using that N [of q e] by auto
  have "repk m' rt K"
  proof (rule repk_cong [OF RK(1) D(2) rt(2)]; intro ballI allI impI)
    fix q assume q: "q \<in> set (kp K)"
    show "same_info m m' q"
    proof (rule U)
      show "q \<noteq> s" "q \<noteq> z" "q \<noteq> rp B" using q D(5,9) z(4) pB by auto
      show "J \<noteq> [] \<longrightarrow> q \<noteq> rb_nodes m s W" using q pA D(7) by auto
      show "son \<noteq> Lf \<longrightarrow> q \<noteq> rp son" using q ps sd(2) by auto
    qed
  next
    fix q e assume q: "q \<in> insert rt (set (kp K))" and ne: "(q, e) \<noteq> (?f, ?d)"
    show "rb_nodes m' q e = rb_nodes m q e"
    proof (rule V [OF ne])
      show "q \<noteq> z" using q z(4) rt(5) by auto
      show "J \<noteq> [] \<longrightarrow> (q, e) \<noteq> (kf rt J, kd J)" using q fJ D(7) rt(1) by auto
    qed
  qed
  moreover have "rep m' z (\<not> W) (rp B) B"
  proof (rule rep_move [OF _ D(3)])
    show "rep m s (\<not> W) (rp B) B" using RK(8) rep_rp by metis
    have "same_info m m' q" if q: "q \<in> set (inord B)" "q \<noteq> rp B" for q
    proof (rule U)
      show "q \<noteq> s" "q \<noteq> z" "q \<noteq> rp B" using q D(6) z(5) by auto
      show "J \<noteq> [] \<longrightarrow> q \<noteq> rb_nodes m s W" using q pA D(8) by auto
      show "son \<noteq> Lf \<longrightarrow> q \<noteq> rp son" using q ps sd(3) by auto
    qed
    moreover have "rb_nodes m' q e = rb_nodes m q e" if q: "q \<in> set (inord B)" for q e
    proof (rule V)
      show "(q, e) \<noteq> (?f, ?d)" "q \<noteq> z" using q f(4) z(5) by auto
      show "J \<noteq> [] \<longrightarrow> (q, e) \<noteq> (kf rt J, kd J)" using q fJ D(8) by auto
    qed
    moreover have "redp m' q = redp m q" if q: "q \<in> set (inord B)" for q
      using q z(5) ps sd(3) R [of q] by auto
    ultimately show "\<forall>q\<in>set (inord B). redp m' q = redp m q \<and> (\<forall>e. rb_nodes m' q e = rb_nodes m q e) \<and> (q \<noteq> rp B \<longrightarrow> same_info m m' q)"
      by blast
    have "rp B \<noteq> s" "rp B \<noteq> z" using pB D(6) z(5) by auto
    moreover have "son \<noteq> Lf \<longrightarrow> rp B \<noteq> rp son" using pB ps sd(3) by auto
    moreover have "RB_POSITION m (rp B) = (\<not> W)" using RK(8) B by (cases B) auto
    ultimately show "RB_FATHER m' (rp B) = z \<and> RB_POSITION m' (rp B) = (\<not> W)" by (auto simp: F P)
  qed
  moreover have "rb_nodes m' z (\<not> W) = rp B" "rb_nodes m' ?f ?d = z" "RB_FATHER m' z = ?f" "RB_POSITION m' z = ?d" "redp m' z = c"
    using f(1) z(6) by (auto simp: N F P R)
  ultimately have base: "repk m' rt ((W, c, z, B) # K)"
    using z(1,2) by simp
  have Acase: "q = rb_nodes m s W" if q: "q \<in> set (kp J)" "RB_FATHER m q = s" for q
  proof -
    have "wtree m rt (plug (plug ?Z J) ((W, c, s, B) # K))" using W unfolding plug_append .
    from wtree_plugD(2) [OF this] have "rep m s W (rb_nodes m s W) (plug ?Z J)" by simp
    from rep_father [OF this, of q] q show ?thesis
      using D(4) z(6) sd(4) by (auto simp: set_plug)
  qed
  have fA: "RB_FATHER m (rb_nodes m s W) = s" if "J \<noteq> []"
  proof -
    have "wtree m rt (plug (plug ?Z J) ((W, c, s, B) # K))" using W unfolding plug_append .
    from wtree_plugD(2) [OF this] have "rep m s W (rb_nodes m s W) (plug ?Z J)" by simp
    then show ?thesis using pA [OF that] repk_al [OF Q(1)] by (cases "plug ?Z J") auto
  qed
  have J1: "RB_POSITION m' q = RB_POSITION m q \<and> redp m' q = redp m q \<and>
      RB_FATHER m' q = (if RB_FATHER m q = s then z else RB_FATHER m q)" if q: "q \<in> set (kp J)" for q
  proof -
    have ne: "q \<noteq> s" "q \<noteq> z" "q \<noteq> rp B" "son \<noteq> Lf \<longrightarrow> q \<noteq> rp son" "J \<noteq> []"
      using q D(4,8) z(3) pB ps sd(1) by auto
    show ?thesis
    proof (cases "q = rb_nodes m s W")
      case True
      then show ?thesis using ne fA by (auto simp: F P R)
    next
      case False
      then have "RB_FATHER m q \<noteq> s" using Acase [OF q] by blast
      then show ?thesis using U [OF ne(1-3)] ne False by (simp add: same_info_def)
    qed
  qed
  have "repk m' rt (J @ (W, c, z, B) # K)"
  proof (rule repk_swap [OF Q(1,4,5) base])
    show "J \<noteq> [] \<Longrightarrow> rb_nodes m' z W = rb_nodes m s W" using f(1) by (simp add: N)
    show "\<forall>q\<in>set (kp J). RB_POSITION m' q = RB_POSITION m q \<and> redp m' q = redp m q \<and>
      RB_FATHER m' q = (if RB_FATHER m q = s then z else RB_FATHER m q)" using J1 by blast
    show "\<forall>q\<in>set (kp J). \<forall>e. (q, e) \<noteq> (kf rt J, kd J) \<longrightarrow> rb_nodes m' q e = rb_nodes m q e"
    proof (intro ballI allI impI)
      fix q e assume q: "q \<in> set (kp J)" "(q, e) \<noteq> (kf rt J, kd J)"
      show "rb_nodes m' q e = rb_nodes m q e"
        by (rule V) (use q f(3) z(3) in auto)
    qed
  qed
  moreover have "rep m' (kf rt (J @ (W, c, z, B) # K)) (kd (J @ (W, c, z, B) # K))
      (rb_nodes m' (kf rt (J @ (W, c, z, B) # K)) (kd (J @ (W, c, z, B) # K))) (blk son)"
  proof -
    have link: "rb_nodes m' (kf rt (J @ (W, c, z, B) # K)) (kd (J @ (W, c, z, B) # K)) = rp son"
    proof (cases "J = []")
      case True
      then show ?thesis using f(1) by (simp add: N)
    next
      case False
      then have "kf rt J \<noteq> z" "kf rt J \<noteq> ?f" using fJ z(3) f(3) by auto
      then show ?thesis using False by (simp add: N kf_append)
    qed
    show ?thesis
    proof (cases "son = Lf")
      case False
      then obtain x where so: "son = Nd True Lf x Lf" using son by auto
      have x: "x \<noteq> 0" "al x" "rb_nodes m x False = 0" "rb_nodes m x True = 0" using Q(2) so by auto
      have ne: "x \<noteq> s" "x \<noteq> z" "x \<noteq> rp B" "J \<noteq> [] \<longrightarrow> x \<noteq> rb_nodes m s W" "x \<noteq> ?f" "J \<noteq> [] \<longrightarrow> x \<noteq> kf rt J"
        using sd z(7) so pB pA f(5) fJ by auto
      have "rb_nodes m' x e = 0" for e
        using V [of x e] ne x by (cases e) auto
      moreover have "RB_FATHER m' x = kf rt (J @ (W, c, z, B) # K)" "RB_POSITION m' x = kd (J @ (W, c, z, B) # K)" "\<not> redp m' x"
        using ne so by (simp_all add: F P R kf_append)
      ultimately show ?thesis using link so x by simp
    qed (use link in simp)
  qed
  moreover have "set (inord (blk son)) = set (inord son)" "distinct (inord (blk son))" using son by auto
  ultimately show ?thesis
    unfolding wtree_plug using Q(3-9) z sd rt D by auto
qed

lemma swap_mem_eqs:
  assumes "al z" "al f" "al fz" "z \<noteq> s" "f \<noteq> z" "f \<noteq> s" "pB \<noteq> z" "pB \<noteq> s" "near \<or> pA \<noteq> z \<and> pA \<noteq> s \<and> pA \<noteq> pB"
    "sred \<longrightarrow> son \<noteq> z \<and> son \<noteq> s \<and> son \<noteq> pB \<and> (near \<or> son \<noteq> pA)" "near \<or> fz \<noteq> z \<and> fz \<noteq> s" "pA = rb_nodes m s W"
    "near \<or> fz \<noteq> f" and m'_def: "m' = swap_mem near W s z son f d pB fz sred m"
  shows "rb_nodes m' q e = (if q = f \<and> e = d then z else if q = z \<and> e = (\<not> W) then pB
        else if \<not> near \<and> q = z \<and> e = W then pA else if \<not> near \<and> q = fz \<and> e = (\<not> W) then son else rb_nodes m q e)"
    and "RB_FATHER m' q = (if q = s then 0 else if q = z then f else if q = pB then z else if \<not> near \<and> q = pA then z
        else if sred \<and> \<not> near \<and> q = son then fz else RB_FATHER m q)"
    and "RB_POSITION m' q = (if q = z then RB_POSITION m s else if sred \<and> \<not> near \<and> q = son then (\<not> W) else RB_POSITION m q)"
    and "redp m' q = (if q = z then redp m s else if sred \<and> q = son then False else redp m q)"
proof -
  define m1 where "m1 = (if sred then (let m = RB_MARK_BLACK son m in if near then m
       else RB_SET_POSITION son (\<not> W) (RB_SET_FATHER son fz m)) else m)"
  define m2 where "m2 = (if near then m1 else RB_SET_FATHER pA z (set_nodes z W pA (set_nodes fz (\<not> W) son m1)))"
  have n1: "rb_nodes m1 = rb_nodes m" by (intro ext) (simp add: m1_def Let_def)
  have i1: "RB_FATHER m1 q = (if sred \<and> \<not> near \<and> q = son then fz else RB_FATHER m q)"
    "RB_POSITION m1 q = (if sred \<and> \<not> near \<and> q = son then (\<not> W) else RB_POSITION m q)"
    "redp m1 q = (if sred \<and> q = son then False else redp m q)" for q
    using assms(1-13) by (auto simp: m1_def Let_def)
  have n2: "rb_nodes m2 q e = (if \<not> near \<and> q = z \<and> e = W then pA else if \<not> near \<and> q = fz \<and> e = (\<not> W) then son else rb_nodes m q e)" for q e
    using assms(1-13) by (simp add: m2_def n1)
  have i2: "RB_FATHER m2 q = (if \<not> near \<and> q = pA then z else RB_FATHER m1 q)" "RB_POSITION m2 q = RB_POSITION m1 q"
    "redp m2 q = redp m1 q" for q
    using assms(1-13) by (simp_all add: m2_def)
  have m': "m' = RB_SET_FATHER s 0 (set_nodes f d z (RB_SET_FATHER z f (RB_COPY_PROPERTIES z s
      (RB_SET_FATHER pB z (set_nodes z (\<not> W) pB m2)))))"
    using n1 by (simp add: m'_def swap_mem_def m1_def [symmetric] assms(12) [symmetric] m2_def)
  show "rb_nodes m' q e = (if q = f \<and> e = d then z else if q = z \<and> e = (\<not> W) then pB
        else if \<not> near \<and> q = z \<and> e = W then pA else if \<not> near \<and> q = fz \<and> e = (\<not> W) then son else rb_nodes m q e)"
    using assms(5) unfolding m' set_father set_nodes_info rb_nodes_set copy_properties n2
    by (cases "q = f \<and> e = d"; cases "q = z"; cases "e = W") simp_all
  show "RB_FATHER m' q = (if q = s then 0 else if q = z then f else if q = pB then z else if \<not> near \<and> q = pA then z
        else if sred \<and> \<not> near \<and> q = son then fz else RB_FATHER m q)"
    using assms(1-3) by (simp add: m' i2 i1)
  show "RB_POSITION m' q = (if q = z then RB_POSITION m s else if sred \<and> \<not> near \<and> q = son then (\<not> W) else RB_POSITION m q)"
    using assms(1-13) by (auto simp: m' i2 i1)
  show "redp m' q = (if q = z then redp m s else if sred \<and> q = son then False else redp m q)"
    using assms(1-13) by (auto simp: m' i2 i1)
qed

lemma swap_prune_eq:
  fixes t rt
  defines "m \<equiv> rb_mem t"
  assumes "al z" "al f" "al fz" "z \<noteq> s" "f \<noteq> z" "f \<noteq> s" "pB \<noteq> z" "pB \<noteq> s" "near \<or> pA \<noteq> z \<and> pA \<noteq> s \<and> pA \<noteq> pB"
    "sred \<longrightarrow> son \<noteq> z \<and> son \<noteq> s \<and> son \<noteq> pB \<and> (near \<or> son \<noteq> pA)" "near \<or> fz \<noteq> z \<and> fz \<noteq> s" "pA = rb_nodes m s W"
    and z: "RB_POSITION m z = (if near then W else \<not> W)" "RB_FATHER m z = (if near then s else fz)" "rb_nodes m z W = son"
      "RB_BLACK_P m z = (\<not> cz)"
    and s: "rb_nodes m s (\<not> W) = pB" "RB_FATHER m s = f" "RB_POSITION m s = d" and r: "RB_RED_P m son = sred"
    and mm: "rbt_minmax t d \<noteq> s"
    and m1: "m1 = swap_mem near W s z son f d pB fz sred m"
  shows "rb_tree_swap_prune_and_rebalance rt s z t =
    (if cz \<or> sred then Some (t\<lparr>rb_mem := m1\<rparr>)
     else do { m \<leftarrow> rb_tree_removal_rebalance rt (if near then z else fz) (if near then W else \<not> W) m1;
               Some (t\<lparr>rb_mem := m\<rparr>) })"
proof (cases near)
  case True
  have mm': "rbt_minmax (t\<lparr>rb_mem := M\<rparr>) d \<noteq> s" for M using mm by (cases d) (simp_all add: rbt_minmax_def)
  show ?thesis
    using assms(2-12) z s r True mm'
    unfolding rb_tree_swap_prune_and_rebalance_def m_def [symmetric] Let_def m1 swap_mem_def
    by (cases sred) simp_all
next
  case False
  have mm': "rbt_minmax (t\<lparr>rb_mem := M\<rparr>) d \<noteq> s" for M using mm by (cases d) (simp_all add: rbt_minmax_def)
  have fz: "fz \<noteq> s" "s \<noteq> fz" "fz \<noteq> z" "z \<noteq> fz" using assms(12) False by auto
  have A: "rb_nodes m s W \<noteq> z" "rb_nodes m s W \<noteq> s" "rb_nodes m s W \<noteq> pB" using assms(10,13) False by simp_all
  note ne = assms(5-9) assms(5-9) [symmetric] A A [symmetric] fz
  show ?thesis
  proof (cases sred)
    case True
    have S: "son \<noteq> z" "son \<noteq> s" "son \<noteq> pB" "son \<noteq> rb_nodes m s W" using assms(11,13) False True by simp_all
    note S' = S S [symmetric]
    show ?thesis
      using assms(2-4) z s r False True mm' ne S'
      unfolding rb_tree_swap_prune_and_rebalance_def m_def [symmetric] Let_def m1 swap_mem_def by simp
  next
    case sr: False
    show ?thesis
      using assms(2-4) z s r False sr mm' ne
      unfolding rb_tree_swap_prune_and_rebalance_def m_def [symmetric] Let_def m1 swap_mem_def by simp
  qed
qed

lemma kl_append: "kl (J @ K) = kl K @ kl J" "kr (J @ K) = kr J @ kr K"
  by (induction J) (auto split: prod.splits)

lemma repk_child:
  assumes "repk m rt (J @ (W, c, s, B) # K)" "J \<noteq> []"
  shows "rb_nodes m s W \<in> set (kp J)"
proof -
  obtain J' fr where J: "J = J' @ [fr]" using assms(2) by (cases J rule: rev_exhaust) auto
  obtain d cf x b where fr: "fr = (d, cf, x, b)" by (cases fr)
  have "repk m rt (fr # (W, c, s, B) # K)"
    using repk_tail [of m rt J' "fr # (W, c, s, B) # K"] assms(1) unfolding J by (simp del: repk.simps)
  then have "rb_nodes m s W = x" unfolding fr by simp
  then show ?thesis unfolding J fr by simp
qed

lemma kinv_rename: "kinv (J @ (W, c, s, B) # K) n x = kinv (J @ (W, c, z, B) # K) n x"
  by (induction J arbitrary: n x) (auto split: prod.splits)

lemma path_dir: "\<forall>fr\<in>set J. fst fr = e \<Longrightarrow> (J \<noteq> [] \<longrightarrow> kd J = e) \<and> (e \<longrightarrow> kr J = []) \<and> (\<not> e \<longrightarrow> kl J = [])"
  by (induction J) (auto simp: kd_def split: prod.splits)

lemma swap_inord:
  assumes "\<forall>fr\<in>set J. fst fr = (\<not> W)" "set (inord son') = set (inord son)" "inord son' = inord son" "B \<noteq> Lf"
  shows "\<exists>xs ys. inord (plug (mk (\<not> W) cz z Lf son) (J @ (W, c, s, B) # K)) = xs @ s # ys \<and>
    inord (plug son' (J @ (W, c, z, B) # K)) = xs @ ys \<and> xs \<noteq> [] \<and> ys \<noteq> []"
proof -
  have nB: "inord B \<noteq> []" using assms(4) by (cases B) auto
  show ?thesis
  proof (cases W)
    case True
    then have "kl J = []" using path_dir [OF assms(1)] by simp
    then show ?thesis using True assms(3) nB
      by (intro exI [of _ "kl K @ inord B"] exI [of _ "z # inord son @ kr J @ kr K"]) (simp add: inord_plug kl_append inord_mk2)
  next
    case False
    then have "kr J = []" using path_dir [OF assms(1)] by simp
    then show ?thesis using False assms(3) nB
      by (intro exI [of _ "kl K @ kl J @ inord son @ [z]"] exI [of _ "inord B @ kr K"]) (simp add: inord_plug kl_append inord_mk2)
  qed
qed

lemma red_leaf: "rbv t \<Longrightarrow> bh t = 0 \<Longrightarrow> t = Lf \<or> (\<exists>x. t = Nd True Lf x Lf)"
proof (cases t)
  case (Nd c l x r)
  have Z: "bh u = 0 \<Longrightarrow> \<not> rootred u \<Longrightarrow> u = Lf" for u by (cases u) auto
  assume "rbv t" "bh t = 0"
  then have "c" "l = Lf" "r = Lf" using Nd Z [of l] Z [of r] by (auto split: if_splits)
  then show ?thesis using Nd by auto
qed simp

lemma swap_prune_ok:
  assumes H: "rb_holds rt t (plug (mk (\<not> W) cz z Lf son) (J @ (W, c, s, B) # K))"
    and dirs: "\<forall>fr\<in>set J. fst fr = (\<not> W)" and B: "B \<noteq> Lf"
  shows "\<exists>t' T' xs ys. rb_tree_swap_prune_and_rebalance rt s z t = Some t' \<and> rb_holds rt t' T' \<and>
    inord (plug (mk (\<not> W) cz z Lf son) (J @ (W, c, s, B) # K)) = xs @ s # ys \<and> inord T' = xs @ ys"
proof -
  let ?m = "rb_mem t" and ?Z = "mk (\<not> W) cz z Lf son" and ?KK = "J @ (W, c, s, B) # K" and ?KZ = "J @ (W, c, z, B) # K"
  let ?f = "kf rt K" and ?d = "kd K" and ?fz = "kf rt J" and ?sr = "rootred son"
  have W: "wtree ?m rt (plug ?Z ?KK)" and ok: "rbt_ok (plug ?Z ?KK)" using H by (simp_all add: rb_holds_def)
  have rbZ: "rbv ?Z" and kin: "kinv ?KK (bh ?Z) cz" using ok unfolding rbt_ok_plug by simp_all
  have bs: "bh son = 0" "rbv son" "cz \<longrightarrow> \<not> ?sr" using rbZ by auto
  have son: "son = Lf \<or> (\<exists>x. son = Nd True Lf x Lf)" using red_leaf bs by blast
  have sr: "?sr = (son \<noteq> Lf)" using son by auto
  have bhZ: "bh ?Z = (if cz then 0 else 1)" using bh_mk [of Lf son "\<not> W" cz z] bs by simp
  note Q = wtree_plugD [OF W]
  note Z = rep_mkD [OF Q(2)]
  have repson: "rep ?m z W (rb_nodes ?m z W) son" using Z(8) by simp
  have RK: "repk ?m rt K" "s \<noteq> 0" "al s" "RB_FATHER ?m s = ?f" "RB_POSITION ?m s = ?d" "redp ?m s = c"
    "rep ?m s (\<not> W) (rb_nodes ?m s (\<not> W)) B"
    using repk_tail [OF Q(1)] by auto
  have fal: "al ?f" using kf_al [OF RK(1) Q(9,8)] by simp
  have zin: "z \<in> set (inord ?Z)" by simp
  have D: "z \<notin> set (kp ?KK)" "z \<noteq> rt" using Q(6,7) by auto
  have zs: "z \<noteq> s" "z \<notin> set (inord B)" "z \<notin> set (kp J)" "z \<notin> set (kp K)" using D by auto
  have sn: "s \<notin> set (kp J)" "s \<notin> set (kp K)" "s \<notin> set (inord B)" "s \<noteq> rt" "s \<notin> set (inord son)" using Q(4-7) by auto
  have fz: "?f \<noteq> z" "?f \<noteq> s" using kf_in [of rt K] zs sn D by auto
  have pB: "rp B \<in> set (inord B)" using rp_in B by blast
  have pB2: "rp B \<noteq> z" "rp B \<noteq> s" using pB zs sn by auto
  have pA: "J \<noteq> [] \<Longrightarrow> rb_nodes ?m s W \<in> set (kp J)" using repk_child [OF Q(1)] .
  have fJ: "J \<noteq> [] \<Longrightarrow> ?fz \<in> set (kp J)" by (rule kf_in_kp)
  have dis: "set (kp J) \<inter> set (inord B) = {}" "set (kp J) \<inter> set (kp K) = {}" "rt \<notin> set (kp J)" using Q(4,5) by auto
  have ps: "son \<noteq> Lf \<Longrightarrow> rp son \<in> set (inord son)" using rp_in by blast
  have sds: "set (inord son) \<inter> set (kp J) = {}" "set (inord son) \<inter> set (inord B) = {}" "z \<notin> set (inord son)" using Q(3,6) by auto
  have h1: "J = [] \<or> rb_nodes ?m s W \<noteq> z \<and> rb_nodes ?m s W \<noteq> s \<and> rb_nodes ?m s W \<noteq> rp B"
    using pA pB zs sn dis by auto
  have h2: "?sr \<longrightarrow> rp son \<noteq> z \<and> rp son \<noteq> s \<and> rp son \<noteq> rp B \<and> (J = [] \<or> rp son \<noteq> rb_nodes ?m s W)"
  proof
    assume ?sr
    then have "rp son \<in> set (inord son)" using sr ps by blast
    then show "rp son \<noteq> z \<and> rp son \<noteq> s \<and> rp son \<noteq> rp B \<and> (J = [] \<or> rp son \<noteq> rb_nodes ?m s W)"
      using sds sn(5) pB pA by auto
  qed
  have h3: "J = [] \<or> ?fz \<noteq> z \<and> ?fz \<noteq> s" using fJ zs sn by auto
  have h4: "J = [] \<or> ?fz \<noteq> ?f" using fJ dis kf_in [of rt K] by auto
  have fzal: "al ?fz" using fJ repk_al [OF Q(1), of ?fz] Q(9) by (cases "J = []") auto
  define m1 where "m1 = swap_mem (J = []) W s z (rp son) ?f ?d (rp B) ?fz ?sr ?m"
  note E = swap_mem_eqs [OF Z(3) fal fzal zs(1) fz pB2 h1 h2 h3 refl h4 m1_def]
  have kdJ: "J \<noteq> [] \<Longrightarrow> kd J = (\<not> W)" using path_dir [OF dirs] by simp
  have zp: "rb_nodes ?m z W = rp son" "RB_POSITION ?m z = (if J = [] then W else \<not> W)" "RB_FATHER ?m z = (if J = [] then s else ?fz)"
    using rep_rp [OF repson] Z(4,5) kdJ by (auto simp: kf_append)
  have sonp: "RB_FATHER ?m (rp son) = z \<and> RB_POSITION ?m (rp son) = W" if "son \<noteq> Lf"
    using repson that by (cases son) auto
  have W1: "wtree m1 rt (plug (blk son) ?KZ)"
  proof (rule wtree_swap [OF W son B])
    show "rb_nodes m1 q e = (if q = ?f \<and> e = ?d then z else if q = z \<and> e = (\<not> W) then rp B
        else if q = z \<and> e = W then (if J = [] then rp son else rb_nodes ?m s W)
        else if J \<noteq> [] \<and> q = kf rt J \<and> e = kd J then rp son else rb_nodes ?m q e)" for q e
      using zp(1) kdJ by (auto simp: E(1))
    show "RB_FATHER m1 q = (if q = s then 0 else if q = z then ?f else if q = rp B then z
        else if J \<noteq> [] \<and> q = rb_nodes ?m s W then z
        else if son \<noteq> Lf \<and> q = rp son then (if J = [] then z else kf rt J) else RB_FATHER ?m q)" for q
      using sonp by (auto simp: E(2) sr)
    show "RB_POSITION m1 q = (if q = z then ?d else if son \<noteq> Lf \<and> q = rp son then (if J = [] then W else kd J) else RB_POSITION ?m q)" for q
      using sonp kdJ RK(5) by (auto simp: E(3) sr)
    show "redp m1 q = (if q = z then c else if son \<noteq> Lf \<and> q = rp son then False else redp ?m q)" for q
      using RK(6) by (simp add: E(4) sr)
  qed
  have "inord (blk son) = inord son" using son by auto
  from swap_inord [OF dirs _ this B]
  obtain xs ys where xy: "inord (plug ?Z ?KK) = xs @ s # ys" "inord (plug (blk son) ?KZ) = xs @ ys" "xs \<noteq> []" "ys \<noteq> []"
    using \<open>inord (blk son) = inord son\<close> by metis
  have "plug ?Z ?KK \<noteq> Lf" using xy(1) by auto
  then have mmo: "rbt_min t = hd xs" "rbt_max t = last ys" using H xy unfolding rb_holds_def by (simp_all add: hd_append)
  have "distinct (xs @ s # ys)" using W xy(1) unfolding wtree_def by simp
  then have mm: "rbt_minmax t ?d \<noteq> s" using mmo xy(3,4) hd_in_set [of xs] last_in_set [of ys] by (auto simp: rbt_minmax_def)
  have blkz: "RB_BLACK_P ?m z = (\<not> cz)" using Z(2,6) by (simp add: RB_BLACK_redp)
  have pBs: "rb_nodes ?m s (\<not> W) = rp B" using RK(7) rep_rp by blast
  have redson: "RB_RED_P ?m (rp son) = ?sr" using rep_red [OF repson] zp(1) by simp
  note ev = swap_prune_eq [where rt = rt, OF Z(3) fal fzal zs(1) fz pB2 h1 h2 h3 refl zp(2,3,1) blkz pBs RK(4,5) redson mm m1_def]
  have kinZ: "kinv ?KZ (if cz then 0 else 1) cz" using kin bhZ kinv_rename [of J W c s B K _ _ z] by simp
  have fin: "\<exists>m2 T'. (if cz \<or> ?sr then Some m1
       else rb_tree_removal_rebalance rt (if J = [] then z else ?fz) (if J = [] then W else \<not> W) m1) = Some m2 \<and>
      wtree m2 rt T' \<and> rbt_ok T' \<and> inord T' = xs @ ys"
  proof (cases "cz \<or> ?sr")
    case True
    have "rbv (blk son) \<and> kinv ?KZ (bh (blk son)) (rootred (blk son))"
      using True kinZ kinv_mono [of ?KZ 0] son bs(3) by (cases cz) auto
    then have "rbt_ok (plug (blk son) ?KZ)" unfolding rbt_ok_plug .
    then show ?thesis using True W1 xy by auto
  next
    case False
    then have sl: "son = Lf" "\<not> cz" using sr by auto
    obtain w cw p b K' where KZ: "?KZ = (w, cw, p, b) # K'" by (cases ?KZ) auto
    have wp: "p = (if J = [] then z else ?fz)" "w = (if J = [] then W else \<not> W)"
      using KZ kdJ by (cases J; auto simp: kf_def kd_def split: prod.splits)+
    have "\<exists>m' T. rb_tree_removal_rebalance rt p w m1 = Some m' \<and> wtree m' rt T \<and> rbt_ok T \<and>
        inord T = inord (plug Lf ((w, cw, p, b) # K'))"
      by (rule removal_rebalance_ok) (use W1 kinZ sl KZ in auto)
    then show ?thesis using False xy sl wp KZ by auto
  qed
  then obtain m2 T' where m2: "(if cz \<or> ?sr then Some m1
       else rb_tree_removal_rebalance rt (if J = [] then z else ?fz) (if J = [] then W else \<not> W) m1) = Some m2"
      "wtree m2 rt T'" "rbt_ok T'" "inord T' = xs @ ys" by blast
  have "rb_tree_swap_prune_and_rebalance rt s z t = Some (t\<lparr>rb_mem := m2\<rparr>)"
    using m2(1) unfolding ev by (auto split: if_splits)
  moreover have "rb_holds rt (t\<lparr>rb_mem := m2\<rparr>) T'"
    using m2 mmo xy(3,4) by (simp add: rb_holds_def hd_append)
  ultimately show ?thesis using xy(1) m2(4) by blast
qed

lemma locate: "s \<in> set (inord T) \<Longrightarrow> \<exists>K c l r. T = plug (Nd c l s r) K"
proof (induction T)
  case (Nd c l x r)
  consider "s = x" | "s \<in> set (inord l)" | "s \<in> set (inord r)" using Nd.prems by auto
  then show ?case
  proof cases
    case 1
    then have "Nd c l x r = plug (Nd c l s r) []" by simp
    then show ?thesis by blast
  next
    case 2
    then obtain K c' l' r' where "l = plug (Nd c' l' s r') K" using Nd.IH(1) by blast
    then have "Nd c l x r = plug (Nd c' l' s r') (K @ [(False, c, x, r)])"
      by (simp add: plug_append [symmetric] mk_def)
    then show ?thesis by blast
  next
    case 3
    then obtain K c' l' r' where "r = plug (Nd c' l' s r') K" using Nd.IH(2) by blast
    then have "Nd c l x r = plug (Nd c' l' s r') (K @ [(True, c, x, l)])"
      by (simp add: plug_append [symmetric] mk_def)
    then show ?thesis by blast
  qed
qed simp

lemma rb_remove_ok:
  assumes H: "rb_holds rt t T" and s: "s \<in> set (inord T)" "s = obj + off" "obj \<noteq> 0"
  shows "\<exists>t' T' xs ys. rb_tree_remove_node rt off obj t = Some t' \<and> rb_holds rt t' T' \<and>
    inord T = xs @ s # ys \<and> inord T' = xs @ ys"
proof -
  let ?m = "rb_mem t"
  obtain K c l r where T: "T = plug (Nd c l s r) K" using locate [OF s(1)] by blast
  have W: "wtree ?m rt (plug (Nd c l s r) K)" using H T by (simp add: rb_holds_def)
  note Q = wtree_plugD [OF W]
  have S: "s \<noteq> 0" "RB_POSITION ?m s = kd K" "redp ?m s = c" "rep ?m s False (rb_nodes ?m s False) l" "rep ?m s True (rb_nodes ?m s True) r"
    using Q(2) by auto
  have ch: "rb_nodes ?m s False = 0 \<longleftrightarrow> l = Lf" "rb_nodes ?m s True = 0 \<longleftrightarrow> r = Lf"
    using S(4,5) by (cases l; auto; cases r; auto)+
  have iT: "inord T = kl K @ inord l @ s # inord r @ kr K" using T by (simp add: inord_plug)
  have root: "RB_ROOT_P rt ?m s \<longleftrightarrow> K = []" using wtree_root [of ?m rt False c s l r K] W by (simp add: mk_def)
  consider "l = Lf" "r = Lf" | "l = Lf" "r \<noteq> Lf" | "l \<noteq> Lf" "r = Lf" | "l \<noteq> Lf" "r \<noteq> Lf" by blast
  then show ?thesis
  proof cases
    case 1
    have "rb_tree_remove_node rt off obj t = rb_tree_prune_node rt s (\<not> c \<and> K \<noteq> []) t"
      using S ch 1 root s(2) by (simp add: rb_tree_remove_node_def Let_def RB_CHILDLESS_P_def RB_BLACK_redp)
    then show ?thesis using prune_node_ok [of rt t c s K] H T 1 iT by fastforce
  next
    case 2
    obtain cx x xa xb where x: "r = mk False cx x xa xb" using 2(2) mk_cases by metis
    have "rb_tree_remove_node rt off obj t = Some (rb_tree_prune_blackred_branch rt s True t)"
      using S ch 2 s(2) by (simp add: rb_tree_remove_node_def Let_def RB_CHILDLESS_P_def RB_TWOCHILDREN_P_def)
    moreover have "rb_holds rt t (plug (mk True c s (mk False cx x xa xb) Lf) K)" using H T 2 x by (simp add: mk_def)
    from prune_blackred_ok [OF this] obtain T' where "rb_holds rt (rb_tree_prune_blackred_branch rt s True t) T'"
      "inord T' = kl K @ x # kr K" "xa = Lf" "xb = Lf" by blast
    ultimately show ?thesis using iT 2(1) x
      by (intro exI [of _ "rb_tree_prune_blackred_branch rt s True t"] exI [of _ T'] exI [of _ "kl K"] exI [of _ "x # kr K"])
        (simp add: mk_def)
  next
    case 3
    obtain cx x xa xb where x: "l = mk False cx x xa xb" using 3(1) mk_cases by metis
    have "rb_tree_remove_node rt off obj t = Some (rb_tree_prune_blackred_branch rt s False t)"
      using S ch 3 s(2) by (simp add: rb_tree_remove_node_def Let_def RB_CHILDLESS_P_def RB_TWOCHILDREN_P_def)
    moreover have "rb_holds rt t (plug (mk False c s (mk False cx x xa xb) Lf) K)" using H T 3 x by (simp add: mk_def)
    from prune_blackred_ok [OF this] obtain T' where "rb_holds rt (rb_tree_prune_blackred_branch rt s False t) T'"
      "inord T' = kl K @ x # kr K" "xa = Lf" "xb = Lf" by blast
    ultimately show ?thesis using iT 3(2) x
      by (intro exI [of _ "rb_tree_prune_blackred_branch rt s False t"] exI [of _ T'] exI [of _ "kl K @ [x]"] exI [of _ "kr K"])
        (simp add: mk_def)
  next
    case 4
    define W where "W = (\<not> kd K)"
    define A where "A = (if W then r else l)"
    define B where "B = (if W then l else r)"
    have node: "Nd c l s r = mk W c s A B" by (simp add: mk_def A_def B_def)
    have AB: "A \<noteq> Lf" "B \<noteq> Lf" using 4 by (simp_all add: A_def B_def)
    have rA: "rep ?m s W (rb_nodes ?m s W) A" using S(4,5) by (simp add: A_def)
    from iterate_down_ok [OF rA AB(1), of "\<not> W"]
    obtain J cz z son where it: "iterate_down (\<not> W) ?m (rb_nodes ?m s W) = Some z"
      and A: "A = plug (mk (\<not> W) cz z Lf son) J" and dirs: "\<forall>fr\<in>set J. fst fr = (\<not> W)" by blast
    have T2: "T = plug (mk (\<not> W) cz z Lf son) (J @ (W, c, s, B) # K)"
      unfolding plug_append [symmetric] A [symmetric] using T node by simp
    have "rb_nodes ?m s W \<noteq> 0" using ch 4 by (cases W) auto
    then have "rb_tree_iterate rt off obj W t = Some (z - off)"
      using it s(2,3) by (simp add: rb_tree_iterate_def Let_def)
    then have "rb_tree_remove_node rt off obj t = rb_tree_swap_prune_and_rebalance rt s z t"
      using S ch 4 s(2) by (simp add: rb_tree_remove_node_def Let_def RB_CHILDLESS_P_def RB_TWOCHILDREN_P_def W_def)
    then show ?thesis using swap_prune_ok [of rt t W cz z son J c s B K] H T2 dirs AB(2) by metis
  qed
qed

lemma rb_init_ok: "al rt \<Longrightarrow> rt \<noteq> 0 \<Longrightarrow> rb_holds rt (rb_tree_init rt t) Lf"
  by (simp add: rb_holds_def rb_tree_init_def Let_def set_minmax_def wtree_def rbt_ok_def)

lemma bh_size: "rbv t \<Longrightarrow> 2 ^ bh t \<le> length (inord t) + 1"
proof (induction t)
  case (Nd c l x r)
  then have "2 ^ bh l \<le> length (inord l) + 1" "2 ^ bh l \<le> length (inord r) + 1" by auto
  then show ?case by (cases c) auto
qed simp

lemma depth_bh: "rbv t \<Longrightarrow> depth t \<le> 2 * bh t + (if rootred t then 1 else 0)"
proof (induction t)
  case (Nd c l x r)
  then have "depth l \<le> 2 * bh l + (if rootred l then 1 else 0)" "depth r \<le> 2 * bh l + (if rootred r then 1 else 0)" by auto
  then show ?case using Nd.prems by (cases c; cases "rootred l"; cases "rootred r") auto
qed simp

lemma rb_depth: "rbt_ok T \<Longrightarrow> 2 ^ depth T \<le> (length (inord T) + 1) ^ 2"
proof -
  assume ok: "rbt_ok T"
  have "depth T \<le> 2 * bh T" using depth_bh [of T] ok by (simp add: rbt_ok_def)
  then have "(2::nat) ^ depth T \<le> 2 ^ (2 * bh T)" by (intro power_increasing) auto
  also have "\<dots> = (2 ^ bh T) ^ 2" by (simp add: power_mult [symmetric] mult.commute)
  also have "\<dots> \<le> (length (inord T) + 1) ^ 2" using bh_size ok by (intro power_mono) (auto simp: rbt_ok_def)
  finally show ?thesis .
qed

end
