(* ===== verification/Rbtree_Index.thy ===== *)
theory Rbtree_Index
  imports Rbtree_Remove
begin

text \<open>
  The red-black tree as its users see it: an ordered collection of objects. The locale \<open>ordered_index\<close> is
  that contract, whatever the comparison functions compare; its lemmas specialise it to objects ordered by
  a key, where insertion is the insertion in a sorted list, removal removes one element, and a look-up
  finds the object with the key. The interpretation discharges the contract for the code of
  \<^verbatim>\<open>libec/rb.c\<close>, and the properties of the whole tree code follow.
\<close>

section \<open>Vocabulary of the proofs\<close>

text \<open>The tree at \<open>rt\<close> holds the objects \<open>os\<close>, in this order; an object is \<open>off\<close> bytes before its node.\<close>

definition rb_index :: "u64 \<Rightarrow> u64 \<Rightarrow> rb_tree \<Rightarrow> u64 list \<Rightarrow> bool" where
  "rb_index rt off t os \<longleftrightarrow> 0 \<notin> set os \<and> (\<exists>T. rb_holds rt t T \<and> os = map (\<lambda>x. x - off) (inord T))"

text \<open>An object that can be linked: not NULL, and with an aligned node that is not the tree itself.\<close>

definition rb_fresh :: "u64 \<Rightarrow> u64 \<Rightarrow> u64 \<Rightarrow> bool" where
  "rb_fresh rt off obj \<longleftrightarrow> obj \<noteq> 0 \<and> obj + off \<noteq> 0 \<and> al (obj + off) \<and> obj + off \<noteq> rt"

text \<open>The comparison against one key is consistent with the order: the objects below it come first, then at
  most one equal to it.\<close>

definition asc_cmp :: "('a \<Rightarrow> int) \<Rightarrow> 'a list \<Rightarrow> bool" where
  "asc_cmp ck os \<longleftrightarrow> sorted_wrt (\<lambda>a b. 0 \<le> ck a \<longrightarrow> 0 < ck b) os"

text \<open>The comparison with a sample has the sign of the difference of the keys.\<close>

definition cmp_key :: "('a \<Rightarrow> int) \<Rightarrow> int \<Rightarrow> ('a \<Rightarrow> int) \<Rightarrow> bool" where
  "cmp_key key k ck \<longleftrightarrow> (\<forall>x. sgn (ck x) = sgn (key x - k))"

definition key_sorted :: "('a \<Rightarrow> int) \<Rightarrow> 'a list \<Rightarrow> bool" where
  "key_sorted key os \<longleftrightarrow> sorted_wrt (\<lambda>a b. key a < key b) os"

text \<open>A run of insertions and removals, on the tree and on sorted lists.\<close>

datatype rb_op = Ins u64 | Del u64

primrec rb_step :: "u64 \<Rightarrow> u64 \<Rightarrow> (u64 \<Rightarrow> u64 \<Rightarrow> int) \<Rightarrow> rb_op \<Rightarrow> rb_tree \<Rightarrow> rb_tree option" where
  "rb_step rt off cn (Ins obj) t = map_option snd (rb_tree_insert_node rt off cn obj t)"
| "rb_step rt off cn (Del obj) t = rb_tree_remove_node rt off obj t"

primrec rb_run :: "u64 \<Rightarrow> u64 \<Rightarrow> (u64 \<Rightarrow> u64 \<Rightarrow> int) \<Rightarrow> rb_op list \<Rightarrow> rb_tree \<Rightarrow> rb_tree option" where
  "rb_run rt off cn [] t = Some t"
| "rb_run rt off cn (x # xs) t = do { t \<leftarrow> rb_step rt off cn x t; rb_run rt off cn xs t }"

text \<open>The specification: a fresh object is inserted unless its key is taken, an object of the list is
  removed; nothing else is allowed.\<close>

primrec spec_step :: "(u64 \<Rightarrow> bool) \<Rightarrow> (u64 \<Rightarrow> int) \<Rightarrow> rb_op \<Rightarrow> u64 list \<Rightarrow> u64 list option" where
  "spec_step fresh key (Ins obj) os =
     (if fresh obj \<and> obj \<notin> set os
      then Some (if key obj \<in> key ` set os then os else insort_key key obj os) else None)"
| "spec_step fresh key (Del obj) os = (if obj \<in> set os then Some (remove1 obj os) else None)"

primrec spec_run :: "(u64 \<Rightarrow> bool) \<Rightarrow> (u64 \<Rightarrow> int) \<Rightarrow> rb_op list \<Rightarrow> u64 list \<Rightarrow> u64 list option" where
  "spec_run fresh key [] os = Some os"
| "spec_run fresh key (x # xs) os = do { os \<leftarrow> spec_step fresh key x os; spec_run fresh key xs os }"

text \<open>Following links from a node: the list of directions of a walk over nodes that are not NULL.\<close>

primrec rb_path :: "rb_mem \<Rightarrow> u64 \<Rightarrow> bool list \<Rightarrow> bool" where
  "rb_path m p [] \<longleftrightarrow> True"
| "rb_path m p (d # ds) \<longleftrightarrow> p \<noteq> 0 \<and> rb_path m (rb_nodes m p d) ds"

text \<open>The first object of a list with a property, or the default.\<close>

definition first_obj :: "u64 \<Rightarrow> (u64 \<Rightarrow> bool) \<Rightarrow> u64 list \<Rightarrow> u64" where
  "first_obj dflt P os = (case find P os of None \<Rightarrow> dflt | Some x \<Rightarrow> x)"

text \<open>The nodes and the comparison of the examples: objects are their own nodes and are ordered by address.\<close>

definition addr_cmp :: "u64 \<Rightarrow> u64 \<Rightarrow> int" where
  "addr_cmp a b = uint a - uint b"

definition tree0 :: rb_tree where
  "tree0 = \<lparr>rb_mem = (\<lambda>_. \<lparr>rb_left = 0, rb_right = 0, rb_info = 0\<rparr>), rbt_min = 0, rbt_max = 0\<rparr>"

declare rb_run.simps(2) [simp del]

section \<open>Keys\<close>

lemma cmp_keyD:
  assumes "cmp_key key k ck"
  shows "ck x = 0 \<longleftrightarrow> key x = k" "ck x < 0 \<longleftrightarrow> key x < k" "ck x > 0 \<longleftrightarrow> key x > k"
proof -
  have s: "sgn (ck x) = sgn (key x - k)" using assms by (simp add: cmp_key_def)
  show "ck x = 0 \<longleftrightarrow> key x = k" "ck x < 0 \<longleftrightarrow> key x < k" "ck x > 0 \<longleftrightarrow> key x > k"
    using s by (auto simp: sgn_if split: if_splits)
qed

lemma asc_key: "cmp_key key k ck \<Longrightarrow> key_sorted key os \<Longrightarrow> asc_cmp ck os"
  unfolding asc_cmp_def key_sorted_def
  by (rule sorted_wrt_mono_rel [of os "\<lambda>a b. key a < key b"]) (auto simp: cmp_keyD not_less [symmetric])

lemma insort_key_split:
  "\<forall>x\<in>set xs. key x < key obj \<Longrightarrow> \<forall>x\<in>set ys. key obj < key x \<Longrightarrow> insort_key key obj (xs @ ys) = xs @ obj # ys"
  for key :: "'a \<Rightarrow> int"
  by (induction xs) (cases ys, auto)

lemma key_sorted_split: "key_sorted key (xs @ ys) \<Longrightarrow>
    \<forall>x\<in>set xs. key x < key obj \<Longrightarrow> \<forall>x\<in>set ys. key obj < key x \<Longrightarrow> key_sorted key (xs @ obj # ys)"
  by (auto simp: key_sorted_def sorted_wrt_append)

lemma key_sorted_drop: "key_sorted key (xs @ obj # ys) \<Longrightarrow> key_sorted key (xs @ ys)"
  by (auto simp: key_sorted_def sorted_wrt_append)

lemma key_sorted_inj: "key_sorted key os \<Longrightarrow> a \<in> set os \<Longrightarrow> b \<in> set os \<Longrightarrow> key a = key b \<Longrightarrow> a = b"
  by (induction os) (auto simp: key_sorted_def)

lemma find_key: "key_sorted key os \<Longrightarrow> obj \<in> set os \<Longrightarrow> find (\<lambda>x. key x = key obj) os = Some obj"
  by (induction os) (auto simp: key_sorted_def)

lemma find_insort_other: "k \<noteq> key obj \<Longrightarrow> find (\<lambda>x. key x = k) (insort_key key obj os) = find (\<lambda>x. key x = k) os"
  by (induction os) auto

section \<open>The contract of an ordered collection\<close>

locale ordered_index =
  fixes holds :: "'t \<Rightarrow> u64 list \<Rightarrow> bool"
    and fresh :: "u64 \<Rightarrow> bool"
    and find_obj :: "(u64 \<Rightarrow> int) \<Rightarrow> 't \<Rightarrow> u64 option"
    and insert_obj :: "(u64 \<Rightarrow> u64 \<Rightarrow> int) \<Rightarrow> u64 \<Rightarrow> 't \<Rightarrow> (u64 \<times> 't) option"
    and remove_obj :: "u64 \<Rightarrow> 't \<Rightarrow> 't option"
  assumes holds_distinct: "holds t os \<Longrightarrow> distinct os"
    and find_hit: "holds t os \<Longrightarrow> asc_cmp ck os \<Longrightarrow> obj \<in> set os \<Longrightarrow> ck obj = 0 \<Longrightarrow> find_obj ck t = Some obj"
    and find_miss: "holds t os \<Longrightarrow> asc_cmp ck os \<Longrightarrow> \<forall>x\<in>set os. ck x \<noteq> 0 \<Longrightarrow> find_obj ck t = Some 0"
    and insert_hit: "holds t os \<Longrightarrow> asc_cmp (\<lambda>x. cn x obj) os \<Longrightarrow> fresh obj \<Longrightarrow> obj \<notin> set os \<Longrightarrow>
      x \<in> set os \<Longrightarrow> cn x obj = 0 \<Longrightarrow> insert_obj cn obj t = Some (x, t)"
    and insert_miss: "holds t os \<Longrightarrow> asc_cmp (\<lambda>x. cn x obj) os \<Longrightarrow> fresh obj \<Longrightarrow> obj \<notin> set os \<Longrightarrow>
      \<forall>x\<in>set os. cn x obj \<noteq> 0 \<Longrightarrow>
      \<exists>t' xs ys. insert_obj cn obj t = Some (obj, t') \<and> os = xs @ ys \<and> holds t' (xs @ obj # ys) \<and>
        (\<forall>x\<in>set xs. cn x obj < 0) \<and> (\<forall>x\<in>set ys. cn x obj > 0)"
    and remove_hit: "holds t os \<Longrightarrow> obj \<in> set os \<Longrightarrow>
      \<exists>t' xs ys. remove_obj obj t = Some t' \<and> os = xs @ obj # ys \<and> holds t' (xs @ ys)"
begin

lemma find_by_key:
  assumes "holds t os" "key_sorted key os" "cmp_key key k ck"
  shows "find_obj ck t = Some (case find (\<lambda>x. key x = k) os of None \<Rightarrow> 0 | Some x \<Rightarrow> x)"
proof (cases "find (\<lambda>x. key x = k) os")
  case None
  then have "\<forall>x\<in>set os. ck x \<noteq> 0" by (simp add: find_None_iff cmp_keyD [OF assms(3)])
  then show ?thesis using find_miss [OF assms(1) asc_key [OF assms(3,2)]] None by simp
next
  case (Some x)
  then have "x \<in> set os" "ck x = 0" by (auto simp: find_Some_iff cmp_keyD [OF assms(3)])
  then show ?thesis using find_hit [OF assms(1) asc_key [OF assms(3,2)]] Some by simp
qed

lemma insert_by_key:
  assumes "holds t os" "key_sorted key os" "cmp_key key (key obj) (\<lambda>x. cn x obj)" "fresh obj" "obj \<notin> set os"
    and new: "key obj \<notin> key ` set os"
  shows "\<exists>t'. insert_obj cn obj t = Some (obj, t') \<and> holds t' (insort_key key obj os) \<and> key_sorted key (insort_key key obj os)"
proof -
  have "\<forall>x\<in>set os. cn x obj \<noteq> 0" using new by (auto simp: cmp_keyD [OF assms(3)] image_iff)
  from insert_miss [where cn = cn, OF assms(1) asc_key [OF assms(3,2)] assms(4,5) this]
  obtain t' xs ys where r: "insert_obj cn obj t = Some (obj, t')" "os = xs @ ys" "holds t' (xs @ obj # ys)"
    and b: "\<forall>x\<in>set xs. key x < key obj" "\<forall>x\<in>set ys. key x > key obj" by (auto simp: cmp_keyD [OF assms(3)])
  show ?thesis using r insort_key_split [OF b] key_sorted_split [OF _ b] assms(2) by auto
qed

lemma insert_taken:
  assumes "holds t os" "key_sorted key os" "cmp_key key (key obj) (\<lambda>x. cn x obj)" "fresh obj" "obj \<notin> set os"
    and "x \<in> set os" "key x = key obj"
  shows "insert_obj cn obj t = Some (x, t)"
  using insert_hit [where cn = cn, OF assms(1) asc_key [OF assms(3,2)] assms(4,5,6)] assms(7)
  by (simp add: cmp_keyD [OF assms(3)])

lemma remove_by_key:
  assumes "holds t os" "key_sorted key os" "obj \<in> set os"
  shows "\<exists>t'. remove_obj obj t = Some t' \<and> holds t' (remove1 obj os) \<and> key_sorted key (remove1 obj os)"
proof -
  obtain t' xs ys where r: "remove_obj obj t = Some t'" "os = xs @ obj # ys" "holds t' (xs @ ys)"
    using remove_hit [OF assms(1,3)] by blast
  have "remove1 obj os = xs @ ys" using holds_distinct [OF assms(1)] r(2) by (simp add: remove1_append)
  then show ?thesis using r key_sorted_drop assms(2) by auto
qed

lemma insert_then_find:
  assumes "holds t os" "key_sorted key os" "\<forall>a. cmp_key key (key a) (\<lambda>x. cn x a)" "fresh obj" "obj \<notin> set os"
    "key obj \<notin> key ` set os" "cmp_key key k ck"
  shows "\<exists>t'. insert_obj cn obj t = Some (obj, t') \<and>
    find_obj ck t' = (if k = key obj then Some obj else find_obj ck t)"
proof -
  obtain t' where r: "insert_obj cn obj t = Some (obj, t')" "holds t' (insort_key key obj os)"
      "key_sorted key (insort_key key obj os)"
    using insert_by_key [OF assms(1,2) _ assms(4,5,6)] assms(3) by blast
  have "find (\<lambda>x. key x = k) (insort_key key obj os) = (if k = key obj then Some obj else find (\<lambda>x. key x = k) os)"
    using find_key [OF r(3), of obj] find_insort_other [of k key obj os] by (auto simp: set_insort_key)
  then show ?thesis using r(1) find_by_key [OF r(2,3) assms(7)] find_by_key [OF assms(1,2,7)] by simp
qed

lemma step_refines:
  assumes "holds t os" "key_sorted key os" "\<forall>a. cmp_key key (key a) (\<lambda>x. cn x a)"
    and "spec_step fresh key op os = Some os'"
  shows "\<exists>t'. (case op of Ins obj \<Rightarrow> map_option snd (insert_obj cn obj t) | Del obj \<Rightarrow> remove_obj obj t) = Some t' \<and>
    holds t' os' \<and> key_sorted key os'"
proof (cases op)
  case (Ins obj)
  then have o: "fresh obj" "obj \<notin> set os" "os' = (if key obj \<in> key ` set os then os else insort_key key obj os)"
    using assms(4) by (auto split: if_splits)
  note c = assms(3) [THEN spec, of obj]
  show ?thesis
  proof (cases "key obj \<in> key ` set os")
    case True
    then obtain x where "x \<in> set os" "key x = key obj" by auto
    from insert_taken [where cn = cn, OF assms(1,2) c o(1,2) this] show ?thesis using o(3) True Ins assms(1,2) by simp
  next
    case False
    from insert_by_key [where cn = cn, OF assms(1,2) c o(1,2) this] show ?thesis using o(3) False Ins by auto
  qed
next
  case (Del obj)
  then show ?thesis using remove_by_key [OF assms(1,2), of obj] assms(4) by (auto split: if_splits)
qed

end

section \<open>The code meets the contract\<close>

lemma mono_asc: "mono_cmp ck off xs \<longleftrightarrow> asc_cmp ck (map (\<lambda>x. x - off) xs)"
  by (simp add: mono_cmp_def asc_cmp_def sorted_wrt_map)

lemma asc_unique: "asc_cmp ck os \<Longrightarrow> a \<in> set os \<Longrightarrow> b \<in> set os \<Longrightarrow> ck a = 0 \<Longrightarrow> ck b = 0 \<Longrightarrow> a = b"
  by (induction os) (auto simp: asc_cmp_def)

lemma rb_indexE:
  assumes "rb_index rt off t os"
  obtains T where "rb_holds rt t T" "os = map (\<lambda>x. x - off) (inord T)" "0 \<notin> set os"
  using assms by (auto simp: rb_index_def)

lemma rb_holds_distinct: "rb_holds rt t T \<Longrightarrow> distinct (inord T)"
  by (simp add: rb_holds_def wtree_def)

lemma rb_index_find:
  assumes "rb_index rt off t os" "asc_cmp ck os"
  shows "\<exists>r. rb_tree_find_node rt off ck t = Some r \<and>
    (r \<in> set os \<and> ck r = 0 \<or> (\<forall>x\<in>set os. ck x \<noteq> 0) \<and> r = 0)"
proof -
  obtain T where T: "rb_holds rt t T" "os = map (\<lambda>x. x - off) (inord T)" using assms(1) by (rule rb_indexE)
  from rb_find_ok [OF T(1), of ck off] show ?thesis using assms(2) T(2) by (auto simp: mono_asc)
qed

lemma rb_index_insert:
  assumes "rb_index rt off t os" "asc_cmp (\<lambda>x. cn x obj) os" "rb_fresh rt off obj" "obj \<notin> set os"
  shows "(\<exists>x\<in>set os. cn x obj = 0 \<and> rb_tree_insert_node rt off cn obj t = Some (x, t)) \<or>
    (\<forall>x\<in>set os. cn x obj \<noteq> 0) \<and>
    (\<exists>t' xs ys. rb_tree_insert_node rt off cn obj t = Some (obj, t') \<and> os = xs @ ys \<and>
       rb_index rt off t' (xs @ obj # ys) \<and> (\<forall>x\<in>set xs. cn x obj < 0) \<and> (\<forall>x\<in>set ys. cn x obj > 0))"
proof -
  obtain T where T: "rb_holds rt t T" "os = map (\<lambda>x. x - off) (inord T)" "0 \<notin> set os" using assms(1) by (rule rb_indexE)
  have f: "obj \<noteq> 0" "obj + off \<noteq> 0" "al (obj + off)" "obj + off \<noteq> rt" using assms(3) by (simp_all add: rb_fresh_def)
  have n: "obj + off \<notin> set (inord T)"
  proof
    assume "obj + off \<in> set (inord T)"
    then have "obj + off - off \<in> set os" using T(2) by (metis image_eqI set_map)
    then show False using assms(4) by simp
  qed
  have M: "mono_cmp (\<lambda>x. cn x obj) off (inord T)" using assms(2) T(2) by (simp add: mono_asc)
  from rb_insert_ok [where cn = cn and obj = obj, OF T(1) M refl f(2,3,4) n] show ?thesis
  proof (elim disjE bexE exE conjE)
    fix x assume "x \<in> set (inord T)" "cn (x - off) obj = 0" "rb_tree_insert_node rt off cn obj t = Some (x - off, t)"
    then show ?thesis using T(2) by auto
  next
    fix t' T' xs ys
    assume a: "rb_tree_insert_node rt off cn obj t = Some (obj, t')" "rb_holds rt t' T'"
      "inord T = xs @ ys" "inord T' = xs @ (obj + off) # ys"
      "\<forall>x\<in>set xs. cn (x - off) obj < 0" "\<forall>x\<in>set ys. cn (x - off) obj > 0"
    let ?f = "map (\<lambda>x. x - off)"
    have "rb_index rt off t' (?f xs @ obj # ?f ys)"
      unfolding rb_index_def using a(2,4) T(2,3) a(3) f(1) by (intro conjI exI [of _ T']) auto
    moreover have "\<forall>x\<in>set os. cn x obj \<noteq> 0" using T(2) a(3,5,6) by fastforce
    ultimately show ?thesis using a T(2) by (intro disjI2 conjI exI [of _ t'] exI [of _ "?f xs"] exI [of _ "?f ys"]) auto
  qed
qed

lemma rb_index_remove:
  assumes "rb_index rt off t os" "obj \<in> set os"
  shows "\<exists>t' xs ys. rb_tree_remove_node rt off obj t = Some t' \<and> os = xs @ obj # ys \<and> rb_index rt off t' (xs @ ys)"
proof -
  obtain T where T: "rb_holds rt t T" "os = map (\<lambda>x. x - off) (inord T)" "0 \<notin> set os" using assms(1) by (rule rb_indexE)
  have o: "obj \<noteq> 0" "obj + off \<in> set (inord T)" using assms(2) T(2,3) by auto
  obtain t' T' xs ys where r: "rb_tree_remove_node rt off obj t = Some t'" "rb_holds rt t' T'"
      "inord T = xs @ (obj + off) # ys" "inord T' = xs @ ys"
    using rb_remove_ok [OF T(1) o(2) refl o(1)] by blast
  let ?f = "map (\<lambda>x. x - off)"
  have "rb_index rt off t' (?f xs @ ?f ys)"
    unfolding rb_index_def using r(2,4) T(2,3) r(3) by (intro conjI exI [of _ T']) auto
  then show ?thesis using r T(2) by (intro exI [of _ t'] exI [of _ "?f xs"] exI [of _ "?f ys"]) auto
qed

lemma rb_index_distinct: "rb_index rt off t os \<Longrightarrow> distinct os"
  by (auto elim!: rb_indexE dest!: rb_holds_distinct simp: distinct_map inj_on_def)

interpretation rbx: ordered_index "rb_index rt off" "rb_fresh rt off" "rb_tree_find_node rt off"
    "rb_tree_insert_node rt off" "rb_tree_remove_node rt off" for rt off
proof (unfold_locales, goal_cases)
  case (1 t os)
  then show ?case by (rule rb_index_distinct)
next
  case (2 t os ck obj)
  then show ?case using rb_index_find [OF 2(1,2)] asc_unique [OF 2(2) _ 2(3) _ 2(4)] by blast
next
  case (3 t os ck)
  then show ?case using rb_index_find [OF 3(1,2)] by blast
next
  case (4 t os cn obj x)
  then show ?case using rb_index_insert [where cn = cn, OF 4(1-4)] asc_unique [OF 4(2) _ 4(5) _ 4(6)] by blast
next
  case (5 t os cn obj)
  then show ?case using rb_index_insert [where cn = cn, OF 5(1-4)] by blast
next
  case (6 t os obj)
  then show ?case by (rule rb_index_remove)
qed

section \<open>Bounded searches\<close>

lemma find_append: "find P (xs @ ys) = (case find P xs of None \<Rightarrow> find P ys | Some x \<Rightarrow> Some x)"
  by (induction xs) auto

lemma first_obj_append: "first_obj e P (xs @ ys) = first_obj (first_obj e P ys) P xs"
  by (simp add: first_obj_def find_append split: option.splits)

lemma first_obj_simps [simp]:
  "first_obj e P [] = e" "first_obj e P (x # xs) = (if P x then x else first_obj e P xs)"
  by (simp_all add: first_obj_def)

lemma first_obj_none: "\<forall>x\<in>set xs. \<not> P x \<Longrightarrow> first_obj e P xs = e"
  by (induction xs) auto

text \<open>\<open>geq\<close> looks for the first object that is not below the key, \<open>leq\<close> for the last one that is not above it.\<close>

lemma near_node:
  assumes "rep m f d p (Nd c l x r)" "mono_cmp ck off (inord (Nd c l x r))"
  shows "p = x" "x \<noteq> 0" "rep m x False (rb_nodes m x False) l" "rep m x True (rb_nodes m x True) r"
    "mono_cmp ck off (inord l)" "mono_cmp ck off (inord r)"
    "ck (x - off) \<le> 0 \<Longrightarrow> \<forall>y\<in>set (inord l). ck (y - off) < 0"
    "ck (x - off) \<ge> 0 \<Longrightarrow> \<forall>y\<in>set (inord r). ck (y - off) > 0"
  using assms by (auto simp: mono_cmp_def sorted_wrt_append not_less [symmetric])

lemma find_geq_loop:
  assumes "rep m f d p T" "mono_cmp ck off (inord T)"
  shows "find_near_loop off True ck m p latest =
    Some (first_obj (if latest = 0 then 0 else latest - off) (\<lambda>x. 0 \<le> ck x) (map (\<lambda>x. x - off) (inord T)))"
  using assms
proof (induction T arbitrary: f d p latest)
  case (Nd c l x r)
  note F = near_node [OF Nd.prems]
  have l0: "ck (x - off) \<le> 0 \<Longrightarrow> first_obj e (\<lambda>x. 0 \<le> ck x) (map (\<lambda>x. x - off) (inord l)) = e" for e
    using F(7) by (intro first_obj_none) auto
  show ?case
    using F(1,2) Nd.IH(1) [OF F(3,5)] Nd.IH(2) [OF F(4,6)] l0
    by (subst find_near_loop.simps) (auto simp: Let_def first_obj_append)
qed (subst find_near_loop.simps, simp)

lemma find_leq_loop:
  assumes "rep m f d p T" "mono_cmp ck off (inord T)"
  shows "find_near_loop off False ck m p latest =
    Some (first_obj (if latest = 0 then 0 else latest - off) (\<lambda>x. ck x \<le> 0) (rev (map (\<lambda>x. x - off) (inord T))))"
  using assms
proof (induction T arbitrary: f d p latest)
  case (Nd c l x r)
  note F = near_node [OF Nd.prems]
  have r0: "ck (x - off) \<ge> 0 \<Longrightarrow> first_obj e (\<lambda>x. ck x \<le> 0) (rev (map (\<lambda>x. x - off) (inord r))) = e" for e
    using F(8) by (intro first_obj_none) auto
  show ?case
    using F(1,2) Nd.IH(1) [OF F(3,5)] Nd.IH(2) [OF F(4,6)] r0
    by (subst find_near_loop.simps) (auto simp: Let_def first_obj_append)
qed (subst find_near_loop.simps, simp)

lemma rb_index_near:
  assumes "rb_index rt off t os" "asc_cmp ck os"
  shows "rb_tree_find_node_geq rt off ck t = Some (first_obj 0 (\<lambda>x. 0 \<le> ck x) os)"
    "rb_tree_find_node_leq rt off ck t = Some (first_obj 0 (\<lambda>x. ck x \<le> 0) (rev os))"
proof -
  obtain T where T: "rb_holds rt t T" "os = map (\<lambda>x. x - off) (inord T)" using assms(1) by (rule rb_indexE)
  have R: "rep (rb_mem t) rt False (rbt_root rt (rb_mem t)) T" "mono_cmp ck off (inord T)"
    using T assms(2) by (simp_all add: rb_holds_def wtree_def rbt_root_def mono_asc)
  show "rb_tree_find_node_geq rt off ck t = Some (first_obj 0 (\<lambda>x. 0 \<le> ck x) os)"
    "rb_tree_find_node_leq rt off ck t = Some (first_obj 0 (\<lambda>x. ck x \<le> 0) (rev os))"
    using find_geq_loop [OF R, of 0] find_leq_loop [OF R, of 0] T(2) by (simp_all add: rb_tree_find_node_geq_def rb_tree_find_node_leq_def)
qed

section \<open>Iteration\<close>

lemma iterate_up_ok:
  assumes "wtree m rt (plug A K)" "A \<noteq> Lf"
  shows "iterate_up rt off (\<not> d) m (rp A) =
    Some (case (if d then kr K else rev (kl K)) of [] \<Rightarrow> 0 | y # _ \<Rightarrow> y - off)"
  using assms
proof (induction K arbitrary: A)
  case Nil
  obtain c x a b where A: "A = mk d c x a b" using Nil.prems(2) mk_cases by metis
  then show ?case using wtree_root [of m rt d c x a b "[]"] Nil.prems by (subst iterate_up.simps) simp
next
  case (Cons fr K)
  obtain c x a b where A: "A = mk d c x a b" using Cons.prems(2) mk_cases by metis
  obtain e cf f g where fr: "fr = (e, cf, f, g)" by (cases fr)
  have nroot: "\<not> RB_ROOT_P rt m x" using wtree_root [of m rt d c x a b "fr # K"] Cons.prems(1) A by simp
  have pos: "RB_POSITION m x = e" "RB_FATHER m x = f"
    using wtree_plugD(2) [OF Cons.prems(1)] A fr by auto
  have W: "wtree m rt (plug (mk e cf f A g) K)" using Cons.prems(1) fr by simp
  show ?case
    using Cons.IH [OF W] nroot pos A fr by (subst iterate_up.simps) (auto simp: mk_def)
qed

lemma split_unique: "xs @ s # ys = xs' @ s # ys' \<Longrightarrow> distinct (xs @ s # ys) \<Longrightarrow> xs = xs' \<and> ys = ys'"
  by (metis append_Cons_eq_iff distinct.simps(2) distinct_append not_distinct_conv_prefix)

lemma iterate_ok:
  assumes H: "rb_holds rt t T" and s: "inord T = xs @ s # ys" "s = obj + off" "obj \<noteq> 0"
  shows "rb_tree_iterate rt off obj d t =
    Some (case (if d then ys else rev xs) of [] \<Rightarrow> 0 | y # _ \<Rightarrow> y - off)"
proof -
  let ?m = "rb_mem t"
  obtain K c l r where "T = plug (Nd c l s r) K" using locate [of s T] s(1) by auto
  then obtain a b where T: "T = plug (mk d c s a b) K" by (cases d) (auto simp: mk_def)
  have W: "wtree ?m rt (plug (mk d c s a b) K)" using H T by (simp add: rb_holds_def)
  have a: "rep ?m s d (rb_nodes ?m s d) a" using wtree_plugD(2) [OF W] by simp
  have dist: "distinct (xs @ s # ys)" using rb_holds_distinct [OF H] s(1) by simp
  have i: "xs @ s # ys = inord (plug (mk d c s a b) K)" unfolding T [symmetric] using s(1) by (rule sym)
  have split: "if d then xs = kl K @ inord b \<and> ys = inord a @ kr K else xs = kl K @ inord a \<and> ys = inord b @ kr K"
    using split_unique [OF _ dist, of "kl K @ inord b" "inord a @ kr K"]
      split_unique [OF _ dist, of "kl K @ inord a" "inord b @ kr K"] i
    by (cases d) (simp_all add: inord_plug inord_mk2)
  show ?thesis
  proof (cases "a = Lf")
    case True
    then have "rb_nodes ?m s d = 0" using a by simp
    then have "rb_tree_iterate rt off obj d t = iterate_up rt off (\<not> d) ?m (rp (mk d c s a b))"
      using s(2,3) by (simp add: rb_tree_iterate_def Let_def)
    moreover have "(if d then ys else rev xs) = (if d then kr K else rev (kl K))" using split True by (cases d) simp_all
    ultimately show ?thesis using iterate_up_ok [OF W, of off d] by (simp add: mk_def)
  next
    case False
    then have nz: "rb_nodes ?m s d \<noteq> 0" using a by (cases a) auto
    obtain J cz z son where it: "iterate_down (\<not> d) ?m (rb_nodes ?m s d) = Some z"
        and A: "a = plug (mk (\<not> d) cz z Lf son) J" and dirs: "\<forall>fr\<in>set J. fst fr = (\<not> d)"
      using iterate_down_ok [OF a False, of "\<not> d"] by blast
    have res: "rb_tree_iterate rt off obj d t = Some (z - off)"
      using it nz s(2,3) by (simp add: rb_tree_iterate_def Let_def)
    have "\<exists>zs. (if d then inord a else rev (inord a)) = z # zs"
      using path_dir [OF dirs] A by (cases d) (simp_all add: inord_plug inord_mk2)
    then have "\<exists>zs. (if d then ys else rev xs) = z # zs" using split by (cases d) auto
    then show ?thesis using res by auto
  qed
qed

section \<open>Depth\<close>

lemma rb_path_depth: "rep m f d p T \<Longrightarrow> rb_path m p ds \<Longrightarrow> length ds \<le> depth T"
proof (induction ds arbitrary: f d p T)
  case (Cons e ds)
  then obtain c l x r where T: "T = Nd c l x r" by (cases T) auto
  show ?case using Cons.IH [of x e "rb_nodes m x e" "if e then r else l"] Cons.prems T by (cases e) (auto simp: le_max_iff_disj)
qed simp

section \<open>Properties of the tree\<close>

lemma rb_index_init: "al rt \<Longrightarrow> rt \<noteq> 0 \<Longrightarrow> rb_index rt off (rb_tree_init rt t) []"
  unfolding rb_index_def using rb_init_ok [of rt t] by (intro conjI exI [of _ Lf]) simp_all

lemma rb_index_rep: "rb_index rt off t os \<Longrightarrow>
    \<exists>T. rep (rb_mem t) rt False (rbt_root rt (rb_mem t)) T \<and> rbt_ok T \<and> os = map (\<lambda>x. x - off) (inord T)"
  by (auto simp: rb_index_def rb_holds_def wtree_def rbt_root_def)

lemma rb_index_path:
  assumes "rb_index rt off t os" "rb_path (rb_mem t) (rbt_root rt (rb_mem t)) ds"
  shows "2 ^ length ds \<le> (length os + 1) ^ 2"
proof -
  obtain T where T: "rep (rb_mem t) rt False (rbt_root rt (rb_mem t)) T" "rbt_ok T" "os = map (\<lambda>x. x - off) (inord T)"
    using rb_index_rep [OF assms(1)] by blast
  have "length ds \<le> depth T" using rb_path_depth [OF T(1) assms(2)] .
  then have "(2::nat) ^ length ds \<le> 2 ^ depth T" by (rule power_increasing) simp
  also have "\<dots> \<le> (length os + 1) ^ 2" using rb_depth [OF T(2)] T(3) by simp
  finally show ?thesis .
qed

lemma rb_step_cases: "rb_step rt off cn x t =
    (case x of Ins obj \<Rightarrow> map_option snd (rb_tree_insert_node rt off cn obj t) | Del obj \<Rightarrow> rb_tree_remove_node rt off obj t)"
  by (cases x) simp_all

lemma rb_run_ok:
  assumes "rb_index rt off t os" "key_sorted key os" "\<forall>a. cmp_key key (key a) (\<lambda>x. cn x a)"
    "spec_run (rb_fresh rt off) key xs os = Some os'"
  shows "\<exists>t'. rb_run rt off cn xs t = Some t' \<and> rb_index rt off t' os' \<and> key_sorted key os'"
  using assms
proof (induction xs arbitrary: t os)
  case (Cons x xs)
  from Cons.prems(4) obtain os1 where o: "spec_step (rb_fresh rt off) key x os = Some os1" "spec_run (rb_fresh rt off) key xs os1 = Some os'"
    by (auto simp: bind_eq_Some_conv simp del: spec_step.simps)
  obtain t1 where t1: "rb_step rt off cn x t = Some t1" "rb_index rt off t1 os1" "key_sorted key os1"
    using rbx.step_refines [OF Cons.prems(1,2,3) o(1)] unfolding rb_step_cases by blast
  show ?case using Cons.IH [OF t1(2,3) Cons.prems(3) o(2)] t1(1) by (simp add: rb_run.simps(2))
qed simp

lemma addr_cmp_key: "cmp_key uint (uint a) (\<lambda>x. addr_cmp x a)"
  by (simp add: cmp_key_def addr_cmp_def)

lemma sample_index: "\<exists>t. rb_run 8 0 addr_cmp [Ins 0x20, Ins 0x40, Ins 0x30] (rb_tree_init 8 tree0) = Some t \<and>
    rb_index 8 0 t [0x20, 0x30, 0x40] \<and> asc_cmp (\<lambda>x. addr_cmp x 0x28) [0x20, 0x30, 0x40]"
proof -
  have init: "rb_index 8 0 (rb_tree_init 8 tree0) []" by (rule rb_index_init) (simp_all add: al_def)
  have spec: "spec_run (rb_fresh 8 0) uint [Ins 0x20, Ins 0x40, Ins 0x30] [] = Some [0x20, 0x30, 0x40]"
    by (simp add: rb_fresh_def al_def)
  have "asc_cmp (\<lambda>x. addr_cmp x 0x28) [0x20, 0x30, 0x40]" by (simp add: asc_cmp_def addr_cmp_def)
  then show ?thesis using rb_run_ok [OF init _ _ spec] addr_cmp_key by (auto simp: key_sorted_def)
qed

text \<open>
  C5. Every sequence of insertions and removals on an initialised tree returns, and does what the same
  sequence does to a sorted list: an object is inserted at the place of its key unless the key is taken, a
  removal takes the object out; afterwards a look-up by key returns the object of the list with that key, or
  NULL. The specification stops at operations the code does not allow: an unaligned, NULL or already linked
  object to insert, and an object to remove that is not in the tree.
\<close>

theorem rb_run_refines:
  assumes "al rt" "rt \<noteq> 0" "\<forall>a. cmp_key key (key a) (\<lambda>x. cn x a)"
    "spec_run (rb_fresh rt off) key xs [] = Some os"
  shows "\<exists>t'. rb_run rt off cn xs (rb_tree_init rt t) = Some t' \<and> key_sorted key os \<and> rb_index rt off t' os \<and>
    (\<forall>k ck. cmp_key key k ck \<longrightarrow> rb_tree_find_node rt off ck t' = Some (first_obj 0 (\<lambda>x. key x = k) os))"
proof -
  obtain t' where t': "rb_run rt off cn xs (rb_tree_init rt t) = Some t'" "rb_index rt off t' os" "key_sorted key os"
    using rb_run_ok [OF rb_index_init [OF assms(1,2)] _ assms(3,4)] by (auto simp: key_sorted_def)
  show ?thesis
    using t' rbx.find_by_key [OF t'(2,3)] by (intro exI [of _ t']) (simp add: first_obj_def)
qed

theorem rb_run_refines_witness:
  "\<exists>t'. rb_run 8 0 addr_cmp [Ins 0x20, Ins 0x40, Ins 0x30, Del 0x40] (rb_tree_init 8 tree0) = Some t' \<and>
    rb_index 8 0 t' [0x20, 0x30] \<and> rb_tree_find_node 8 0 (\<lambda>x. addr_cmp x 0x30) t' = Some 0x30 \<and>
    rb_tree_find_node 8 0 (\<lambda>x. addr_cmp x 0x40) t' = Some 0"
proof -
  have "\<exists>t'. rb_run 8 0 addr_cmp [Ins 0x20, Ins 0x40, Ins 0x30, Del 0x40] (rb_tree_init 8 tree0) = Some t' \<and>
    key_sorted uint [0x20, 0x30 :: u64] \<and> rb_index 8 0 t' [0x20, 0x30] \<and>
    (\<forall>k ck. cmp_key uint k ck \<longrightarrow> rb_tree_find_node 8 0 ck t' = Some (first_obj 0 (\<lambda>x. uint x = k) [0x20, 0x30]))"
    by (rule rb_run_refines) (simp_all add: addr_cmp_key al_def rb_fresh_def)
  then show ?thesis using addr_cmp_key [of "0x30"] addr_cmp_key [of "0x40"]
    by (elim exE conjE) (rule exI, intro conjI, assumption, assumption, simp_all)
qed

text \<open>
  C19. The tree stays balanced: after every sequence of insertions and removals, no walk along links from the
  root of the tree with \<open>n\<close> objects passes more than \<open>2 log (n + 1)\<close> nodes, so that is a bound on the
  iterations of every look-up.
\<close>

theorem rb_balanced:
  assumes "al rt" "rt \<noteq> 0" "\<forall>a. cmp_key key (key a) (\<lambda>x. cn x a)"
    "spec_run (rb_fresh rt off) key xs [] = Some os"
  shows "\<exists>t'. rb_run rt off cn xs (rb_tree_init rt t) = Some t' \<and>
    (\<forall>ds. rb_path (rb_mem t') (rbt_root rt (rb_mem t')) ds \<longrightarrow> 2 ^ length ds \<le> (length os + 1) ^ 2)"
proof -
  obtain t' where t': "rb_run rt off cn xs (rb_tree_init rt t) = Some t'" "rb_index rt off t' os"
    using rb_run_ok [OF rb_index_init [OF assms(1,2)] _ assms(3,4)] by (auto simp: key_sorted_def)
  show ?thesis using rb_index_path [OF t'(2)] t'(1) by blast
qed

theorem rb_balanced_witness:
  "\<exists>t'. rb_run 8 0 addr_cmp [Ins 0x20, Ins 0x40, Ins 0x30] (rb_tree_init 8 tree0) = Some t' \<and>
    \<not> rb_path (rb_mem t') (rbt_root 8 (rb_mem t')) [True, True, True, True, True]"
proof -
  have "\<exists>t'. rb_run 8 0 addr_cmp [Ins 0x20, Ins 0x40, Ins 0x30] (rb_tree_init 8 tree0) = Some t' \<and>
    (\<forall>ds. rb_path (rb_mem t') (rbt_root 8 (rb_mem t')) ds \<longrightarrow> 2 ^ length ds \<le> (length [0x20, 0x30, 0x40 :: u64] + 1) ^ 2)"
    by (rule rb_balanced [where key = uint]) (simp_all add: addr_cmp_key al_def rb_fresh_def)
  then obtain t' where t': "rb_run 8 0 addr_cmp [Ins 0x20, Ins 0x40, Ins 0x30] (rb_tree_init 8 tree0) = Some t'"
    "\<forall>ds. rb_path (rb_mem t') (rbt_root 8 (rb_mem t')) ds \<longrightarrow> 2 ^ length ds \<le> (length [0x20, 0x30, 0x40 :: u64] + 1) ^ 2"
    by blast
  have "\<not> rb_path (rb_mem t') (rbt_root 8 (rb_mem t')) [True, True, True, True, True]"
  proof
    assume "rb_path (rb_mem t') (rbt_root 8 (rb_mem t')) [True, True, True, True, True]"
    from t'(2) [rule_format, OF this] show False by (simp add: power2_eq_square)
  qed
  then show ?thesis using t'(1) by blast
qed

text \<open>
  C27. The bounded searches: whatever is compared, as long as the comparison is consistent with the order of
  the tree, \<^verbatim>\<open>rb_tree_find_node_geq\<close> returns the first object that does not compare below the key, and
  \<^verbatim>\<open>rb_tree_find_node_leq\<close> the last one that does not compare above it; NULL if there is none.
\<close>

theorem rb_find_near:
  assumes "rb_index rt off t os" "asc_cmp ck os"
  shows "rb_tree_find_node_geq rt off ck t = Some (first_obj 0 (\<lambda>x. 0 \<le> ck x) os) \<and>
    rb_tree_find_node_leq rt off ck t = Some (first_obj 0 (\<lambda>x. ck x \<le> 0) (rev os))"
  using rb_index_near [OF assms] by simp

theorem rb_find_near_witness:
  "\<exists>t. rb_run 8 0 addr_cmp [Ins 0x20, Ins 0x40, Ins 0x30] (rb_tree_init 8 tree0) = Some t \<and>
    rb_tree_find_node_geq 8 0 (\<lambda>x. addr_cmp x 0x28) t = Some 0x30 \<and>
    rb_tree_find_node_leq 8 0 (\<lambda>x. addr_cmp x 0x28) t = Some 0x20"
proof -
  obtain t where t: "rb_run 8 0 addr_cmp [Ins 0x20, Ins 0x40, Ins 0x30] (rb_tree_init 8 tree0) = Some t"
    "rb_index 8 0 t [0x20, 0x30, 0x40]" "asc_cmp (\<lambda>x. addr_cmp x 0x28) [0x20, 0x30, 0x40]" using sample_index by blast
  show ?thesis using rb_find_near [OF t(2,3)] t(1) by (simp add: addr_cmp_def)
qed

text \<open>
  C28. Iteration: from an object of the tree the code goes to its successor (direction right) or its
  predecessor (direction left) in the order, NULL at the end; from NULL it goes to the smallest object
  (direction left) or the greatest.
\<close>

theorem rb_iterate_order:
  assumes "rb_index rt off t os"
  shows "(\<forall>xs obj ys d. os = xs @ obj # ys \<longrightarrow>
       rb_tree_iterate rt off obj d t = Some (case (if d then ys else rev xs) of [] \<Rightarrow> 0 | y # _ \<Rightarrow> y)) \<and>
    rb_tree_iterate rt off 0 False t = Some (case os of [] \<Rightarrow> 0 | x # _ \<Rightarrow> x) \<and>
    rb_tree_iterate rt off 0 True t = Some (case rev os of [] \<Rightarrow> 0 | x # _ \<Rightarrow> x)"
proof -
  obtain T where T: "rb_holds rt t T" "os = map (\<lambda>x. x - off) (inord T)" "0 \<notin> set os" using assms by (rule rb_indexE)
  have step: "rb_tree_iterate rt off obj d t = Some (case (if d then ys else rev xs) of [] \<Rightarrow> 0 | y # _ \<Rightarrow> y)"
    if os: "os = xs @ obj # ys" for xs obj ys d
  proof -
    obtain as s bs where s: "inord T = as @ s # bs" "xs = map (\<lambda>x. x - off) as" "obj = s - off" "ys = map (\<lambda>x. x - off) bs"
      using map_eq_append_conv [of "\<lambda>x. x - off" "inord T" xs "obj # ys"] os T(2) by (auto simp: map_eq_Cons_conv)
    have "obj \<noteq> 0" using os T(3) by auto
    then show ?thesis using iterate_ok [OF T(1) s(1), of obj off d] s by (auto simp: rev_map split: list.splits)
  qed
  have e: "rbt_root rt (rb_mem t) = 0 \<longleftrightarrow> inord T = []" "inord T \<noteq> [] \<Longrightarrow> rbt_min t = hd (inord T) \<and> rbt_max t = last (inord T)"
    using T(1) by (cases T; simp add: rb_holds_def wtree_def rbt_root_def)+
  have "rb_tree_iterate rt off 0 False t = Some (case os of [] \<Rightarrow> 0 | x # _ \<Rightarrow> x)"
    using e T(2) by (cases "inord T") (simp_all add: rb_tree_iterate_def rbt_minmax_def Let_def)
  moreover have "rb_tree_iterate rt off 0 True t = Some (case rev os of [] \<Rightarrow> 0 | x # _ \<Rightarrow> x)"
    using e T(2) by (cases "inord T" rule: rev_cases) (simp_all add: rb_tree_iterate_def rbt_minmax_def Let_def)
  ultimately show ?thesis using step by blast
qed

theorem rb_iterate_order_witness:
  "\<exists>t. rb_run 8 0 addr_cmp [Ins 0x20, Ins 0x40, Ins 0x30] (rb_tree_init 8 tree0) = Some t \<and>
    rb_tree_iterate 8 0 0 False t = Some 0x20 \<and> rb_tree_iterate 8 0 0x20 True t = Some 0x30 \<and>
    rb_tree_iterate 8 0 0x40 True t = Some 0"
proof -
  obtain t where t: "rb_run 8 0 addr_cmp [Ins 0x20, Ins 0x40, Ins 0x30] (rb_tree_init 8 tree0) = Some t"
    "rb_index 8 0 t [0x20, 0x30, 0x40]" using sample_index by blast
  have I: "rb_tree_iterate 8 0 obj d t = Some (case (if d then ys else rev xs) of [] \<Rightarrow> 0 | y # _ \<Rightarrow> y)"
    if "[0x20, 0x30, 0x40] = xs @ obj # ys" for xs obj ys d
    using rb_iterate_order [OF t(2)] that by blast
  show ?thesis
    using I [of "[]" "0x20" "[0x30, 0x40]" True] I [of "[0x20, 0x30]" "0x40" "[]" True] rb_iterate_order [OF t(2)] t(1) by simp
qed

end
