(* ===== verification/Cache.thy ===== *)
theory Cache
  imports Rbtree_Index Locks
begin

text \<open>
  The cache of slots (\<^verbatim>\<open>include/nux/cache.h\<close>) over the red-black tree. Slots are named by their addresses, which
  are also the addresses of their tree nodes (\<^verbatim>\<open>rbn\<close> is the first member); the links of the tree are in the
  memory of \<open>c_map\<close>, the other members in \<open>c_slot\<close>. The list of free slots is the sequence that the tail queue
  holds. The function that fills a slot is a parameter that acts on the state of its user.
\<close>

section \<open>The code\<close>

record slot_t =
  sl_addr :: u64
  sl_valid :: bool
  sl_ref :: "31 word"

record cache_t =
  c_map :: rb_tree
  c_freelist :: "u64 list"
  c_lock :: lock_t
  c_numslots :: u32
  c_slots :: u64
  c_slot :: "u64 \<Rightarrow> slot_t"

abbreviation (input) SLOT_SIZE :: u64 where "SLOT_SIZE \<equiv> 56"

definition slotcmp :: "(u64 \<Rightarrow> slot_t) \<Rightarrow> u64 \<Rightarrow> u64 \<Rightarrow> int" where
  "slotcmp m a b =
     (if sl_addr (m a) < sl_addr (m b) then - 1 else if sl_addr (m a) > sl_addr (m b) then 1 else 0)"

definition slot_keycmp :: "(u64 \<Rightarrow> slot_t) \<Rightarrow> u64 \<Rightarrow> u64 \<Rightarrow> int" where
  "slot_keycmp m addr a = (if sl_addr (m a) < addr then - 1 else if sl_addr (m a) > addr then 1 else 0)"

definition upd_slot :: "u64 \<Rightarrow> (slot_t \<Rightarrow> slot_t) \<Rightarrow> cache_t \<Rightarrow> cache_t" where
  "upd_slot p f c = c\<lparr>c_slot := (c_slot c)(p := f (c_slot c p))\<rparr>"

definition cache_getslotno :: "cache_t \<Rightarrow> u64 \<Rightarrow> u32" where
  "cache_getslotno c p = ucast ((p - c_slots c) div SLOT_SIZE)"

definition cache_init_slot :: "u64 \<Rightarrow> nat \<Rightarrow> cache_t \<Rightarrow> cache_t" where
  "cache_init_slot slots i c =
     (let p = slots + SLOT_SIZE * of_nat i;
          c = upd_slot p (\<lambda>x. x\<lparr>sl_valid := False, sl_ref := 0\<rparr>) c
      in c\<lparr>c_freelist := c_freelist c @ [p]\<rparr>)"

definition cache_init :: "u64 \<Rightarrow> u64 \<Rightarrow> u32 \<Rightarrow> cache_t \<Rightarrow> cache_t" where
  "cache_init self slots numslots c =
     (let c = c\<lparr>c_lock := spinlock_init (c_lock c)\<rparr>;
          c = c\<lparr>c_map := rb_tree_init self (c_map c)\<rparr>;
          c = c\<lparr>c_freelist := []\<rparr>;
          c = c\<lparr>c_numslots := numslots, c_slots := slots\<rparr>
      in fold (cache_init_slot slots) [0..<unat numslots] c)"

text \<open>What \<^verbatim>\<open>cache_get\<close> does under its lock: the slot it found or filled, NULL when none is free.\<close>

definition cache_find :: "u64 \<Rightarrow> (u32 \<Rightarrow> u64 \<Rightarrow> u64 \<Rightarrow> 's \<Rightarrow> 's option) \<Rightarrow> u64 \<Rightarrow> cache_t \<Rightarrow> 's \<Rightarrow> ((u64 \<times> cache_t) \<times> 's) option" where
  "cache_find self fill addr c s =
     do { slot \<leftarrow> rb_tree_find_node self 0 (slot_keycmp (c_slot c) addr) (c_map c);
          if slot \<noteq> 0
          then if \<not> sl_valid (c_slot c slot) then None
               else if sl_ref (c_slot c slot) > 0
               then do { let c = upd_slot slot (\<lambda>x. x\<lparr>sl_ref := sl_ref x + 1\<rparr>) c;
                         if sl_ref (c_slot c slot) = 0 then None else Some ((slot, c), s) }
               else do { let c = c\<lparr>c_freelist := remove1 slot (c_freelist c)\<rparr>;
                         let c = upd_slot slot (\<lambda>x. x\<lparr>sl_ref := 1\<rparr>) c;
                         Some ((slot, c), s) }
          else case c_freelist c of
                 [] \<Rightarrow> Some ((0, c), s)
               | slot # rest \<Rightarrow>
                   do { let n = cache_getslotno c slot;
                        let c = c\<lparr>c_freelist := rest\<rparr>;
                        if sl_ref (c_slot c slot) \<noteq> 0 then None
                        else do { s \<leftarrow> fill n (sl_addr (c_slot c slot)) addr s;
                                  let c = upd_slot slot (\<lambda>x. x\<lparr>sl_addr := addr, sl_ref := 1, sl_valid := True\<rparr>) c;
                                  (_, t) \<leftarrow> rb_tree_insert_node self 0 (slotcmp (c_slot c)) slot (c_map c);
                                  Some ((slot, c\<lparr>c_map := t\<rparr>), s) } } }"

definition cache_get :: "u64 \<Rightarrow> (u32 \<Rightarrow> u64 \<Rightarrow> u64 \<Rightarrow> 's \<Rightarrow> 's option) \<Rightarrow> u64 \<Rightarrow> cache_t \<Rightarrow> 's \<Rightarrow> ((u32 \<times> cache_t) \<times> 's) option" where
  "cache_get self fill addr c s =
     do { l \<leftarrow> spinlock (c_lock c);
          ((slot, c), s) \<leftarrow> cache_find self fill addr (c\<lparr>c_lock := l\<rparr>) s;
          let slotno = (if slot \<noteq> 0 then cache_getslotno c slot else - 1);
          let c = c\<lparr>c_lock := spinunlock (c_lock c)\<rparr>;
          Some ((slotno, c), s) }"

definition cache_put :: "u64 \<Rightarrow> cache_t \<Rightarrow> cache_t option" where
  "cache_put slotno c =
     do { l \<leftarrow> spinlock (c_lock c);
          let c = c\<lparr>c_lock := l\<rparr>;
          if \<not> slotno < ucast (c_numslots c) then None
          else do { let slot = c_slots c + SLOT_SIZE * slotno;
                    if sl_ref (c_slot c slot) = 0 then None
                    else do { let c = upd_slot slot (\<lambda>x. x\<lparr>sl_ref := sl_ref x - 1\<rparr>) c;
                              let c = (if sl_ref (c_slot c slot) = 0 then c\<lparr>c_freelist := c_freelist c @ [slot]\<rparr> else c);
                              Some (c\<lparr>c_lock := spinunlock (c_lock c)\<rparr>) } } }"

section \<open>Vocabulary of the proofs\<close>

definition slotp :: "cache_t \<Rightarrow> nat \<Rightarrow> u64" where
  "slotp c i = c_slots c + SLOT_SIZE * of_nat i"

text \<open>The slots of a cache are proper objects: the array does not wrap around, and no slot is NULL, misaligned or
  the cache itself.\<close>

definition slots_ok :: "u64 \<Rightarrow> cache_t \<Rightarrow> bool" where
  "slots_ok self c \<longleftrightarrow> unat (c_numslots c) < 2 ^ 32 - 1 \<and> (\<forall>i<unat (c_numslots c). rb_fresh self 0 (slotp c i))"

text \<open>A cache between calls: the tree holds exactly the valid slots, by address; the free list holds exactly the
  slots without references; a slot with references is valid.\<close>

definition index_ok :: "u64 \<Rightarrow> cache_t \<Rightarrow> u64 list \<Rightarrow> bool" where
  "index_ok self c os \<longleftrightarrow> rb_index self 0 (c_map c) os \<and> key_sorted (\<lambda>p. uint (sl_addr (c_slot c p))) os \<and>
     set os = slotp c ` {i. i < unat (c_numslots c) \<and> sl_valid (c_slot c (slotp c i))}"

definition free_ok :: "cache_t \<Rightarrow> bool" where
  "free_ok c \<longleftrightarrow> distinct (c_freelist c) \<and>
     set (c_freelist c) = slotp c ` {i. i < unat (c_numslots c) \<and> sl_ref (c_slot c (slotp c i)) = 0} \<and>
     (\<forall>i<unat (c_numslots c). sl_ref (c_slot c (slotp c i)) \<noteq> 0 \<longrightarrow> sl_valid (c_slot c (slotp c i)))"

definition cache_ok :: "u64 \<Rightarrow> cache_t \<Rightarrow> bool" where
  "cache_ok self c \<longleftrightarrow> slots_ok self c \<and> unlocked (c_lock c) \<and> (\<exists>os. index_ok self c os) \<and> free_ok c"

text \<open>Slot \<open>i\<close> of the cache holds \<open>addr\<close>.\<close>

definition cached :: "cache_t \<Rightarrow> u64 \<Rightarrow> nat \<Rightarrow> bool" where
  "cached c addr i \<longleftrightarrow> i < unat (c_numslots c) \<and> sl_valid (c_slot c (slotp c i)) \<and> sl_addr (c_slot c (slotp c i)) = addr"

text \<open>The memory of the examples: a cache at \<open>0x100\<close> and two slots at \<open>0x1000\<close>, filled without effect.\<close>

definition cache0 :: cache_t where
  "cache0 = \<lparr>c_map = tree0, c_freelist = [], c_lock = \<lparr>lck = 0, lockcy = 0\<rparr>, c_numslots = 0, c_slots = 0,
     c_slot = (\<lambda>_. \<lparr>sl_addr = 0, sl_valid = False, sl_ref = 0\<rparr>)\<rparr>"

definition nofill :: "u32 \<Rightarrow> u64 \<Rightarrow> u64 \<Rightarrow> unit \<Rightarrow> unit option" where
  "nofill n old new s = Some s"

definition node3 :: "rb_node \<Rightarrow> rb_node \<Rightarrow> rb_node \<Rightarrow> u64 \<Rightarrow> u64 \<Rightarrow> rb_tree" where
  "node3 x a b mn mx = \<lparr>rb_mem = (\<lambda>_. \<lparr>rb_left = 0, rb_right = 0, rb_info = 0\<rparr>)(0x100 := x, 0x1000 := a, 0x1038 := b),
     rbt_min = mn, rbt_max = mx\<rparr>"

definition cache2 :: "rb_tree \<Rightarrow> u64 list \<Rightarrow> slot_t \<Rightarrow> slot_t \<Rightarrow> cache_t" where
  "cache2 t fl a b = \<lparr>c_map = t, c_freelist = fl, c_lock = \<lparr>lck = 0, lockcy = 0\<rparr>, c_numslots = 2, c_slots = 0x1000,
     c_slot = (\<lambda>_. \<lparr>sl_addr = 0, sl_valid = False, sl_ref = 0\<rparr>)(0x1000 := a, 0x1038 := b)\<rparr>"

abbreviation (input) mknode :: "u64 \<Rightarrow> u64 \<Rightarrow> u64 \<Rightarrow> rb_node" where
  "mknode l r i \<equiv> \<lparr>rb_left = l, rb_right = r, rb_info = i\<rparr>"

abbreviation (input) mkslot :: "u64 \<Rightarrow> bool \<Rightarrow> 31 word \<Rightarrow> slot_t" where
  "mkslot a v r \<equiv> \<lparr>sl_addr = a, sl_valid = v, sl_ref = r\<rparr>"

text \<open>Two addresses are used, the first is released, a third one takes its slot, and the second is asked for again.\<close>

definition evict_run :: "(u32 list \<times> cache_t) option" where
  "evict_run =
     do { let c = cache_init 0x100 0x1000 2 cache0;
          ((n1, c), s) \<leftarrow> cache_get 0x100 nofill 10 c ();
          ((n2, c), s) \<leftarrow> cache_get 0x100 nofill 20 c s;
          c \<leftarrow> cache_put (ucast n1) c;
          ((n3, c), s) \<leftarrow> cache_get 0x100 nofill 40 c s;
          ((n4, c), s) \<leftarrow> cache_get 0x100 nofill 20 c s;
          Some ([n1, n2, n3, n4], c) }"

section \<open>Slots\<close>

lemma slot_off: "i < 2 ^ 32 \<Longrightarrow> unat (SLOT_SIZE * of_nat i :: u64) = 56 * i"
  by (simp add: unat_word_ariths unat_of_nat)

lemma slotp_inj:
  assumes "i < 2 ^ 32" "j < 2 ^ 32"
  shows "slotp c i = slotp c j \<longleftrightarrow> i = j"
proof
  assume "slotp c i = slotp c j"
  then have "unat (SLOT_SIZE * of_nat i :: u64) = unat (SLOT_SIZE * of_nat j :: u64)" by (simp add: slotp_def)
  then show "i = j" using slot_off [OF assms(1)] slot_off [OF assms(2)] by simp
qed simp

lemma getslotno:
  assumes "i < 2 ^ 32"
  shows "cache_getslotno c (slotp c i) = of_nat i"
proof -
  let ?w = "(slotp c i - c_slots c) div SLOT_SIZE"
  have "unat ?w = i" using slot_off [OF assms] by (simp add: slotp_def unat_div)
  moreover have "?w = of_nat (unat ?w)" by simp
  ultimately have "?w = of_nat i" by metis
  then show ?thesis using assms by (simp add: cache_getslotno_def unsigned_of_nat take_bit_nat_eq_self)
qed

lemma slotcmp_key: "cmp_key (\<lambda>p. uint (sl_addr (m p))) (uint addr) (slot_keycmp m addr)"
    "cmp_key (\<lambda>p. uint (sl_addr (m p))) (uint (sl_addr (m b))) (\<lambda>a. slotcmp m a b)"
  by (simp_all add: cmp_key_def slot_keycmp_def slotcmp_def word_less_def)

lemma slots_okD: "slots_ok self c \<Longrightarrow> i < unat (c_numslots c) \<Longrightarrow> rb_fresh self 0 (slotp c i) \<and> slotp c i \<noteq> 0 \<and> i < 2 ^ 32"
  by (auto simp: slots_ok_def rb_fresh_def)

lemma find_cached:
  assumes "slots_ok self c" "index_ok self c os"
  shows "cached c addr i \<Longrightarrow> rb_tree_find_node self 0 (slot_keycmp (c_slot c) addr) (c_map c) = Some (slotp c i)"
    "\<forall>i. \<not> cached c addr i \<Longrightarrow> rb_tree_find_node self 0 (slot_keycmp (c_slot c) addr) (c_map c) = Some 0"
proof -
  let ?key = "\<lambda>p. uint (sl_addr (c_slot c p))"
  have I: "rb_index self 0 (c_map c) os" "key_sorted ?key os"
      "set os = slotp c ` {i. i < unat (c_numslots c) \<and> sl_valid (c_slot c (slotp c i))}"
    using assms(2) by (simp_all add: index_ok_def)
  note F = rbx.find_by_key [OF I(1,2) slotcmp_key(1), of addr]
  show "cached c addr i \<Longrightarrow> rb_tree_find_node self 0 (slot_keycmp (c_slot c) addr) (c_map c) = Some (slotp c i)"
    using F find_key [OF I(2), of "slotp c i"] I(3) by (auto simp: cached_def)
  show "\<forall>i. \<not> cached c addr i \<Longrightarrow> rb_tree_find_node self 0 (slot_keycmp (c_slot c) addr) (c_map c) = Some 0"
  proof -
    assume "\<forall>i. \<not> cached c addr i"
    then have "find (\<lambda>p. ?key p = uint addr) os = None" using I(3) by (auto simp: find_None_iff cached_def dest: word_uint_eqI)
    then show ?thesis using F by simp
  qed
qed

lemma slotp_same [simp]: "slotp (c\<lparr>c_lock := l\<rparr>) = slotp c" "slotp (c\<lparr>c_freelist := fl\<rparr>) = slotp c" "slotp (c\<lparr>c_map := t\<rparr>) = slotp c"
    "slotp (upd_slot p f c) = slotp c" "slotp (c\<lparr>c_slot := m\<rparr>) = slotp c"
  by (simp_all add: slotp_def fun_eq_iff upd_slot_def)

lemma upd_slot_simps [simp]: "c_map (upd_slot p f c) = c_map c" "c_freelist (upd_slot p f c) = c_freelist c" "c_lock (upd_slot p f c) = c_lock c"
    "c_numslots (upd_slot p f c) = c_numslots c" "c_slots (upd_slot p f c) = c_slots c" "c_slot (upd_slot p f c) = (c_slot c)(p := f (c_slot c p))"
  by (simp_all add: upd_slot_def)

text \<open>A change of the reference count of a slot, with the free list changed to match.\<close>

lemma cache_ok_ref:
  assumes ok: "cache_ok self c" and i: "i < unat (c_numslots c)" "sl_valid (c_slot c (slotp c i))"
    and fl: "distinct fl" "set fl = (if r = 0 then insert (slotp c i) (set (c_freelist c)) else set (c_freelist c) - {slotp c i})"
  shows "cache_ok self (upd_slot (slotp c i) (\<lambda>x. x\<lparr>sl_ref := r\<rparr>) (c\<lparr>c_freelist := fl\<rparr>))"
proof -
  let ?c = "upd_slot (slotp c i) (\<lambda>x. x\<lparr>sl_ref := r\<rparr>) (c\<lparr>c_freelist := fl\<rparr>)"
  have S: "slots_ok self c" using ok by (simp add: cache_ok_def)
  have d: "slotp c j = slotp c i \<longleftrightarrow> j = i" if "j < unat (c_numslots c)" for j
    using slotp_inj slots_okD [OF S that] slots_okD [OF S i(1)] by blast
  have k: "(\<lambda>p. uint (sl_addr (c_slot ?c p))) = (\<lambda>p. uint (sl_addr (c_slot c p)))" by auto
  have "index_ok self c os \<Longrightarrow> index_ok self ?c os" for os
    unfolding index_ok_def k using i by auto
  moreover have "free_ok ?c"
  proof -
    have F: "set (c_freelist c) = slotp c ` {j. j < unat (c_numslots c) \<and> sl_ref (c_slot c (slotp c j)) = 0}"
        "\<forall>j<unat (c_numslots c). sl_ref (c_slot c (slotp c j)) \<noteq> 0 \<longrightarrow> sl_valid (c_slot c (slotp c j))"
      using ok by (auto simp: cache_ok_def free_ok_def)
    have "set fl = slotp c ` {j. j < unat (c_numslots c) \<and> sl_ref (c_slot ?c (slotp c j)) = 0}"
      unfolding fl(2) F(1) using i(1) d by auto
    then show ?thesis using fl(1) F(2) i by (auto simp: free_ok_def)
  qed
  moreover have "slots_ok self ?c" using S by (simp add: slots_ok_def)
  ultimately show ?thesis using ok by (auto simp: cache_ok_def)
qed

lemma cache_ok_lock: "cache_ok self (c\<lparr>c_lock := l\<rparr>) \<longleftrightarrow> cache_ok self c \<and> unlocked l" if "unlocked (c_lock c)"
  using that by (auto simp: cache_ok_def slots_ok_def index_ok_def free_ok_def)

text \<open>Under the lock nothing looks at the lock.\<close>

lemma cache_get_unfold:
  assumes "unlocked (c_lock c)" "cache_find self fill addr (c\<lparr>c_lock := (c_lock c)\<lparr>lck := 1\<rparr>\<rparr>) s = Some ((p, c'\<lparr>c_lock := (c_lock c)\<lparr>lck := 1\<rparr>\<rparr>), s')"
    "c_lock c' = c_lock c"
  shows "cache_get self fill addr c s = Some ((if p \<noteq> 0 then cache_getslotno c' p else - 1, c'), s')"
proof -
  have "c'\<lparr>c_lock := c_lock c\<rparr> = c'" using assms(3) [symmetric] by simp
  then show ?thesis using assms(1,2) by (simp add: cache_get_def cache_getslotno_def)
qed

lemma cache_get_hit:
  assumes ok: "cache_ok self c" and i: "cached c addr i" and r: "sl_ref (c_slot c (slotp c i)) \<noteq> - 1"
  shows "\<exists>c'. cache_get self fill addr c s = Some ((of_nat i, c'), s) \<and> cache_ok self c' \<and>
    c_slots c' = c_slots c \<and> c_numslots c' = c_numslots c \<and>
    c_slot c' = (c_slot c)(slotp c i := (c_slot c (slotp c i))\<lparr>sl_ref := sl_ref (c_slot c (slotp c i)) + 1\<rparr>)"
proof -
  let ?p = "slotp c i" and ?l = "(c_lock c)\<lparr>lck := 1\<rparr>"
  let ?r = "sl_ref (c_slot c ?p)"
  have S: "slots_ok self c" "unlocked (c_lock c)" "free_ok c" using ok by (simp_all add: cache_ok_def)
  obtain os where os: "index_ok self c os" using ok by (auto simp: cache_ok_def)
  have f: "rb_tree_find_node self 0 (slot_keycmp (c_slot c) addr) (c_map c) = Some ?p" by (rule find_cached(1) [OF S(1) os i])
  have b: "i < unat (c_numslots c)" "sl_valid (c_slot c ?p)" using i by (simp_all add: cached_def)
  have n: "?p \<noteq> 0" "i < 2 ^ 32" using slots_okD [OF S(1) b(1)] by auto
  have r1: "?r + 1 \<noteq> 0" using r by (metis add_eq_0_iff2)
  let ?c = "upd_slot ?p (\<lambda>x. x\<lparr>sl_ref := ?r + 1\<rparr>) (c\<lparr>c_freelist := remove1 ?p (c_freelist c)\<rparr>)"
  have fl: "distinct (remove1 ?p (c_freelist c))" "set (remove1 ?p (c_freelist c)) = set (c_freelist c) - {?p}"
    using S(3) by (simp_all add: free_ok_def)
  have "?r \<noteq> 0 \<Longrightarrow> ?p \<notin> set (c_freelist c)"
    using S(3) b(1) slotp_inj slots_okD [OF S(1)] n(2) by (auto simp: free_ok_def)
  then have "cache_find self fill addr (c\<lparr>c_lock := ?l\<rparr>) s = Some ((?p, ?c\<lparr>c_lock := ?l\<rparr>), s)"
    using f b n r1 by (cases "?r = 0") (simp_all add: cache_find_def upd_slot_def remove1_idem word_greater_zero_iff)
  from cache_get_unfold [OF S(2) this] have "cache_get self fill addr c s = Some ((of_nat i, ?c), s)"
    using n getslotno [OF n(2), of c] by (simp add: cache_getslotno_def)
  moreover have "cache_ok self ?c" using cache_ok_ref [OF ok b fl(1)] fl(2) r1 by simp
  ultimately show ?thesis by simp
qed

lemma cache_get_none:
  assumes ok: "cache_ok self c" and "\<forall>i. \<not> cached c addr i" "c_freelist c = []"
  shows "cache_get self fill addr c s = Some ((- 1, c), s)"
proof -
  have S: "slots_ok self c" "unlocked (c_lock c)" using ok by (simp_all add: cache_ok_def)
  obtain os where os: "index_ok self c os" using ok by (auto simp: cache_ok_def)
  have "cache_find self fill addr (c\<lparr>c_lock := (c_lock c)\<lparr>lck := 1\<rparr>\<rparr>) s = Some ((0, c\<lparr>c_lock := (c_lock c)\<lparr>lck := 1\<rparr>\<rparr>), s)"
    using find_cached(2) [OF S(1) os assms(2)] assms(3) by (simp add: cache_find_def)
  from cache_get_unfold [OF S(2) this] show ?thesis by simp
qed

text \<open>A slot that has never been used is given an address.\<close>

lemma index_ok_fill:
  assumes S: "slots_ok self c" and os: "index_ok self c os" and i: "i < unat (c_numslots c)" "\<not> sl_valid (c_slot c (slotp c i))"
    and new: "\<forall>j. \<not> cached c addr j" and m: "m = (c_slot c)(slotp c i := \<lparr>sl_addr = addr, sl_valid = True, sl_ref = r\<rparr>)"
  shows "\<exists>t os'. rb_tree_insert_node self 0 (slotcmp m) (slotp c i) (c_map c) = Some (slotp c i, t) \<and>
    index_ok self (c\<lparr>c_freelist := fl, c_slot := m, c_map := t\<rparr>) os'"
proof -
  let ?p = "slotp c i" and ?key = "\<lambda>q. uint (sl_addr (m q))"
  have I: "rb_index self 0 (c_map c) os" "key_sorted (\<lambda>q. uint (sl_addr (c_slot c q))) os"
      "set os = slotp c ` {j. j < unat (c_numslots c) \<and> sl_valid (c_slot c (slotp c j))}"
    using os by (simp_all add: index_ok_def)
  have p: "?p \<notin> set os" using I(3) i(2) by auto
  have K: "key_sorted ?key os"
    unfolding key_sorted_def by (rule sorted_wrt_mono_rel [OF _ I(2) [unfolded key_sorted_def]]) (use p in \<open>auto simp: m\<close>)
  have k: "?key ?p \<notin> ?key ` set os"
  proof
    assume "?key ?p \<in> ?key ` set os"
    then obtain q where q: "q \<in> set os" "?key ?p = ?key q" by blast
    then have "q \<noteq> ?p" using p by blast
    then have "sl_addr (c_slot c q) = addr" using q(2) by (simp add: m word_uint_eqI)
    then show False using new q(1) unfolding I(3) by (auto simp: cached_def)
  qed
  have d: "slotp c j = ?p \<longleftrightarrow> j = i" if "j < unat (c_numslots c)" for j
    using slotp_inj slots_okD [OF S that] slots_okD [OF S i(1)] by blast
  obtain t where t: "rb_tree_insert_node self 0 (slotcmp m) ?p (c_map c) = Some (?p, t)" "rb_index self 0 t (insort_key ?key ?p os)"
      "key_sorted ?key (insort_key ?key ?p os)"
    using rbx.insert_by_key [where key = ?key and cn = "slotcmp m" and obj = ?p, OF I(1) K slotcmp_key(2) _ p k] slots_okD [OF S i(1)] by blast
  have "set (insort_key ?key ?p os) = slotp c ` {j. j < unat (c_numslots c) \<and> sl_valid (m (slotp c j))}"
    unfolding set_insort_key I(3) using i(1) d by (auto simp: m)
  then show ?thesis using t by (auto simp: index_ok_def)
qed

lemma free_slot:
  assumes "free_ok c" "p \<in> set (c_freelist c)"
  obtains i where "i < unat (c_numslots c)" "p = slotp c i" "sl_ref (c_slot c p) = 0"
proof -
  have "p \<in> slotp c ` {i. i < unat (c_numslots c) \<and> sl_ref (c_slot c (slotp c i)) = 0}"
    using assms unfolding free_ok_def by simp
  then show thesis using that by blast
qed

lemma cache_get_fill:
  assumes ok: "cache_ok self c" and new: "\<forall>i. \<not> cached c addr i" and fl: "c_freelist c = p # rest" and v: "\<not> sl_valid (c_slot c p)"
    and fill: "fill (cache_getslotno c p) (sl_addr (c_slot c p)) addr s = Some s'"
  shows "\<exists>i c'. i < unat (c_numslots c) \<and> p = slotp c i \<and> cache_get self fill addr c s = Some ((of_nat i, c'), s') \<and>
    cache_ok self c' \<and> c_slots c' = c_slots c \<and> c_numslots c' = c_numslots c \<and>
    c_slot c' = (c_slot c)(p := \<lparr>sl_addr = addr, sl_valid = True, sl_ref = 1\<rparr>)"
proof -
  let ?l = "(c_lock c)\<lparr>lck := 1\<rparr>" and ?m = "(c_slot c)(p := \<lparr>sl_addr = addr, sl_valid = True, sl_ref = 1\<rparr>)"
  have S: "slots_ok self c" "unlocked (c_lock c)" "free_ok c" using ok by (simp_all add: cache_ok_def)
  obtain os where os: "index_ok self c os" using ok by (auto simp: cache_ok_def)
  obtain i where i: "i < unat (c_numslots c)" "p = slotp c i" "sl_ref (c_slot c p) = 0"
    by (rule free_slot [OF S(3), of p]) (use fl in simp_all)
  note n = slots_okD [OF S(1) i(1)]
  obtain t os' where t: "rb_tree_insert_node self 0 (slotcmp ?m) p (c_map c) = Some (p, t)"
      "index_ok self (c\<lparr>c_freelist := rest, c_slot := ?m, c_map := t\<rparr>) os'"
    using index_ok_fill [OF S(1) os i(1) v [unfolded i(2)] new refl, folded i(2)] by blast
  let ?c = "c\<lparr>c_freelist := rest, c_slot := ?m, c_map := t\<rparr>"
  have e: "(c_slot c p)\<lparr>sl_addr := addr, sl_ref := 1, sl_valid := True\<rparr> = \<lparr>sl_addr = addr, sl_valid = True, sl_ref = 1\<rparr>"
    by (cases "c_slot c p") simp
  have "cache_find self fill addr (c\<lparr>c_lock := ?l\<rparr>) s = Some ((p, ?c\<lparr>c_lock := ?l\<rparr>), s')"
    using find_cached(2) [OF S(1) os new] fl i(3) fill t(1)
    by (simp add: cache_find_def upd_slot_def cache_getslotno_def e)
  from cache_get_unfold [OF S(2) this] have g: "cache_get self fill addr c s = Some ((of_nat i, ?c), s')"
    using n getslotno [of i c, folded i(2)] i(2) by (simp add: cache_getslotno_def)
  have d: "slotp c j = p \<longleftrightarrow> j = i" if "j < unat (c_numslots c)" for j
    using slotp_inj slots_okD [OF S(1) that] n i(2) by blast
  have "set rest = slotp c ` {j. j < unat (c_numslots c) \<and> sl_ref (?m (slotp c j)) = 0}"
  proof -
    have "set rest = set (c_freelist c) - {p}" using S(3) fl by (auto simp: free_ok_def)
    then show ?thesis using S(3) d by (auto simp: free_ok_def)
  qed
  then have "free_ok ?c" using S(3) fl by (auto simp: free_ok_def)
  then have "cache_ok self ?c" using t(2) S(1,2) by (auto simp: cache_ok_def slots_ok_def)
  then show ?thesis using g i by auto
qed

lemma cache_put_ok:
  assumes ok: "cache_ok self c" and i: "i < unat (c_numslots c)" and r: "sl_ref (c_slot c (slotp c i)) \<noteq> 0"
  shows "\<exists>c'. cache_put (of_nat i) c = Some c' \<and> cache_ok self c' \<and> c_slots c' = c_slots c \<and> c_numslots c' = c_numslots c \<and>
    c_slot c' = (c_slot c)(slotp c i := (c_slot c (slotp c i))\<lparr>sl_ref := sl_ref (c_slot c (slotp c i)) - 1\<rparr>)"
proof -
  let ?p = "slotp c i"
  let ?r = "sl_ref (c_slot c ?p) - 1"
  let ?fl = "if ?r = 0 then c_freelist c @ [?p] else c_freelist c"
  let ?c = "upd_slot ?p (\<lambda>x. x\<lparr>sl_ref := ?r\<rparr>) (c\<lparr>c_freelist := ?fl\<rparr>)"
  have S: "slots_ok self c" "unlocked (c_lock c)" "free_ok c" using ok by (simp_all add: cache_ok_def)
  have n: "i < 2 ^ 32" using slots_okD [OF S(1) i] by simp
  have v: "sl_valid (c_slot c ?p)" using S(3) i r by (simp add: free_ok_def)
  have f: "?p \<notin> set (c_freelist c)"
    using S(3) r slotp_inj slots_okD [OF S(1)] n by (auto simp: free_ok_def)
  have "unat (of_nat i :: u64) = i" using n by (simp add: unat_of_nat)
  moreover have "unat (ucast (c_numslots c) :: u64) = unat (c_numslots c)"
    by (rule unat_ucast_less) (use S(1) in \<open>simp add: slots_ok_def\<close>)
  ultimately have "(of_nat i :: u64) < ucast (c_numslots c)" using i by (simp add: word_less_nat_alt)
  then have "cache_put (of_nat i) c = Some ?c"
    using r S(2) by (simp add: cache_put_def upd_slot_def slotp_def Let_def)
  moreover have "cache_ok self ?c" using cache_ok_ref [OF ok i v, of ?fl ?r] f S(3) by (simp add: free_ok_def)
  ultimately show ?thesis by simp
qed

text \<open>The new cache: every slot is free and none has been used.\<close>

lemma init_slot_simps:
  "c_map (cache_init_slot slots i c) = c_map c" "c_lock (cache_init_slot slots i c) = c_lock c"
  "c_numslots (cache_init_slot slots i c) = c_numslots c" "c_slots (cache_init_slot slots i c) = c_slots c"
  "c_freelist (cache_init_slot slots i c) = c_freelist c @ [slots + SLOT_SIZE * of_nat i]"
  "c_slot (cache_init_slot slots i c) = (c_slot c)(slots + SLOT_SIZE * of_nat i :=
     (c_slot c (slots + SLOT_SIZE * of_nat i))\<lparr>sl_valid := False, sl_ref := 0\<rparr>)"
  by (simp_all add: cache_init_slot_def Let_def)

lemma init_slots:
  "k \<le> 2 ^ 32 \<Longrightarrow> c = fold (cache_init_slot slots) [0..<k] c0 \<Longrightarrow>
    c_map c = c_map c0 \<and> c_lock c = c_lock c0 \<and> c_numslots c = c_numslots c0 \<and> c_slots c = c_slots c0 \<and>
    c_freelist c = c_freelist c0 @ map (\<lambda>i. slots + SLOT_SIZE * of_nat i) [0..<k] \<and>
    (\<forall>i<k. \<not> sl_valid (c_slot c (slots + SLOT_SIZE * of_nat i)) \<and> sl_ref (c_slot c (slots + SLOT_SIZE * of_nat i)) = 0)"
proof (induction k arbitrary: c)
  case (Suc k)
  let ?c = "fold (cache_init_slot slots) [0..<k] c0"
  have "c = cache_init_slot slots k ?c" using Suc.prems(2) by simp
  then show ?case using Suc.IH [OF _ refl] Suc.prems(1) by (auto simp: init_slot_simps less_Suc_eq)
qed simp

lemma cache_init_ok:
  assumes "al self" "self \<noteq> 0" "unat n < 2 ^ 32 - 1" "\<forall>i<unat n. rb_fresh self 0 (slots + SLOT_SIZE * of_nat i)"
  shows "cache_ok self (cache_init self slots n c) \<and> c_numslots (cache_init self slots n c) = n \<and>
    c_slots (cache_init self slots n c) = slots \<and> (\<forall>addr i. \<not> cached (cache_init self slots n c) addr i)"
proof -
  let ?c = "cache_init self slots n c"
  let ?d = "c\<lparr>c_lock := spinlock_init (c_lock c), c_map := rb_tree_init self (c_map c), c_freelist := [], c_numslots := n, c_slots := slots\<rparr>"
  have "?c = fold (cache_init_slot slots) [0..<unat n] ?d" by (simp add: cache_init_def)
  note I = init_slots [OF _ this]
  have f: "c_map ?c = rb_tree_init self (c_map c)" "c_lock ?c = spinlock_init (c_lock c)" "c_numslots ?c = n" "c_slots ?c = slots"
      "c_freelist ?c = map (slotp ?c) [0..<unat n]"
      "\<forall>i<unat n. \<not> sl_valid (c_slot ?c (slotp ?c i)) \<and> sl_ref (c_slot ?c (slotp ?c i)) = 0"
    using I assms(3) by (simp_all add: slotp_def)
  have S: "slots_ok self ?c" using f(3,4) assms(3,4) by (simp add: slots_ok_def slotp_def)
  have "index_ok self ?c []"
    using rb_index_init [OF assms(1,2)] f(1,3,6) by (auto simp: index_ok_def key_sorted_def)
  moreover have "free_ok ?c"
  proof -
    have "inj_on (slotp ?c) {0..<unat n}" using slotp_inj assms(3) by (auto simp: inj_on_def)
    then show ?thesis using f(3,5,6) by (auto simp: free_ok_def distinct_map)
  qed
  moreover have "unlocked (c_lock ?c)" using f(2) by simp
  ultimately show ?thesis using S f(3,4,6) by (auto simp: cache_ok_def cached_def)
qed

section \<open>Properties\<close>


lemma init2_ok: "cache_ok 0x100 (cache_init 0x100 0x1000 2 cache0) \<and> (\<forall>addr i. \<not> cached (cache_init 0x100 0x1000 2 cache0) addr i)"
proof -
  have "rb_fresh 0x100 0 (0x1000 + SLOT_SIZE * of_nat i)" if "i < 2" for i
    using that by (auto simp: less_2_cases_iff rb_fresh_def al_def)
  then show ?thesis using cache_init_ok [of "0x100" 2 "0x1000" cache0] by (simp add: al_def)
qed

lemmas cache_eval = cache_get_def cache_find_def cache_put_def spinlock_def spinunlock_def slotcmp_def slot_keycmp_def upd_slot_def
  cache_getslotno_def rb_tree_find_node_def find_loop.simps insert_descend.simps rb_tree_insert_node_def RB_SET_FATHER_def
  RB_SET_POSITION_def upd_info_def set_minmax_def RB_MARK_BLACK_def RB_MARK_RED_def RB_RED_P_def rbt_minmax_def set_nodes_def
  rbt_root_def rb_nodes_def cache2_def node3_def nofill_def

lemma init2: "cache_init 0x100 0x1000 2 cache0 =
    cache2 (node3 (mknode 0 0 0) (mknode 0 0 0) (mknode 0 0 0) 0 0) [0x1000, 0x1038] (mkslot 0 False 0) (mkslot 0 False 0)"
  by (simp add: cache_init_def cache0_def spinlock_init_def rb_tree_init_def tree0_def set_nodes_def set_minmax_def cache2_def
    node3_def cache_init_slot_def upd_slot_def rbt_root_def rb_nodes_def upt_rec fun_eq_iff)

lemma run1: "cache_get 0x100 nofill 10
    (cache2 (node3 (mknode 0 0 0) (mknode 0 0 0) (mknode 0 0 0) 0 0) [0x1000, 0x1038] (mkslot 0 False 0) (mkslot 0 False 0)) () =
  Some ((0, cache2 (node3 (mknode 0x1000 0 0) (mknode 0 0 0x100) (mknode 0 0 0) 0x1000 0x1000) [0x1038] (mkslot 10 True 1) (mkslot 0 False 0)), ())"
  by (simp add: cache_eval fun_eq_iff)

lemma run2: "cache_get 0x100 nofill 20
    (cache2 (node3 (mknode 0x1000 0 0) (mknode 0 0 0x100) (mknode 0 0 0) 0x1000 0x1000) [0x1038] (mkslot 10 True 1) (mkslot 0 False 0)) () =
  Some ((1, cache2 (node3 (mknode 0x1000 0 0) (mknode 0 0x1038 0x100) (mknode 0 0 0x1003) 0x1000 0x1038) [] (mkslot 10 True 1) (mkslot 20 True 1)), ())"
  by (simp add: cache_eval fun_eq_iff)

lemma run3: "cache_put 0
    (cache2 (node3 (mknode 0x1000 0 0) (mknode 0 0x1038 0x100) (mknode 0 0 0x1003) 0x1000 0x1038) [] (mkslot 10 True 1) (mkslot 20 True 1)) =
  Some (cache2 (node3 (mknode 0x1000 0 0) (mknode 0 0x1038 0x100) (mknode 0 0 0x1003) 0x1000 0x1038) [0x1000] (mkslot 10 True 0) (mkslot 20 True 1))"
  by (simp add: cache_eval fun_eq_iff)

lemma run4: "cache_get 0x100 nofill 40
    (cache2 (node3 (mknode 0x1000 0 0) (mknode 0 0x1038 0x100) (mknode 0 0 0x1003) 0x1000 0x1038) [0x1000] (mkslot 10 True 0) (mkslot 20 True 1)) () =
  Some ((0, cache2 (node3 (mknode 0x1000 0 0) (mknode 0 0x1038 0x100) (mknode 0 0 0x1003) 0x1000 0x1038) [] (mkslot 40 True 1) (mkslot 20 True 1)), ())"
  by (simp add: cache_eval fun_eq_iff)

lemma run5: "cache_get 0x100 nofill 20
    (cache2 (node3 (mknode 0x1000 0 0) (mknode 0 0x1038 0x100) (mknode 0 0 0x1003) 0x1000 0x1038) [] (mkslot 40 True 1) (mkslot 20 True 1)) () =
  Some ((- 1, cache2 (node3 (mknode 0x1000 0 0) (mknode 0 0x1038 0x100) (mknode 0 0 0x1003) 0x1000 0x1038) [] (mkslot 40 True 1) (mkslot 20 True 1)), ())"
  by (simp add: cache_eval fun_eq_iff)


text \<open>
  C31. An eviction can make a cached address unreachable: the evicted slot stays in the tree, under its new address, and
  the order of the tree is lost. With two slots, after 40 has taken the slot of 10, the look-up of 20 fails although
  slot 1 holds it and is in use, and as no slot is free, \<^verbatim>\<open>cache_get\<close> returns \<^verbatim>\<open>(unsigned) -1\<close>.
\<close>

theorem cache_evict_loses:
  "\<exists>c. evict_run = Some ([0, 1, 0, - 1], c) \<and> cached c 20 1 \<and> sl_ref (c_slot c (slotp c 1)) = 1 \<and> \<not> cache_ok 0x100 c"
proof -
  let ?c = "cache2 (node3 (mknode 0x1000 0 0) (mknode 0 0x1038 0x100) (mknode 0 0 0x1003) 0x1000 0x1038) [] (mkslot 40 True 1) (mkslot 20 True 1)"
  have e: "evict_run = Some ([0, 1, 0, - 1], ?c)" by (simp add: evict_run_def init2 run1 run2 run3 run4 run5)
  have c: "cached ?c 20 1" by (simp add: cached_def cache2_def slotp_def)
  have "\<not> cache_ok 0x100 ?c"
  proof
    assume "cache_ok 0x100 ?c"
    from cache_get_hit [OF this c, of nofill "()"] run5 show False by (simp add: cache2_def slotp_def)
  qed
  then show ?thesis using e c by (intro exI [of _ ?c]) (simp add: cache2_def slotp_def)
qed

end
