(* ===== verification/Stree.thy ===== *)
theory Stree
  imports Nux_Prelude
begin

text \<open>
  The searchable bitmap of \<^verbatim>\<open>include/stree.h\<close>, in the configuration the kernel and the boot
  loader compile (\<^verbatim>\<open>STREE_USE_LONG_LONG\<close>: 64-bit words). A tree of order \<open>o\<close> is a bitmap of
  \<open>2 ^ o\<close> bits followed by its summary levels ("LMAPs"): bit \<open>i\<close> of level \<open>l + 1\<close> says whether
  word \<open>i\<close> of level \<open>l\<close> has a bit set. The tree is the array of words that
  \<^verbatim>\<open>WORD_T *stree\<close> points at; a pointer into it is the word offset, and an access outside the
  array does not return (\<open>None\<close>).
\<close>

section \<open>The code\<close>

type_synonym stree = "u64 list"

definition CEIL_DIV :: "nat \<Rightarrow> nat \<Rightarrow> nat" where
  "CEIL_DIV n d = (n + d - 1) div d"

definition LOGWORD :: "u32 \<Rightarrow> u32" where
  "LOGWORD x = (x + (6 - 1)) div 6"

definition STREE_SIZE :: "nat \<Rightarrow> nat" where
  "STREE_SIZE ord = CEIL_DIV (2 ^ ord - 1) (64 - 1)"

definition GET_WORD :: "stree \<Rightarrow> u64 \<Rightarrow> u64 option" where
  "GET_WORD s p = (if unat p < length s then Some (s ! unat p) else None)"

definition SET_WORD :: "stree \<Rightarrow> u64 \<Rightarrow> u64 \<Rightarrow> stree option" where
  "SET_WORD s p x = (if unat p < length s then Some (s[unat p := x]) else None)"

definition OR_WORD :: "stree \<Rightarrow> u64 \<Rightarrow> u64 \<Rightarrow> stree option" where
  "OR_WORD s p x = do { w \<leftarrow> GET_WORD s p; SET_WORD s p (w OR x) }"

definition MASK_WORD :: "stree \<Rightarrow> u64 \<Rightarrow> u64 \<Rightarrow> stree option" where
  "MASK_WORD s p x = do { w \<leftarrow> GET_WORD s p; SET_WORD s p (w AND x) }"

text \<open>\<^verbatim>\<open>__builtin_clzl\<close> is undefined at zero, and \<^verbatim>\<open>__builtin_popcount\<close> takes an
  \<^verbatim>\<open>unsigned int\<close>: its argument is truncated to 32 bits.\<close>

definition stree_order :: "u64 \<Rightarrow> nat option" where
  "stree_order n =
     (if n = 0 then None
      else let log2_n = 64 - 1 - clz n; r = log2_n
           in Some (r + (if popcount (ucast n :: u32) > 1 then 1 else 0)))"

text \<open>The literal \<^verbatim>\<open>1\<close> is an \<^verbatim>\<open>int\<close>: both shifts are done in 32 bits and the results are
  sign-extended.\<close>

definition stree_lmap_off :: "u32 \<Rightarrow> u32 \<Rightarrow> u64" where
  "stree_lmap_off ord l =
     (let y = l - 1;
          c = scast (push_bit (unat (ord - 6 * y)) (1 :: u32)) :: u64;
          r = c * scast (push_bit (unat (6 * l)) (1 :: u32) - 1) div (64 - 1)
      in drop_bit 6 r)"

definition stree_lmap :: "u32 \<Rightarrow> u32 \<Rightarrow> u64" where
  "stree_lmap ord l = stree_lmap_off ord l"

definition lmap_bitoff :: "u32 \<Rightarrow> u32 \<Rightarrow> u64" where
  "lmap_bitoff l a = drop_bit (unat (6 * l)) (ucast a)"

definition set_bit_at :: "stree \<Rightarrow> u64 \<Rightarrow> u64 \<Rightarrow> (bool \<times> stree) option" where
  "set_bit_at s lmap bitaddr =
     do { let off = drop_bit 6 bitaddr;
          let bt = bitaddr AND 0x3f;
          old \<leftarrow> GET_WORD s (lmap + off);
          s' \<leftarrow> OR_WORD s (lmap + off) (push_bit (unat bt) 1);
          Some (old \<noteq> 0, s') }"

definition clr_bit_at :: "stree \<Rightarrow> u64 \<Rightarrow> u64 \<Rightarrow> (bool \<times> stree) option" where
  "clr_bit_at s lmap bitaddr =
     do { let off = drop_bit 6 bitaddr;
          let bt = bitaddr AND 0x3f;
          s' \<leftarrow> MASK_WORD s (lmap + off) (NOT (push_bit (unat bt) 1));
          w \<leftarrow> GET_WORD s' (lmap + off);
          Some (w \<noteq> 0, s') }"

definition get_bit_at :: "stree \<Rightarrow> u64 \<Rightarrow> u64 \<Rightarrow> bool option" where
  "get_bit_at s lmap bitaddr =
     do { let off = drop_bit 6 bitaddr;
          let bt = bitaddr AND 0x3f;
          w \<leftarrow> GET_WORD s (lmap + off);
          Some (w AND push_bit (unat bt) 1 \<noteq> 0) }"

definition stree_getbit :: "stree \<Rightarrow> u32 \<Rightarrow> u64 \<Rightarrow> bool option" where
  "stree_getbit s ord bitaddr =
     get_bit_at s (stree_lmap ord 0) (lmap_bitoff 0 (ucast bitaddr))"

text \<open>The loops \<^verbatim>\<open>for (l = 0; l <= LOGWORD (o) - 1; l++)\<close>: the bound is an unsigned 32-bit
  expression.\<close>

function stree_setbit_from :: "stree \<Rightarrow> u32 \<Rightarrow> u64 \<Rightarrow> nat \<Rightarrow> stree option" where
  "stree_setbit_from s ord bitaddr l =
     (if l \<le> unat (LOGWORD ord - 1)
      then do { let lmap = stree_lmap ord (of_nat l);
                let laddr = lmap_bitoff (of_nat l) (ucast bitaddr);
                (others, s') \<leftarrow> set_bit_at s lmap laddr;
                if others then Some s' else stree_setbit_from s' ord bitaddr (Suc l) }
      else Some s)"
  by pat_completeness auto
termination
  by (relation "measure (\<lambda>(s, ord, a, l). Suc (unat (LOGWORD ord - 1)) - l)") auto

function stree_clrbit_from :: "stree \<Rightarrow> u32 \<Rightarrow> u64 \<Rightarrow> nat \<Rightarrow> stree option" where
  "stree_clrbit_from s ord bitaddr l =
     (if l \<le> unat (LOGWORD ord - 1)
      then do { let lmap = stree_lmap ord (of_nat l);
                let laddr = lmap_bitoff (of_nat l) (ucast bitaddr);
                (others, s') \<leftarrow> clr_bit_at s lmap laddr;
                if others then Some s' else stree_clrbit_from s' ord bitaddr (Suc l) }
      else Some s)"
  by pat_completeness auto
termination
  by (relation "measure (\<lambda>(s, ord, a, l). Suc (unat (LOGWORD ord - 1)) - l)") auto

declare stree_setbit_from.simps [simp del] stree_clrbit_from.simps [simp del]

definition stree_setbit :: "stree \<Rightarrow> u32 \<Rightarrow> u64 \<Rightarrow> stree option" where
  "stree_setbit s ord bitaddr = stree_setbit_from s ord bitaddr 0"

definition stree_clrbit :: "stree \<Rightarrow> u32 \<Rightarrow> u64 \<Rightarrow> stree option" where
  "stree_clrbit s ord bitaddr = stree_clrbit_from s ord bitaddr 0"

text \<open>\<^verbatim>\<open>memset (p, -1, n * sizeof (WORD_T))\<close>.\<close>

definition memset_ones :: "stree \<Rightarrow> u64 \<Rightarrow> u64 \<Rightarrow> stree option" where
  "memset_ones s p n =
     (if unat p + unat n \<le> length s
      then Some (take (unat p) s @ replicate (unat n) (- 1) @ drop (unat p + unat n) s)
      else None)"

primrec stree_setall_down :: "nat \<Rightarrow> stree \<Rightarrow> u32 \<Rightarrow> u64 \<Rightarrow> stree option" where
  "stree_setall_down 0 s ord max_bit = Some s"
| "stree_setall_down (Suc l) s ord max_bit =
     do { let lmap = stree_lmap ord (of_nat l);
          let size = drop_bit 6 (lmap_bitoff (of_nat l) (ucast max_bit));
          let bits = lmap_bitoff (of_nat l) (ucast max_bit) AND 0x3f;
          s1 \<leftarrow> memset_ones s lmap size;
          s2 \<leftarrow> SET_WORD s1 (lmap + size)
                  (if bits = 64 - 1 then - 1 else push_bit (unat (bits + 1)) 1 - 1);
          stree_setall_down l s2 ord max_bit }"

definition stree_setall :: "stree \<Rightarrow> u32 \<Rightarrow> u64 \<Rightarrow> stree option" where
  "stree_setall s ord max_bit = stree_setall_down (unat (LOGWORD ord)) s ord max_bit"

function stree_count_from :: "stree \<Rightarrow> u32 \<Rightarrow> nat \<Rightarrow> u64 \<Rightarrow> u64 option" where
  "stree_count_from s ord i sz =
     (if i < 2 ^ unat ord
      then do { w \<leftarrow> GET_WORD s (stree_lmap ord 0 + of_nat (i div 64));
                stree_count_from s ord (i + 64) (sz + of_nat (popcount w)) }
      else Some sz)"
  by pat_completeness auto
termination
  by (relation "measure (\<lambda>(s, ord, i, sz). 2 ^ unat ord - i)") auto

declare stree_count_from.simps [simp del]

definition stree_count :: "stree \<Rightarrow> u32 \<Rightarrow> u64 option" where
  "stree_count s ord = stree_count_from s ord 0 0"

text \<open>\<^verbatim>\<open>stree_bitsearch\<close> returns a \<^verbatim>\<open>long\<close>, \<open>- 1\<close> when no bit is set. The first argument counts
  the levels left: the loop runs \<^verbatim>\<open>l\<close> from \<^verbatim>\<open>LOGWORD (o) - 1\<close> down to 0.\<close>

primrec stree_bitsearch_down :: "nat \<Rightarrow> stree \<Rightarrow> u32 \<Rightarrow> bool \<Rightarrow> u64 \<Rightarrow> int option" where
  "stree_bitsearch_down 0 s ord low laddr = Some (sint laddr)"
| "stree_bitsearch_down (Suc l) s ord low laddr =
     do { let lmap = stree_lmap ord (of_nat l);
          let loff = drop_bit 6 (lmap_bitoff (of_nat l) (ucast laddr));
          word \<leftarrow> GET_WORD s (lmap + loff);
          if word = 0
          then (if l = unat (LOGWORD ord - 1) then Some (- 1) else None)
          else do { let bt = (if low then of_nat (ctz word) else of_nat (64 - 1 - clz word) :: u32);
                    stree_bitsearch_down l s ord low (laddr OR ucast (push_bit (l * 6) bt)) } }"

definition stree_bitsearch :: "stree \<Rightarrow> u32 \<Rightarrow> bool \<Rightarrow> int option" where
  "stree_bitsearch s ord low = stree_bitsearch_down (unat (LOGWORD ord)) s ord low 0"

section \<open>What a tree represents\<close>

text \<open>
  \<open>nlev n\<close> is the number of levels of a tree of order \<open>n\<close>, \<open>lbase n l\<close> the word offset at which
  level \<open>l\<close> starts and \<open>nwords n l\<close> how many words it has.
\<close>

definition nlev :: "nat \<Rightarrow> nat" where
  "nlev n = (n + 5) div 6"

definition lbase :: "nat \<Rightarrow> nat \<Rightarrow> nat" where
  "lbase n l = (\<Sum>i = 1..l. 2 ^ (n - 6 * i))"

definition nwords :: "nat \<Rightarrow> nat \<Rightarrow> nat" where
  "nwords n l = 2 ^ (n - 6 * Suc l)"

definition lv :: "nat \<Rightarrow> stree \<Rightarrow> nat \<Rightarrow> nat \<Rightarrow> u64" where
  "lv n s l i = s ! (lbase n l + i)"

text \<open>Every bit of a summary level says whether the word below it is non-zero, and the last word of
  the top level has no bit beyond the ones that summarise a word.\<close>

definition links_ok :: "nat \<Rightarrow> stree \<Rightarrow> bool" where
  "links_ok n s \<longleftrightarrow>
     (\<forall>l i. Suc l < nlev n \<longrightarrow> i < nwords n l \<longrightarrow>
        (bit (lv n s (Suc l) (i div 64)) (i mod 64) \<longleftrightarrow> lv n s l i \<noteq> 0))"

definition top_ok :: "nat \<Rightarrow> stree \<Rightarrow> bool" where
  "top_ok n s \<longleftrightarrow>
     (\<forall>j<64. 2 ^ (n - 6 * (nlev n - 1)) \<le> j \<longrightarrow> \<not> bit (lv n s (nlev n - 1) 0) j)"

definition stree_dim :: "nat \<Rightarrow> stree \<Rightarrow> bool" where
  "stree_dim n s \<longleftrightarrow> 1 \<le> n \<and> n \<le> 30 \<and> STREE_SIZE n \<le> length s"

definition stree_ok :: "nat \<Rightarrow> stree \<Rightarrow> bool" where
  "stree_ok n s \<longleftrightarrow> stree_dim n s \<and> links_ok n s \<and> top_ok n s"

definition stree_set :: "nat \<Rightarrow> stree \<Rightarrow> nat set" where
  "stree_set n s = {a. a < 2 ^ n \<and> bit (lv n s 0 (a div 64)) (a mod 64)}"

text \<open>Vocabulary of the proofs: writing one word, the state of an update that still owes one link,
  the state of a search, and a level as \<^verbatim>\<open>stree_setall\<close> leaves it.\<close>

definition upd :: "nat \<Rightarrow> stree \<Rightarrow> nat \<Rightarrow> nat \<Rightarrow> u64 \<Rightarrow> stree" where
  "upd n s l i w = s[lbase n l + i := w]"

definition links_but :: "nat \<Rightarrow> stree \<Rightarrow> nat \<Rightarrow> nat \<Rightarrow> bool" where
  "links_but n s l k \<longleftrightarrow>
     (\<forall>m i. Suc m < nlev n \<longrightarrow> i < nwords n m \<longrightarrow> \<not> (l = Suc m \<and> k = i) \<longrightarrow>
        (bit (lv n s (Suc m) (i div 64)) (i mod 64) \<longleftrightarrow> lv n s m i \<noteq> 0))"

definition ahead :: "bool \<Rightarrow> nat \<Rightarrow> nat \<Rightarrow> bool" where
  "ahead low x y = (if low then x \<le> y else y \<le> x)"

definition search_inv :: "nat \<Rightarrow> stree \<Rightarrow> bool \<Rightarrow> nat \<Rightarrow> nat \<Rightarrow> bool" where
  "search_inv n s low l A \<longleftrightarrow> A < 2 ^ n \<and> 64 ^ l dvd A \<and>
     (\<forall>a\<in>stree_set n s. ahead low (A div 64 ^ l) (a div 64 ^ l)) \<and>
     (if l < nlev n then bit (lv n s l (A div 64 ^ Suc l)) (A div 64 ^ l mod 64) else A = 0)"

definition pick :: "bool \<Rightarrow> u64 \<Rightarrow> nat" where
  "pick low w = (if low then ctz w else 64 - 1 - clz w)"

definition level_full :: "nat \<Rightarrow> stree \<Rightarrow> nat \<Rightarrow> nat \<Rightarrow> bool" where
  "level_full n s a l \<longleftrightarrow>
     (\<forall>i < nwords n l. \<forall>j < 64. bit (lv n s l i) j \<longleftrightarrow> i * 64 + j \<le> a div 64 ^ l)"

definition level_zero :: "nat \<Rightarrow> stree \<Rightarrow> nat \<Rightarrow> bool" where
  "level_zero n s l \<longleftrightarrow> (\<forall>i < nwords n l. lv n s l i = 0)"

section \<open>Layout\<close>

lemma less_nlev_iff [simp]: "l < nlev n \<longleftrightarrow> 6 * l < n"
  by (simp add: nlev_def less_eq_div_iff_mult_less_eq flip: Suc_le_eq) arith

lemma lbase_0 [simp]: "lbase n 0 = 0"
  by (simp add: lbase_def)

lemma lbase_Suc: "lbase n (Suc l) = lbase n l + nwords n l"
  by (simp add: lbase_def nwords_def)

lemma lbase_mono: "l \<le> m \<Longrightarrow> lbase n l \<le> lbase n m"
  unfolding lbase_def by (rule sum_mono2) auto

lemma lbase_geometric: "6 * l \<le> n \<Longrightarrow> 63 * lbase n l + 2 ^ (n - 6 * l) = 2 ^ n"
proof (induction l)
  case (Suc l)
  have "(2::nat) ^ (n - 6 * l) = 2 ^ (n - 6 * Suc l + 6)" using Suc.prems by (simp add: algebra_simps)
  then have "(2::nat) ^ (n - 6 * l) = 64 * 2 ^ (n - 6 * Suc l)" by (simp add: power_add)
  with Suc show ?case by (simp add: lbase_Suc nwords_def)
qed simp

lemma STREE_SIZE_eq:
  assumes "1 \<le> n"
  shows "STREE_SIZE n = lbase n (nlev n - 1) + 1"
proof -
  define l where "l = nlev n - 1"
  have l: "6 * l < n" "n \<le> 6 * l + 6" using assms unfolding l_def nlev_def by arith+
  define r where "r = n - 6 * l"
  have r: "1 \<le> r" "r \<le> 6" using l by (simp_all add: r_def)
  have g: "2 ^ n = 63 * lbase n l + 2 ^ r" using lbase_geometric [of l n] l by (simp add: r_def)
  have p1: "(2::nat) \<le> 2 ^ r" using power_increasing [of 1 r "2::nat"] r by simp
  have p2: "(2::nat) ^ r \<le> 64" using power_increasing [of r 6 "2::nat"] r by simp
  have "STREE_SIZE n = (2 ^ n - 1 + 62) div 63" by (simp add: STREE_SIZE_def CEIL_DIV_def)
  also have "2 ^ n - 1 + 62 = 63 * lbase n l + (2 ^ r + 61)" using g p1 by simp
  also have "(63 * lbase n l + (2 ^ r + 61)) div 63 = lbase n l + (2 ^ r + 61) div 63" by simp
  also have "(2 ^ r + 61) div 63 = (1::nat)" using p1 p2 by (intro div_nat_eqI) simp_all
  finally show ?thesis by (simp add: l_def)
qed

lemma level_in_bounds:
  assumes "6 * l < n" "i < nwords n l"
  shows "lbase n l + i < STREE_SIZE n"
proof (cases "6 * Suc l < n")
  case True
  then have "Suc l \<le> nlev n - 1" using less_nlev_iff [of "Suc l" n] by arith
  then have "lbase n (Suc l) \<le> lbase n (nlev n - 1)" by (rule lbase_mono)
  with assms show ?thesis by (simp add: lbase_Suc STREE_SIZE_eq)
next
  case False
  then have "nwords n l = 1" by (simp add: nwords_def)
  moreover have "l \<le> nlev n - 1" using assms(1) less_nlev_iff [of l n] by arith
  then have "lbase n l \<le> lbase n (nlev n - 1)" by (rule lbase_mono)
  ultimately show ?thesis using assms by (simp add: STREE_SIZE_eq)
qed

lemma scast_32_64: "\<not> bit w 31 \<Longrightarrow> scast (w::u32) = (ucast w :: u64)"
proof (rule bit_word_eqI)
  fix k assume "\<not> bit w 31" "k < LENGTH(64)"
  then show "bit (scast w :: u64) k \<longleftrightarrow> bit (ucast w :: u64) k"
    using bit_imp_le_length [of w k]
    by (cases "k < 31"; cases "k = 31") (auto simp: bit_signed_iff bit_unsigned_iff min_def)
qed

lemma scast_push_bit_1:
  assumes "k < 31"
  shows "scast (push_bit k (1::u32)) = (2 ^ k :: u64)"
proof -
  have "scast (push_bit k (1::u32)) = (ucast (push_bit k (1::u32)) :: u64)"
    using assms by (intro scast_32_64) (simp add: bit_simps)
  also have "\<dots> = 2 ^ k" using assms by (intro bit_word_eqI) (auto simp: bit_simps)
  finally show ?thesis .
qed

lemma scast_mask:
  assumes "k < 31"
  shows "scast (push_bit k (1::u32) - 1) = (mask k :: u64)"
proof -
  have m: "push_bit k (1::u32) - 1 = mask k" by (simp add: mask_eq_decr_exp)
  have "scast (mask k :: u32) = (ucast (mask k :: u32) :: u64)"
    using assms by (intro scast_32_64) (simp add: bit_simps)
  also have "\<dots> = mask k" using assms by (intro bit_word_eqI) (auto simp: bit_simps)
  finally show ?thesis by (simp only: m)
qed

lemma stree_lmap_off_eq:
  assumes "n \<le> 30" "6 * l < n"
  shows "unat (stree_lmap_off (of_nat n) (of_nat l)) = lbase n l"
proof (cases l)
  case 0
  then show ?thesis by (simp add: stree_lmap_off_def)
next
  case (Suc m)
  have lm: "(of_nat l :: u32) - 1 = of_nat m" using Suc by simp
  have "(of_nat n :: u32) - 6 * of_nat m = of_nat (n - 6 * m)"
    using assms Suc by (simp add: of_nat_diff)
  then have sh: "unat ((of_nat n :: u32) - 6 * of_nat m) = n - 6 * m"
    using assms by (simp add: unat_of_nat_less)
  have "(6::u32) * of_nat l = of_nat (6 * l)" by simp
  then have sh2: "unat ((6::u32) * of_nat l) = 6 * l"
    using assms unat_of_nat_less [of "6 * l", where 'a = 32] by simp
  define c where "c = (2::u64) ^ (n - 6 * m)"
  have uc: "unat c = 2 ^ (n - 6 * m)"
    unfolding c_def using assms by (simp add: unat_2_power)
  have um: "unat (mask (6 * l) :: u64) = 2 ^ (6 * l) - 1"
    using assms by (simp add: unat_mask)
  have "n - 6 * m + 6 * l = 6 + n" "n - 6 * m = 6 + (n - 6 * l)" using assms(2) Suc by arith+
  then have k: "(2::nat) ^ (n - 6 * m) * 2 ^ (6 * l) = 64 * 2 ^ n"
    and j: "(2::nat) ^ (n - 6 * m) = 64 * 2 ^ (n - 6 * l)"
    by (simp_all only: power_add [symmetric]) (simp_all only: power_add, simp_all)
  have e: "unat c * unat (mask (6 * l) :: u64) = 64 * 63 * lbase n l" 
    using lbase_geometric [of l n] assms(2) k j by (simp add: uc um diff_mult_distrib2)
  have "64 * 63 * lbase n l \<le> 64 * 2 ^ n" using lbase_geometric [of l n] assms(2) by linarith
  also have "\<dots> \<le> 64 * 2 ^ 30" using assms(1) by (intro mult_left_mono power_increasing) simp_all
  finally have "64 * 63 * lbase n l < 2 ^ 64" by simp
  then have "unat (c * mask (6 * l)) = 64 * 63 * lbase n l"
    using e unat_mult_lem [of c "mask (6 * l)"] by simp
  then have "unat (drop_bit 6 (c * mask (6 * l) div 63)) = lbase n l"
    by (simp add: unat_drop_bit unat_div)
  moreover have "n - 6 * m < 31" "6 * l < 31" using assms by arith+
  ultimately show ?thesis
    unfolding stree_lmap_off_def Let_def lm sh sh2 c_def
    by (simp only: scast_push_bit_1 scast_mask) simp
qed

section \<open>Levels and words\<close>

lemma unat_LOGWORD: "n \<le> 30 \<Longrightarrow> unat (LOGWORD (of_nat n)) = nlev n"
proof -
  assume "n \<le> 30"
  then have "unat (of_nat n + (6 - 1) :: u32) = n + 5"
    by (subst unat_add_less) (simp_all add: unat_of_nat_less)
  then show ?thesis by (simp add: LOGWORD_def nlev_def unat_div)
qed

lemma unat_LOGWORD_1:
  assumes "1 \<le> n" "n \<le> 30"
  shows "unat (LOGWORD (of_nat n) - 1) = nlev n - 1"
proof -
  have "1 \<le> nlev n" using assms by (simp add: nlev_def)
  then have "1 \<le> LOGWORD (of_nat n)" using assms by (simp add: word_le_nat_alt unat_LOGWORD)
  then show ?thesis using assms by (simp add: unat_diff_le unat_LOGWORD)
qed

lemma pow64: "(64::nat) ^ l = 2 ^ (6 * l)"
  by (simp add: power_mult)

lemma unat_lmap_bitoff:
  assumes "n \<le> 30" "6 * l < n" "unat a < 2 ^ n"
  shows "unat (lmap_bitoff (of_nat l) (ucast (a::u64))) = unat a div 64 ^ l"
proof -
  have "(6::u32) * of_nat l = of_nat (6 * l)" by simp
  then have sh: "unat ((6::u32) * of_nat l) = 6 * l"
    using assms unat_of_nat_less [of "6 * l", where 'a = 32] by simp
  have "(2::nat) ^ n < 2 ^ 32" using assms(1) by (intro power_strict_increasing) simp_all
  with assms(3) have "unat a < 2 ^ 32" by simp
  then have "unat (ucast (ucast a :: u32) :: u64) = unat a"
    by (simp add: unsigned_ucast_eq unsigned_take_bit_eq take_bit_nat_eq_self)
  then show ?thesis by (simp add: lmap_bitoff_def sh unat_drop_bit pow64)
qed

lemma index_in_level:
  assumes "6 * l < n" "a < 2 ^ n"
  shows "a div 64 ^ Suc l < nwords n l"
proof (cases "6 * Suc l \<le> n")
  case True
  have "2 ^ (n - 6 * Suc l) * 64 ^ Suc l = (2::nat) ^ n"
    using True by (simp only: pow64 power_add [symmetric]) simp
  then show ?thesis using assms(2) by (simp only: nwords_def less_mult_imp_div_less)
next
  case False
  then have "(2::nat) ^ n \<le> 64 ^ Suc l" unfolding pow64 by (intro power_increasing) simp_all
  with assms(2) False show ?thesis by (simp add: nwords_def)
qed

lemma length_upd [simp]: "length (upd n s l i w) = length s"
  by (simp add: upd_def)

lemma stree_dim_upd [simp]: "stree_dim n (upd n s l i w) = stree_dim n s"
  by (simp add: stree_dim_def)

lemma level_disjoint:
  assumes "i < nwords n l" "j < nwords n m" "l < m"
  shows "lbase n l + i < lbase n m + j"
proof -
  have "lbase n l + i < lbase n (Suc l)" using assms(1) by (simp add: lbase_Suc)
  also have "\<dots> \<le> lbase n m" using assms(3) by (intro lbase_mono) simp
  finally show ?thesis by simp
qed

lemma word_index_inj:
  assumes "i < nwords n l" "j < nwords n m"
  shows "lbase n l + i = lbase n m + j \<longleftrightarrow> l = m \<and> i = j"
  using level_disjoint [OF assms] level_disjoint [OF assms(2,1)]
  by (cases l m rule: linorder_cases) auto

lemma lv_upd:
  assumes "stree_dim n s" "6 * l < n" "i < nwords n l" "j < nwords n m"
  shows "lv n (upd n s l i w) m j = (if l = m \<and> i = j then w else lv n s m j)"
  using level_in_bounds [OF assms(2,3)] assms word_index_inj [OF assms(3,4)]
  by (auto simp: lv_def upd_def stree_dim_def nth_list_update)

lemma unat_lmap_word:
  assumes "stree_dim n s" "6 * l < n" "unat a < 2 ^ n"
  shows "unat (stree_lmap (of_nat n) (of_nat l) + drop_bit 6 (lmap_bitoff (of_nat l) (ucast (a::u64))))
    = lbase n l + unat a div 64 ^ Suc l"
    and "lbase n l + unat a div 64 ^ Suc l < length s"
proof -
  have n: "n \<le> 30" using assms(1) by (simp add: stree_dim_def)
  let ?k = "lbase n l + unat a div 64 ^ Suc l"
  have b: "?k < STREE_SIZE n" using assms(2,3) by (intro level_in_bounds index_in_level)
  then show "?k < length s" using assms(1) by (simp add: stree_dim_def)
  have "STREE_SIZE n \<le> 2 ^ n + 61"
    by (simp add: STREE_SIZE_def CEIL_DIV_def div_le_mono order_trans [OF div_le_dividend])
  moreover have "(2::nat) ^ n \<le> 2 ^ 30" using n by (intro power_increasing) simp_all
  ultimately have "?k < 2 ^ 64" using b by simp
  moreover have "unat (drop_bit 6 (lmap_bitoff (of_nat l) (ucast a))) = unat a div 64 ^ Suc l"
    using n assms(2,3) by (simp only: unat_drop_bit unat_lmap_bitoff) (simp add: div_mult2_eq [symmetric] mult.commute)
  ultimately show "unat (stree_lmap (of_nat n) (of_nat l) + drop_bit 6 (lmap_bitoff (of_nat l) (ucast a))) = ?k"
    using n assms(2) by (subst unat_add_less) (simp_all add: stree_lmap_def stree_lmap_off_eq)
qed

lemma unat_lmap_bit:
  assumes "stree_dim n s" "6 * l < n" "unat a < 2 ^ n"
  shows "unat (lmap_bitoff (of_nat l) (ucast (a::u64)) AND 0x3f) = unat a div 64 ^ l mod 64"
  using unat_lmap_bitoff [of n l a] assms by (simp add: and_63_eq unat_and_mask stree_dim_def)

lemma set_bit_at_eq:
  assumes "stree_dim n s" "6 * l < n" "unat a < 2 ^ n"
  defines "w \<equiv> lv n s l (unat a div 64 ^ Suc l)"
  shows "set_bit_at s (stree_lmap (of_nat n) (of_nat l)) (lmap_bitoff (of_nat l) (ucast (a::u64))) =
    Some (w \<noteq> 0, upd n s l (unat a div 64 ^ Suc l) (w OR push_bit (unat a div 64 ^ l mod 64) 1))"
  using unat_lmap_word [OF assms(1-3)] unat_lmap_bit [OF assms(1-3)]
  by (simp add: set_bit_at_def OR_WORD_def GET_WORD_def SET_WORD_def w_def lv_def upd_def)

lemma clr_bit_at_eq:
  assumes "stree_dim n s" "6 * l < n" "unat a < 2 ^ n"
  defines "w \<equiv> lv n s l (unat a div 64 ^ Suc l) AND NOT (push_bit (unat a div 64 ^ l mod 64) 1)"
  shows "clr_bit_at s (stree_lmap (of_nat n) (of_nat l)) (lmap_bitoff (of_nat l) (ucast (a::u64))) =
    Some (w \<noteq> 0, upd n s l (unat a div 64 ^ Suc l) w)"
  using unat_lmap_word [OF assms(1-3)] unat_lmap_bit [OF assms(1-3)]
  by (simp add: clr_bit_at_def MASK_WORD_def GET_WORD_def SET_WORD_def w_def lv_def upd_def)

lemma stree_getbit_eq:
  assumes "stree_dim n s" "unat a < 2 ^ n"
  shows "stree_getbit s (of_nat n) a = Some (unat a \<in> stree_set n s)"
proof -
  have n: "6 * 0 < n" using assms(1) by (simp add: stree_dim_def)
  show ?thesis
    using unat_lmap_word [OF assms(1) n assms(2)] unat_lmap_bit [OF assms(1) n assms(2)] assms(2)
    by (simp add: stree_getbit_def get_bit_at_def GET_WORD_def stree_set_def lv_def
        and_exp_eq_0_iff_not_bit)
qed

section \<open>One step of an update\<close>

lemma links_but_0 [simp]: "links_but n s 0 k = links_ok n s"
  by (simp add: links_but_def links_ok_def)

lemma links_but_top: "links_but n s (nlev n) k = links_ok n s"
  unfolding links_but_def links_ok_def by (metis less_irrefl)

lemma parent_in_level:
  assumes "6 * Suc m < n" "i < nwords n m"
  shows "i div 64 < nwords n (Suc m)"
proof -
  have "i * 64 ^ Suc m < 2 ^ n"
  proof -
    have "i * 64 ^ Suc m < nwords n m * 64 ^ Suc m" using assms(2) by simp
    also have "\<dots> = 2 ^ n" unfolding nwords_def pow64 using assms(1) by (simp add: power_add [symmetric])
    finally show ?thesis .
  qed
  then have "(i * 64 ^ Suc m) div 64 ^ Suc (Suc m) < nwords n (Suc m)"
    using assms(1) by (intro index_in_level)
  moreover have "(i * 64 ^ Suc m) div 64 ^ Suc (Suc m) = i div 64"
    using div_mult_mult2 [of "64 ^ Suc m" i 64] by (simp add: mult.assoc [symmetric])
  ultimately show ?thesis by simp
qed

lemma index_split: "a div 64 ^ l div 64 = a div 64 ^ Suc l" for a :: nat
  by (simp add: div_mult2_eq [symmetric] mult.commute)

lemma word_exists_bit: "w \<noteq> 0 \<longleftrightarrow> (\<exists>j. bit w j)" for w :: u64
  by (metis bit_0_eq bit_word_eqI bot_apply bot_bool_def)

text \<open>Writing bit \<open>a div 64 ^ l\<close> of level \<open>l\<close> repairs the link to the word below it and leaves at
  most the link above broken, and not even that one when the word's being zero does not change.\<close>

lemma update_step:
  assumes dim: "stree_dim n s" and l: "6 * l < n" and a: "a < 2 ^ n"
    and but: "links_but n s l (a div 64 ^ l)"
    and below: "0 < l \<Longrightarrow> v \<longleftrightarrow> lv n s (l - 1) (a div 64 ^ l) \<noteq> 0"
    and w: "\<And>j. bit w j \<longleftrightarrow> (if j = a div 64 ^ l mod 64 then v else bit (lv n s l (a div 64 ^ Suc l)) j)"
  shows "links_but n (upd n s l (a div 64 ^ Suc l) w) (Suc l) (a div 64 ^ Suc l)"
    and "(w \<noteq> 0 \<longleftrightarrow> lv n s l (a div 64 ^ Suc l) \<noteq> 0) \<Longrightarrow> links_ok n (upd n s l (a div 64 ^ Suc l) w)"
proof -
  define i where "i = a div 64 ^ Suc l"
  define k where "k = a div 64 ^ l"
  let ?s = "upd n s l i w"
  have i: "i < nwords n l" unfolding i_def using l a by (rule index_in_level)
  have ki: "k div 64 = i" by (simp only: i_def k_def index_split)
  note but = but [folded k_def] and below = below [folded k_def] and w = w [folded i_def k_def]
  note lvu = lv_upd [OF dim l i]
  have link: "bit (lv n ?s (Suc m) (j div 64)) (j mod 64) \<longleftrightarrow> lv n ?s m j \<noteq> 0"
    if m: "Suc m < nlev n" "j < nwords n m"
      and ex: "\<not> (l = m \<and> i = j) \<or> (w \<noteq> 0 \<longleftrightarrow> lv n s l i \<noteq> 0)" for m j
  proof -
    have j': "j div 64 < nwords n (Suc m)" using m by (intro parent_in_level) simp_all
    show ?thesis
    proof (cases "l = Suc m")
      case True
      show ?thesis
      proof (cases "j = k")
        case True
        then show ?thesis
          using \<open>l = Suc m\<close> w below lvu [OF j'] lvu [OF m(2)] by (auto simp: ki)
      next
        case False
        then have "bit (lv n s (Suc m) (j div 64)) (j mod 64) \<longleftrightarrow> lv n s m j \<noteq> 0"
          using but m by (auto simp: links_but_def)
        moreover have "\<not> (i = j div 64 \<and> j mod 64 = k mod 64)"
          using False by (metis ki div_mult_mod_eq)
        ultimately show ?thesis
          using \<open>l = Suc m\<close> w lvu [OF j'] lvu [OF m(2)] by auto
      qed
    next
      case False
      then have "bit (lv n s (Suc m) (j div 64)) (j mod 64) \<longleftrightarrow> lv n s m j \<noteq> 0"
        using but m by (auto simp: links_but_def)
      then show ?thesis using False ex lvu [OF j'] lvu [OF m(2)] by auto
    qed
  qed
  show "links_but n (upd n s l (a div 64 ^ Suc l) w) (Suc l) (a div 64 ^ Suc l)"
    unfolding i_def [symmetric] unfolding links_but_def using link by auto
  show "links_ok n (upd n s l (a div 64 ^ Suc l) w)" if "w \<noteq> 0 \<longleftrightarrow> lv n s l (a div 64 ^ Suc l) \<noteq> 0"
    using that unfolding i_def [symmetric]
    unfolding links_ok_def using link that by auto
qed

lemma update_top:
  assumes dim: "stree_dim n s" and l: "6 * l < n" and a: "a < 2 ^ n" and top: "top_ok n s"
    and w: "\<And>j. bit w j \<Longrightarrow> j = a div 64 ^ l mod 64 \<or> bit (lv n s l (a div 64 ^ Suc l)) j"
  shows "top_ok n (upd n s l (a div 64 ^ Suc l) w)"
proof -
  let ?i = "a div 64 ^ Suc l" and ?t = "nlev n - 1"
  have i: "?i < nwords n l" using l a by (rule index_in_level)
  have t: "6 * ?t < n" "n \<le> 6 * ?t + 6" using dim unfolding stree_dim_def nlev_def by arith+
  have 0: "0 < nwords n ?t" by (simp add: nwords_def)
  have "a div 64 ^ l < 2 ^ (n - 6 * l)"
  proof -
    have "2 ^ (n - 6 * l) * 64 ^ l = (2::nat) ^ n"
      using l by (simp only: pow64 power_add [symmetric]) simp
    then show ?thesis using a by (simp only: less_mult_imp_div_less)
  qed
  then have small: "a div 64 ^ l mod 64 < 2 ^ (n - 6 * l)"
    by (rule le_less_trans [OF mod_less_eq_dividend])
  show ?thesis
  proof (cases "l = ?t \<and> ?i = 0")
    case True
    then show ?thesis
      unfolding top_ok_def using top w small lv_upd [OF dim l i 0, of w]
      by (simp add: top_ok_def) (metis not_less)
  next
    case False
    then show ?thesis using top lv_upd [OF dim l i 0, of w] by (auto simp: top_ok_def)
  qed
qed

lemma setbit_from_ok:
  assumes "stree_dim n s" "unat a < 2 ^ n" "l \<le> nlev n" "top_ok n s"
    and "links_but n s l (unat a div 64 ^ l)"
    and "0 < l \<Longrightarrow> lv n s (l - 1) (unat a div 64 ^ l) \<noteq> 0"
  shows "\<exists>s'. stree_setbit_from s (of_nat n) a l = Some s' \<and> length s' = length s \<and>
    links_ok n s' \<and> top_ok n s' \<and>
    (\<forall>i < nwords n 0. lv n s' 0 i = (if l = 0 \<and> i = unat a div 64
       then lv n s 0 i OR push_bit (unat a mod 64) 1 else lv n s 0 i))"
  using assms
proof (induction "nlev n - l" arbitrary: s l)
  case 0
  then have "l = nlev n" by simp
  moreover have "1 \<le> nlev n" using \<open>stree_dim n s\<close> unfolding stree_dim_def nlev_def by arith
  ultimately show ?case
    using 0 by (subst stree_setbit_from.simps)
      (auto simp: unat_LOGWORD_1 stree_dim_def links_but_top)
next
  case (Suc d)
  note dim = \<open>stree_dim n s\<close> and a = \<open>unat a < 2 ^ n\<close>
  have nl: "l < nlev n" and le: "l \<le> nlev n - 1" using Suc(2) by arith+
  then have l: "6 * l < n" by simp
  let ?k = "unat a div 64 ^ l" and ?i = "unat a div 64 ^ Suc l"
  let ?old = "lv n s l ?i"
  define w where "w = ?old OR push_bit (?k mod 64) 1"
  define s1 where "s1 = upd n s l ?i w"
  have bw: "bit w j \<longleftrightarrow> (if j = ?k mod 64 then True else bit ?old j)" for j
    using mod_less_divisor [of 64 ?k] by (auto simp: w_def bit_simps simp del: mod_less_divisor)
  have i: "?i < nwords n l" using l a by (rule index_in_level)
  have nz: "w \<noteq> 0" using bw [of "?k mod 64"] by auto
  note st = update_step [OF dim l a Suc.prems(5), of True w, OF _ bw, folded s1_def]
  have top: "top_ok n s1" unfolding s1_def
    using bw by (intro update_top [OF dim l a Suc.prems(4)]) metis
  have lv0: "lv n s1 0 i = (if l = 0 \<and> i = unat a div 64 then lv n s 0 i OR push_bit (unat a mod 64) 1
      else lv n s 0 i)" if "i < nwords n 0" for i
    using lv_upd [OF dim l i that, of w] by (auto simp: s1_def w_def)
  have run: "stree_setbit_from s (of_nat n) a l =
      (if ?old \<noteq> 0 then Some s1 else stree_setbit_from s1 (of_nat n) a (Suc l))"
    using le dim by (subst stree_setbit_from.simps)
      (simp add: set_bit_at_eq [OF dim l a] unat_LOGWORD_1 stree_dim_def s1_def w_def)
  show ?case
  proof (cases "?old = 0")
    case False
    with st(2) Suc.prems(6) nz have "links_ok n s1" by blast
    with False show ?thesis using run top lv0 by (auto simp: s1_def)
  next
    case True
    have "lv n s1 l ?i \<noteq> 0" using nz lv_upd [OF dim l i i, of w] by (simp add: s1_def)
    moreover have "links_but n s1 (Suc l) ?i" using st(1) Suc.prems(6) by blast
    moreover have "stree_dim n s1" "Suc l \<le> nlev n" "d = nlev n - Suc l"
      using dim Suc(2) unfolding s1_def by (simp, arith, arith)
    ultimately obtain s' where "stree_setbit_from s1 (of_nat n) a (Suc l) = Some s'"
      "length s' = length s1" "links_ok n s'" "top_ok n s'" "\<forall>i < nwords n 0. lv n s' 0 i = lv n s1 0 i"
      using Suc(1) [of "Suc l" s1] a top by auto
    with True show ?thesis using run lv0 by (auto simp: s1_def)
  qed
qed

lemma clrbit_from_ok:
  assumes "stree_dim n s" "unat a < 2 ^ n" "l \<le> nlev n" "top_ok n s"
    and "links_but n s l (unat a div 64 ^ l)"
    and "0 < l \<Longrightarrow> lv n s (l - 1) (unat a div 64 ^ l) = 0"
  shows "\<exists>s'. stree_clrbit_from s (of_nat n) a l = Some s' \<and> length s' = length s \<and>
    links_ok n s' \<and> top_ok n s' \<and>
    (\<forall>i < nwords n 0. lv n s' 0 i = (if l = 0 \<and> i = unat a div 64
       then lv n s 0 i AND NOT (push_bit (unat a mod 64) 1) else lv n s 0 i))"
  using assms
proof (induction "nlev n - l" arbitrary: s l)
  case 0
  then have "l = nlev n" by simp
  moreover have "1 \<le> nlev n" using \<open>stree_dim n s\<close> unfolding stree_dim_def nlev_def by arith
  ultimately show ?case
    using 0 by (subst stree_clrbit_from.simps)
      (auto simp: unat_LOGWORD_1 stree_dim_def links_but_top)
next
  case (Suc d)
  note dim = \<open>stree_dim n s\<close> and a = \<open>unat a < 2 ^ n\<close>
  have nl: "l < nlev n" and le: "l \<le> nlev n - 1" using Suc(2) by arith+
  then have l: "6 * l < n" by simp
  let ?k = "unat a div 64 ^ l" and ?i = "unat a div 64 ^ Suc l"
  let ?old = "lv n s l ?i"
  define w where "w = ?old AND NOT (push_bit (?k mod 64) 1)"
  define s1 where "s1 = upd n s l ?i w"
  have bw: "bit w j \<longleftrightarrow> (if j = ?k mod 64 then False else bit ?old j)" for j
    using bit_imp_le_length [of ?old j] by (auto simp: w_def bit_simps)
  have i: "?i < nwords n l" using l a by (rule index_in_level)
  have nz: "w \<noteq> 0 \<Longrightarrow> ?old \<noteq> 0" by (auto simp: w_def)
  note st = update_step [OF dim l a Suc.prems(5), of False w, OF _ bw, folded s1_def]
  have top: "top_ok n s1" unfolding s1_def
    using bw by (intro update_top [OF dim l a Suc.prems(4)]) metis
  have lv0: "lv n s1 0 i = (if l = 0 \<and> i = unat a div 64
      then lv n s 0 i AND NOT (push_bit (unat a mod 64) 1) else lv n s 0 i)" if "i < nwords n 0" for i
    using lv_upd [OF dim l i that, of w] by (auto simp: s1_def w_def)
  have run: "stree_clrbit_from s (of_nat n) a l =
      (if w \<noteq> 0 then Some s1 else stree_clrbit_from s1 (of_nat n) a (Suc l))"
    using le dim by (subst stree_clrbit_from.simps)
      (simp add: clr_bit_at_eq [OF dim l a] unat_LOGWORD_1 stree_dim_def s1_def w_def)
  show ?case
  proof (cases "w = 0")
    case False
    with st(2) Suc.prems(6) nz have "links_ok n s1" by blast
    with False show ?thesis using run top lv0 by (auto simp: s1_def)
  next
    case True
    have "lv n s1 l ?i = 0" using True lv_upd [OF dim l i i, of w] by (simp add: s1_def)
    moreover have "links_but n s1 (Suc l) ?i" using st(1) Suc.prems(6) by blast
    moreover have "stree_dim n s1" "Suc l \<le> nlev n" "d = nlev n - Suc l"
      using dim Suc(2) unfolding s1_def by (simp, arith, arith)
    ultimately obtain s' where "stree_clrbit_from s1 (of_nat n) a (Suc l) = Some s'"
      "length s' = length s1" "links_ok n s'" "top_ok n s'" "\<forall>i < nwords n 0. lv n s' 0 i = lv n s1 0 i"
      using Suc(1) [of "Suc l" s1] a top by auto
    with True show ?thesis using run lv0 by (auto simp: s1_def)
  qed
qed

lemma stree_set_eqI:
  assumes "stree_dim n s" "unat a < 2 ^ n" "\<forall>i < nwords n 0. lv n s' 0 i = (if i = unat a div 64 then w else lv n s 0 i)"
  shows "b < 2 ^ n \<Longrightarrow> b \<in> stree_set n s' \<longleftrightarrow> (if b div 64 = unat a div 64 then bit w (b mod 64) else b \<in> stree_set n s)"
  using index_in_level [of 0 n b] assms by (auto simp: stree_set_def stree_dim_def)

lemma div_mod_64_eq: "(b::nat) div 64 = a div 64 \<Longrightarrow> b mod 64 = a mod 64 \<longleftrightarrow> b = a"
  by (metis div_mult_mod_eq)

lemma setbit_ok:
  assumes ok: "stree_ok n s" and a: "unat a < 2 ^ n"
  shows "\<exists>s'. stree_setbit s (of_nat n) a = Some s' \<and> stree_ok n s' \<and> length s' = length s \<and>
    stree_set n s' = insert (unat a) (stree_set n s)"
proof -
  obtain s' where s': "stree_setbit s (of_nat n) a = Some s'" "length s' = length s"
    "links_ok n s'" "top_ok n s'"
    "\<forall>i < nwords n 0. lv n s' 0 i = (if i = unat a div 64
       then lv n s 0 (unat a div 64) OR push_bit (unat a mod 64) 1 else lv n s 0 i)"
    using setbit_from_ok [of n s a 0] assms by (auto simp: stree_ok_def stree_setbit_def)
  have "b \<in> stree_set n s' \<longleftrightarrow> b \<in> insert (unat a) (stree_set n s)" if "b < 2 ^ n" for b
    using stree_set_eqI [OF _ a s'(5) that] ok that div_mod_64_eq [of b "unat a"]
    by (auto simp: stree_ok_def bit_simps stree_set_def)
  then have "stree_set n s' = insert (unat a) (stree_set n s)"
    using a by (auto simp: stree_set_def)
  then show ?thesis using s' ok by (auto simp: stree_ok_def stree_dim_def)
qed

lemma clrbit_ok:
  assumes ok: "stree_ok n s" and a: "unat a < 2 ^ n"
  shows "\<exists>s'. stree_clrbit s (of_nat n) a = Some s' \<and> stree_ok n s' \<and> length s' = length s \<and>
    stree_set n s' = stree_set n s - {unat a}"
proof -
  obtain s' where s': "stree_clrbit s (of_nat n) a = Some s'" "length s' = length s"
    "links_ok n s'" "top_ok n s'"
    "\<forall>i < nwords n 0. lv n s' 0 i = (if i = unat a div 64
       then lv n s 0 (unat a div 64) AND NOT (push_bit (unat a mod 64) 1) else lv n s 0 i)"
    using clrbit_from_ok [of n s a 0] assms by (auto simp: stree_ok_def stree_clrbit_def)
  have "b \<in> stree_set n s' \<longleftrightarrow> b \<in> stree_set n s - {unat a}" if "b < 2 ^ n" for b
    using stree_set_eqI [OF _ a s'(5) that] ok that div_mod_64_eq [of b "unat a"]
    by (auto simp: stree_ok_def bit_simps stree_set_def)
  then have "stree_set n s' = stree_set n s - {unat a}"
    by (auto simp: stree_set_def)
  then show ?thesis using s' ok by (auto simp: stree_ok_def stree_dim_def)
qed

section \<open>Search\<close>

text \<open>A bit set in the bitmap is announced at every level.\<close>

lemma stree_set_announced:
  assumes ok: "stree_ok n s" and a: "a \<in> stree_set n s" and l: "6 * l < n"
  shows "bit (lv n s l (a div 64 ^ Suc l)) (a div 64 ^ l mod 64)"
  using l
proof (induction l)
  case 0
  then show ?case using a by (simp add: stree_set_def)
next
  case (Suc l)
  then have "lv n s l (a div 64 ^ Suc l) \<noteq> 0" by auto
  moreover have "a div 64 ^ Suc l < nwords n l"
    using Suc.prems a by (intro index_in_level) (auto simp: stree_set_def)
  ultimately show ?case
    using ok Suc.prems unfolding stree_ok_def links_ok_def by (metis index_split less_nlev_iff)
qed

lemma stree_set_nonempty_top:
  assumes ok: "stree_ok n s"
  shows "lv n s (nlev n - 1) 0 = 0 \<Longrightarrow> stree_set n s = {}"
proof (rule ccontr)
  assume z: "lv n s (nlev n - 1) 0 = 0" and "stree_set n s \<noteq> {}"
  then obtain a where a: "a \<in> stree_set n s" by auto
  let ?t = "nlev n - 1"
  have t: "6 * ?t < n" "n \<le> 6 * Suc ?t" using ok unfolding stree_ok_def stree_dim_def nlev_def by arith+
  have "(2::nat) ^ n \<le> 64 ^ Suc ?t" unfolding pow64 using t by (intro power_increasing) simp_all
  then have "a div 64 ^ Suc ?t = 0" using a by (auto simp: stree_set_def simp del: power_Suc)
  then show False using stree_set_announced [OF ok a t(1)] z by simp
qed

text \<open>The state of the search before it looks at level \<open>l - 1\<close>: the address found so far is the
  path to a word with a bit set and no set bit lies before it (after it, searching from the top).\<close>

lemma pick_props:
  assumes "w \<noteq> 0"
  shows "pick low w < 64" "bit w (pick low w)" "bit w j \<Longrightarrow> ahead low (pick low w) j"
  using ctz_props [OF assms] msb_index_props [OF assms]
  by (auto simp: pick_def ahead_def msb_index_def not_less [symmetric])

lemma ahead_step:
  assumes "ahead low i (b div 64)" "b div 64 = i \<Longrightarrow> ahead low p (b mod 64)" "p < 64"
  shows "ahead low (i * 64 + p) b"
proof (cases "b div 64 = i")
  case True
  then show ?thesis using assms div_mult_mod_eq [of b 64] by (auto simp: ahead_def split: if_splits)
next
  case False
  then show ?thesis using assms by (auto simp: ahead_def split: if_splits)
qed

lemma search_word:
  assumes ok: "stree_ok n s" and l: "6 * l < n" and inv: "search_inv n s low (Suc l) A"
  shows "lv n s l (A div 64 ^ Suc l) \<noteq> 0 \<or> l = nlev n - 1 \<and> stree_set n s = {}"
proof (cases "Suc l < nlev n")
  case True
  have "A div 64 ^ Suc l < nwords n l"
    using l inv by (intro index_in_level) (auto simp: search_inv_def)
  moreover have "bit (lv n s (Suc l) (A div 64 ^ Suc l div 64)) (A div 64 ^ Suc l mod 64)"
    unfolding index_split using inv True unfolding search_inv_def by meson
  ultimately have "lv n s l (A div 64 ^ Suc l) \<noteq> 0"
    using ok True unfolding stree_ok_def links_ok_def by blast
  then show ?thesis ..
next
  case False
  moreover have "l < nlev n" using l by simp
  ultimately have "l = nlev n - 1" by arith
  moreover have "A = 0" using False inv by (simp only: search_inv_def if_False)
  ultimately show ?thesis using stree_set_nonempty_top [OF ok] by auto
qed

lemma search_step:
  assumes ok: "stree_ok n s" and l: "6 * l < n" and inv: "search_inv n s low (Suc l) A"
    and w: "w = lv n s l (A div 64 ^ Suc l)" "w \<noteq> 0"
  shows "search_inv n s low l (A + pick low w * 64 ^ l)"
    and "pick low w * 64 ^ l < 2 ^ n"
proof -
  define i where "i = A div 64 ^ Suc l"
  define p where "p = pick low w"
  define k where "k = i * 64 + p"
  have A: "A = i * 64 ^ Suc l" "A < 2 ^ n"
    using inv unfolding search_inv_def i_def by (metis dvd_div_mult_self, metis)
  have wi: "w = lv n s l i" by (simp only: w(1) i_def)
  have p: "p < 64" "bit w p" "\<And>j. bit w j \<Longrightarrow> ahead low p j"
    using pick_props [OF w(2)] by (auto simp: p_def)
  have i: "i < nwords n l" unfolding i_def using l A(2) by (rule index_in_level)
  have A': "A + p * 64 ^ l = k * 64 ^ l" by (simp only: k_def A(1) power_Suc distrib_right mult.assoc)
  have pow: "2 ^ (n - 6 * l) * 64 ^ l = (2::nat) ^ n"
    using l by (simp only: pow64 power_add [symmetric]) simp
  have kb: "k < 2 ^ (n - 6 * l)"
  proof (cases "6 * Suc l \<le> n")
    case True
    then have "n - 6 * l = 6 + (n - 6 * Suc l)" by simp
    then have "(2::nat) ^ (n - 6 * l) = 2 ^ 6 * 2 ^ (n - 6 * Suc l)" by (simp only: power_add)
    then have "2 ^ (n - 6 * l) = nwords n l * 64" by (simp only: nwords_def) simp
    moreover have "k < nwords n l * 64" unfolding k_def using i p(1) by linarith
    ultimately show ?thesis by (simp only:)
  next
    case False
    then have "i = 0" using i by (simp add: nwords_def)
    have "l < nlev n" "\<not> Suc l < nlev n" using False l by simp_all
    then have "l = nlev n - 1" by linarith
    then have "\<not> 2 ^ (n - 6 * l) \<le> p"
      using ok p(1,2) wi \<open>i = 0\<close> unfolding stree_ok_def top_ok_def by metis
    then show ?thesis by (simp add: k_def \<open>i = 0\<close>)
  qed
  have "k * 64 ^ l < 2 ^ (n - 6 * l) * 64 ^ l" using kb by (intro mult_strict_right_mono) simp_all
  then have lt: "k * 64 ^ l < 2 ^ n" by (simp only: pow)
  then show "pick low w * 64 ^ l < 2 ^ n" unfolding p_def [symmetric] using A' by linarith
  have "ahead low k (a div 64 ^ l)" if a: "a \<in> stree_set n s" for a
  proof -
    have "ahead low i (a div 64 ^ l div 64)"
      using inv a unfolding index_split i_def search_inv_def by blast
    moreover have "bit (lv n s l (a div 64 ^ l div 64)) (a div 64 ^ l mod 64)"
      using stree_set_announced [OF ok a l] by (simp only: index_split)
    ultimately show ?thesis unfolding k_def using p wi by (intro ahead_step) auto
  qed
  moreover have "k div 64 = i" "k mod 64 = p" using p(1) by (simp_all add: k_def)
  moreover have "k * 64 ^ l div 64 ^ Suc l = k div 64" by (simp add: index_split [symmetric] del: power_Suc)
  ultimately show "search_inv n s low l (A + pick low w * 64 ^ l)"
    unfolding p_def [symmetric] A' search_inv_def using lt l p(2) wi
    by (simp del: power_Suc)
qed

lemma unat_search_or:
  assumes "n \<le> 30" "6 * l < n" "64 ^ Suc l dvd unat (laddr::u64)" "p < 64" "p * 64 ^ l < 2 ^ n" "unat laddr < 2 ^ n"
  shows "unat (laddr OR ucast (push_bit (l * 6) (of_nat p :: u32))) = unat laddr + p * 64 ^ l"
proof -
  have n30: "(2::nat) ^ n \<le> 2 ^ 30" using assms(1) by (intro power_increasing) simp_all
  let ?y = "push_bit (l * 6) (of_nat p :: u32)"
  have "unat (of_nat p :: u32) = p" using assms(4) by (simp add: unat_of_nat_less)
  moreover have "p * 2 ^ (l * 6) < 2 ^ 32" using assms(5) n30 by (simp add: pow64 mult.commute [of l])
  ultimately have "unat ?y = p * 64 ^ l"
    using unat_push_bit_less [of "of_nat p :: u32" "l * 6"] by (simp add: pow64 mult.commute [of l])
  then have y: "unat (ucast ?y :: u64) = p * 64 ^ l"
    using n30 assms(5) by (simp add: unsigned_ucast_eq take_bit_nat_eq_self)
  have "\<not> bit laddr j \<or> \<not> bit (ucast ?y :: u64) j" for j
  proof (cases "j < 6 * Suc l")
    case True
    have "even (unat laddr div 2 ^ j)"
    proof -
      obtain q where "unat laddr = 64 ^ Suc l * q" using assms(3) by (elim dvdE)
      also have "\<dots> = 2 ^ j * (2 ^ (6 * Suc l - j) * q)"
        unfolding pow64 using True by (simp only: mult.assoc [symmetric] power_add [symmetric]) simp
      finally show ?thesis using True by (simp del: power_Suc)
    qed
    then have "\<not> bit (unat laddr) j" by (simp add: bit_iff_odd)
    then have "\<not> bit laddr j" by (simp add: bit_unat_iff) 
    then show ?thesis ..
  next
    case False
    have "p * 64 ^ l < 64 ^ Suc l" using assms(4) by simp
    also have "\<dots> \<le> 2 ^ j" unfolding pow64 using False by (intro power_increasing) simp_all
    finally have "\<not> bit (unat (ucast ?y :: u64)) j" by (simp only: y bit_iff_odd) simp
    then have "\<not> bit (ucast ?y :: u64) j" by (simp add: bit_unat_iff)
    then show ?thesis ..
  qed
  then have "laddr OR ucast ?y = laddr + ucast ?y" by (simp only: disjunctive_add)
  moreover have "unat (laddr + ucast ?y) = unat laddr + unat (ucast ?y :: u64)"
    using assms(5,6) n30 by (intro unat_add_less) (simp add: y)
  ultimately show ?thesis by (simp only: y)
qed

lemma bitsearch_down_ok:
  assumes ok: "stree_ok n s" and "l \<le> nlev n" "search_inv n s low l (unat laddr)"
  shows "\<exists>r. stree_bitsearch_down l s (of_nat n) low laddr = Some r \<and>
    (r = - 1 \<and> stree_set n s = {} \<or>
     0 \<le> r \<and> nat r \<in> stree_set n s \<and> (\<forall>a\<in>stree_set n s. ahead low (nat r) a))"
  using assms(2-)
proof (induction l arbitrary: laddr)
  case 0
  have n: "1 \<le> n" "n \<le> 30" using ok by (simp_all add: stree_ok_def stree_dim_def)
  have lt: "unat laddr < 2 ^ n" using "0.prems" by (simp add: search_inv_def)
  moreover have "(2::nat) ^ n \<le> 2 ^ 30" using n by (intro power_increasing) simp_all
  ultimately have "stree_bitsearch_down 0 s (of_nat n) low laddr = Some (int (unat laddr))"
    by (simp only: stree_bitsearch_down.simps) (intro arg_cong [of _ _ Some] sint_eq_unat, simp)
  moreover have "0 < nlev n" using n less_nlev_iff [of 0 n] by simp
  then have "unat laddr \<in> stree_set n s" "\<forall>a\<in>stree_set n s. ahead low (unat laddr) a"
    using "0.prems"(2) lt by (simp_all add: search_inv_def stree_set_def)
  ultimately show ?case by (metis nat_int of_nat_0_le_iff)
next
  case (Suc l)
  have dim: "stree_dim n s" and n: "1 \<le> n" "n \<le> 30" using ok by (simp_all add: stree_ok_def stree_dim_def)
  have l: "6 * l < n" using Suc.prems(1) less_nlev_iff [of l n] by linarith
  have lt: "unat laddr < 2 ^ n" and dvd: "64 ^ Suc l dvd unat laddr"
    using Suc.prems(2) unfolding search_inv_def by meson+
  let ?w = "lv n s l (unat laddr div 64 ^ Suc l)"
  have get: "GET_WORD s (stree_lmap (of_nat n) (of_nat l) +
      drop_bit 6 (lmap_bitoff (of_nat l) (ucast laddr))) = Some ?w"
    using unat_lmap_word [OF dim l lt] by (simp add: GET_WORD_def lv_def)
  show ?case
  proof (cases "?w = 0")
    case True
    then have "l = nlev n - 1" "stree_set n s = {}"
      using search_word [OF ok l Suc.prems(2)] by simp_all
    moreover have "stree_bitsearch_down (Suc l) s (of_nat n) low laddr =
        (if l = nlev n - 1 then Some (- 1) else None)"
      using n True get by (simp add: unat_LOGWORD_1)
    ultimately show ?thesis by simp
  next
    case False
    define p where "p = pick low ?w"
    define laddr' where "laddr' = laddr OR ucast (push_bit (l * 6) (of_nat p :: u32))"
    note st = search_step [OF ok l Suc.prems(2) refl False, folded p_def]
    have p: "p < 64" using pick_props(1) [OF False] by (simp add: p_def)
    have "unat laddr' = unat laddr + p * 64 ^ l"
      unfolding laddr'_def using n(2) l dvd p st(2) lt by (rule unat_search_or)
    then have "search_inv n s low l (unat laddr')" using st(1) by simp
    moreover have "stree_bitsearch_down (Suc l) s (of_nat n) low laddr =
        stree_bitsearch_down l s (of_nat n) low laddr'"
      using False get by (simp add: laddr'_def p_def pick_def)
    ultimately show ?thesis using Suc.IH [of laddr'] Suc.prems(1) by (metis Suc_leD)
  qed
qed
lemma bitsearch_ok:
  assumes ok: "stree_ok n s"
  shows "stree_bitsearch s (of_nat n) low = Some (if stree_set n s = {} then - 1
    else int (if low then Min (stree_set n s) else Max (stree_set n s)))"
proof -
  let ?S = "stree_set n s"
  have n: "n \<le> 30" using ok by (simp add: stree_ok_def stree_dim_def)
  have fin: "finite ?S" by (simp add: stree_set_def)
  have "a div 64 ^ nlev n = 0" if "a \<in> ?S" for a
  proof -
    have "\<not> 6 * nlev n < n" by (simp flip: less_nlev_iff)
    then have "(2::nat) ^ n \<le> 64 ^ nlev n" unfolding pow64 by (intro power_increasing) simp_all
    then show ?thesis using that by (simp add: stree_set_def)
  qed
  then have "search_inv n s low (nlev n) (unat (0::u64))"
    by (simp add: search_inv_def ahead_def del: less_nlev_iff)
  then obtain r where r: "stree_bitsearch s (of_nat n) low = Some r"
    "r = - 1 \<and> ?S = {} \<or> 0 \<le> r \<and> nat r \<in> ?S \<and> (\<forall>a\<in>?S. ahead low (nat r) a)"
    using bitsearch_down_ok [OF ok order_refl, of low 0] n by (auto simp: stree_bitsearch_def unat_LOGWORD)
  have "r = int (if low then Min ?S else Max ?S)" if "?S \<noteq> {}"
  proof -
    have m: "0 \<le> r" "nat r \<in> ?S" "\<forall>a\<in>?S. ahead low (nat r) a" using r(2) that by auto
    have "nat r = (if low then Min ?S else Max ?S)"
      using m(2,3) fin by (auto simp: ahead_def intro!: Min_eqI [symmetric] Max_eqI [symmetric])
    with m(1) show ?thesis by simp
  qed
  with r show ?thesis by auto
qed

section \<open>Filling and counting\<close>

lemma memset_ones_nth:
  assumes "unat p + unat z \<le> length s"
  shows "\<exists>s'. memset_ones s p z = Some s' \<and> length s' = length s \<and>
    (\<forall>x < length s. s' ! x = (if unat p \<le> x \<and> x < unat p + unat z then - 1 else s ! x))"
  using assms by (auto simp: memset_ones_def nth_append)

lemma bit_low_ones:
  assumes "b < 64" "unat (w::u64) = b"
  shows "bit (if w = 64 - 1 then - 1 else push_bit (unat (w + 1)) 1 - 1 :: u64) j \<longleftrightarrow> j \<le> b \<and> j < 64"
proof (cases "b = 63")
  case True
  then have "w = 63" using assms(2) by (simp add: word_unat_eq_iff)
  then show ?thesis using True by (auto simp: bit_simps)
next
  case False
  then have "w \<noteq> 63" using assms(2) by auto
  have "unat (w + 1) = Suc b" using assms by (subst unat_add_less) simp_all
  then have "push_bit (unat (w + 1)) 1 - 1 = (mask (Suc b) :: u64)"
    by (simp add: mask_eq_decr_exp)
  then show ?thesis using \<open>w \<noteq> 63\<close> assms(1) by (auto simp: bit_simps less_Suc_eq_le)
qed

lemma setall_step:
  assumes dim: "stree_dim n s" and l: "6 * l < n" and a: "unat (a::u64) < 2 ^ n" and z: "level_zero n s l"
  obtains s' where "stree_setall_down (Suc l) s (of_nat n) a = stree_setall_down l s' (of_nat n) a"
    "length s' = length s" "level_full n s' (unat a) l"
    "\<And>m i. m \<noteq> l \<Longrightarrow> 6 * m < n \<Longrightarrow> i < nwords n m \<Longrightarrow> lv n s' m i = lv n s m i"
proof -
  define k where "k = unat a div 64 ^ l"
  define q where "q = unat a div 64 ^ Suc l"
  let ?lmap = "stree_lmap (of_nat n) (of_nat l)" and ?size = "drop_bit 6 (lmap_bitoff (of_nat l) (ucast a))"
  let ?bits = "lmap_bitoff (of_nat l) (ucast a) AND 0x3f"
  define w where "w = (if ?bits = 64 - 1 then - 1 else push_bit (unat (?bits + 1)) 1 - 1 :: u64)"
  have n: "n \<le> 30" using dim by (simp add: stree_dim_def)
  have kq: "k div 64 = q" by (simp only: k_def q_def index_split)
  have q: "q < nwords n l" unfolding q_def using l a by (rule index_in_level)
  have lm: "unat ?lmap = lbase n l" using n l by (simp add: stree_lmap_def stree_lmap_off_eq)
  have sz: "unat ?size = q"
    using n l a by (simp only: unat_drop_bit unat_lmap_bitoff q_def) (simp add: index_split del: power_Suc)
  have pos: "unat (?lmap + ?size) = lbase n l + q" "lbase n l + q < length s"
    using unat_lmap_word [OF dim l a] by (simp_all only: q_def)
  have w: "bit w j \<longleftrightarrow> j \<le> k mod 64 \<and> j < 64" for j
    unfolding w_def using unat_lmap_bit [OF dim l a] by (intro bit_low_ones) (simp_all add: k_def)
  obtain s1 where s1: "memset_ones s ?lmap ?size = Some s1" "length s1 = length s"
    "\<forall>x < length s. s1 ! x = (if lbase n l \<le> x \<and> x < lbase n l + q then - 1 else s ! x)"
    using memset_ones_nth [of ?lmap ?size s] pos(2) by (auto simp: lm sz)
  define s' where "s' = s1[lbase n l + q := w]"
  have nth: "s' ! x = (if x = lbase n l + q then w else if lbase n l \<le> x \<and> x < lbase n l + q then - 1 else s ! x)"
    if "x < length s" for x
    using s1 that by (simp add: s'_def nth_list_update)
  have bound: "lbase n m + i < length s" if "6 * m < n" "i < nwords n m" for m i
    using level_in_bounds [OF that] dim by (simp add: stree_dim_def)
  show thesis
  proof
    show "stree_setall_down (Suc l) s (of_nat n) a = stree_setall_down l s' (of_nat n) a"
      using s1 pos by (simp add: SET_WORD_def s'_def w_def)
    show "length s' = length s" using s1 by (simp add: s'_def)
    have "bit (lv n s' l i) j \<longleftrightarrow> i * 64 + j \<le> k" if i: "i < nwords n l" "j < 64" for i j
    proof -
      have "lv n s' l i = (if i = q then w else if i < q then - 1 else 0)"
        using nth [OF bound [OF l i(1)]] z i(1) by (auto simp: lv_def level_zero_def)
      moreover have "k = q * 64 + k mod 64" using kq by (metis div_mult_mod_eq)
      ultimately show ?thesis
        using w [of j] i(2) mod_less_divisor [of 64 k] by (cases i q rule: linorder_cases) auto
    qed
    then show "level_full n s' (unat a) l" by (simp add: level_full_def k_def)
    fix m i assume m: "m \<noteq> l" "6 * m < n" "i < nwords n m"
    then have "\<not> (lbase n l \<le> lbase n m + i \<and> lbase n m + i \<le> lbase n l + q)"
      using level_disjoint [OF m(3), of 0 l] level_disjoint [OF q m(3)] q
      by (cases m l rule: linorder_cases) auto
    then show "lv n s' m i = lv n s m i"
      using nth [OF bound [OF m(2,3)]] by (auto simp: lv_def)
  qed
qed

lemma setall_down_ok:
  assumes "stree_dim n s" "unat (a::u64) < 2 ^ n" "l \<le> nlev n"
    "\<And>m. m < l \<Longrightarrow> level_zero n s m" "\<And>m. l \<le> m \<Longrightarrow> m < nlev n \<Longrightarrow> level_full n s (unat a) m"
  shows "\<exists>s'. stree_setall_down l s (of_nat n) a = Some s' \<and> length s' = length s \<and>
    (\<forall>m < nlev n. level_full n s' (unat a) m)"
  using assms
proof (induction l arbitrary: s)
  case (Suc l)
  have l: "6 * l < n" using Suc.prems(3) less_nlev_iff [of l n] by linarith
  obtain s' where s': "stree_setall_down (Suc l) s (of_nat n) a = stree_setall_down l s' (of_nat n) a"
    "length s' = length s" "level_full n s' (unat a) l"
    "\<And>m i. m \<noteq> l \<Longrightarrow> 6 * m < n \<Longrightarrow> i < nwords n m \<Longrightarrow> lv n s' m i = lv n s m i"
    using setall_step [OF Suc.prems(1) l Suc.prems(2), of thesis] Suc.prems(4) [of l] by blast
  have "level_zero n s' m" if "m < l" for m
    using Suc.prems(4) [of m] s'(4) [of m] that l by (simp add: level_zero_def)
  moreover have "level_full n s' (unat a) m" if "l \<le> m" "m < nlev n" for m
    using Suc.prems(5) [of m] s'(3) s'(4) [of m] that by (cases "m = l") (simp_all add: level_full_def)
  moreover have "stree_dim n s'" "l \<le> nlev n" using Suc.prems(1,3) s'(2) by (simp_all add: stree_dim_def)
  ultimately have "\<exists>s''. stree_setall_down l s' (of_nat n) a = Some s'' \<and> length s'' = length s' \<and>
      (\<forall>m < nlev n. level_full n s'' (unat a) m)"
    using Suc.IH [of s'] Suc.prems(2) by blast
  then show ?case by (simp only: s'(1,2))
qed simp

lemma full_tree:
  assumes dim: "stree_dim n s" and a: "a < 2 ^ n" and full: "\<And>m. m < nlev n \<Longrightarrow> level_full n s a m"
  shows "stree_ok n s \<and> stree_set n s = {0..a}"
proof -
  have bit: "bit (lv n s l i) j \<longleftrightarrow> i * 64 + j \<le> a div 64 ^ l" if "6 * l < n" "i < nwords n l" "j < 64" for l i j
    using full [of l] that by (simp add: level_full_def)
  have "links_ok n s" unfolding links_ok_def
  proof (intro allI impI)
    fix l i assume l: "Suc l < nlev n" and i: "i < nwords n l"
    have i': "i div 64 < nwords n (Suc l)" using l i by (intro parent_in_level) simp_all
    have "bit (lv n s (Suc l) (i div 64)) (i mod 64) \<longleftrightarrow> i \<le> a div 64 ^ l div 64"
      unfolding index_split using bit [OF _ i', of "i mod 64"] l by simp
    also have "\<dots> \<longleftrightarrow> i * 64 \<le> a div 64 ^ l" by (simp add: less_eq_div_iff_mult_less_eq)
    also have "\<dots> \<longleftrightarrow> (\<exists>j < 64. bit (lv n s l i) j)"
      using bit [OF _ i] l by (auto intro!: exI [of _ 0])
    also have "\<dots> \<longleftrightarrow> lv n s l i \<noteq> 0"
      using word_exists_bit [of "lv n s l i"] bit_imp_le_length [of "lv n s l i"] by auto
    finally show "bit (lv n s (Suc l) (i div 64)) (i mod 64) \<longleftrightarrow> lv n s l i \<noteq> 0" .
  qed
  moreover have "top_ok n s"
  proof -
    let ?t = "nlev n - 1"
    have "0 < nlev n" using dim less_nlev_iff [of 0 n] by (simp add: stree_dim_def)
    then have "?t < nlev n" by linarith
    then have t: "6 * ?t < n" by (simp only: less_nlev_iff)
    have "2 ^ (n - 6 * ?t) * 64 ^ ?t = (2::nat) ^ n"
      using t by (simp only: pow64 power_add [symmetric]) simp
    then have "a div 64 ^ ?t < 2 ^ (n - 6 * ?t)" using a by (simp only: less_mult_imp_div_less)
    then show ?thesis using bit [OF t, of 0] by (simp add: top_ok_def nwords_def)
  qed
  moreover have "b \<in> stree_set n s \<longleftrightarrow> b \<le> a" for b
  proof (cases "b < 2 ^ n")
    case True
    have n: "6 * 0 < n" using dim by (simp add: stree_dim_def)
    have "b div 64 < nwords n 0" using index_in_level [OF n True] by simp
    then have "bit (lv n s 0 (b div 64)) (b mod 64) \<longleftrightarrow> b \<le> a"
      using bit [OF n, of "b div 64" "b mod 64"] by simp
    then show ?thesis using True by (simp add: stree_set_def)
  next
    case False
    then show ?thesis using a by (simp add: stree_set_def)
  qed
  then have "stree_set n s = {0..a}" by (simp add: set_eq_iff)
  ultimately show ?thesis using dim by (simp only: stree_ok_def)
qed

lemma setall_ok:
  assumes dim: "stree_dim n s" and z: "\<forall>w\<in>set (take (STREE_SIZE n) s). w = 0" and a: "unat a < 2 ^ n"
  shows "\<exists>s'. stree_setall s (of_nat n) a = Some s' \<and> length s' = length s \<and> stree_ok n s' \<and>
    stree_set n s' = {0..unat a}"
proof -
  have "lv n s m i = 0" if "6 * m < n" "i < nwords n m" for m i
  proof -
    have "lbase n m + i < STREE_SIZE n" using that by (rule level_in_bounds)
    moreover have "STREE_SIZE n \<le> length s" using dim by (simp add: stree_dim_def)
    ultimately have "s ! (lbase n m + i) \<in> set (take (STREE_SIZE n) s)"
      by (metis in_set_conv_nth length_take min.absorb2 nth_take)
    then show ?thesis using z by (simp add: lv_def)
  qed
  then have "\<exists>s'. stree_setall_down (nlev n) s (of_nat n) a = Some s' \<and> length s' = length s \<and>
    (\<forall>m < nlev n. level_full n s' (unat a) m)"
    using dim a by (intro setall_down_ok) (auto simp: level_zero_def)
  moreover have "unat (LOGWORD (of_nat n)) = nlev n" using dim by (simp add: stree_dim_def unat_LOGWORD)
  ultimately obtain s' where "stree_setall s (of_nat n) a = Some s'" "length s' = length s"
    "\<forall>m < nlev n. level_full n s' (unat a) m" by (auto simp: stree_setall_def)
  moreover from this have "stree_dim n s'" using dim by (simp add: stree_dim_def)
  ultimately show ?thesis using full_tree [of n s' "unat a"] a by blast
qed

lemma count_cond:
  assumes "1 \<le> n"
  shows "64 * i < 2 ^ n \<longleftrightarrow> i < nwords n 0"
proof (cases "6 \<le> n")
  case True
  then have "(2::nat) ^ n = 2 ^ 6 * 2 ^ (n - 6)" by (simp only: power_add [symmetric]) simp
  then have "(2::nat) ^ n = 64 * nwords n 0" by (simp add: nwords_def)
  then show ?thesis by simp
next
  case False
  then have "(2::nat) ^ n \<le> 2 ^ 6" by (intro power_increasing) simp_all
  with False show ?thesis by (auto simp: nwords_def)
qed

lemma stree_set_words:
  assumes ok: "stree_ok n s"
  shows "stree_set n s = (\<Union>i < nwords n 0. (\<lambda>j. i * 64 + j) ` {j. bit (lv n s 0 i) j})" (is "_ = ?U")
proof -
  have n: "6 * 0 < n" using ok by (simp add: stree_ok_def stree_dim_def)
  have "a \<in> ?U" if a: "a \<in> stree_set n s" for a
  proof -
    have "a = a div 64 * 64 + a mod 64" by simp
    moreover have "a div 64 < nwords n 0"
      using index_in_level [OF n, of a] a by (simp add: stree_set_def)
    ultimately show ?thesis using a by (auto simp: stree_set_def intro!: bexI [of _ "a div 64"] image_eqI)
  qed
  moreover have "i * 64 + j \<in> stree_set n s" if i: "i < nwords n 0" and j: "bit (lv n s 0 i) j" for i j
  proof -
    have j64: "j < 64" using bit_imp_le_length [OF j] by simp
    have "i * 64 + j < 2 ^ n"
    proof (cases "6 < n")
      case True
      then have "(2::nat) ^ n = 2 ^ 6 * 2 ^ (n - 6)" by (simp only: power_add [symmetric]) simp
      then have "(2::nat) ^ n = 64 * nwords n 0" by (simp add: nwords_def)
      then show ?thesis using i j64 by linarith
    next
      case False
      then have "nlev n - 1 = 0" using less_nlev_iff [of 1 n] by linarith
      moreover have "i = 0" using i False by (simp add: nwords_def)
      ultimately show ?thesis using ok j j64 by (auto simp: stree_ok_def top_ok_def not_le [symmetric])
    qed
    then show ?thesis using j j64 by (simp add: stree_set_def)
  qed
  ultimately show ?thesis by blast
qed

lemma card_stree_set:
  assumes ok: "stree_ok n s"
  shows "card (stree_set n s) = (\<Sum>i < nwords n 0. popcount (lv n s 0 i))"
proof -
  have fin: "finite {j. bit (w::u64) j}" for w
    by (rule finite_subset [of _ "{..<64}"]) (auto dest: bit_imp_le_length)
  have "card (stree_set n s) = (\<Sum>i < nwords n 0. card ((\<lambda>j. i * 64 + j) ` {j. bit (lv n s 0 i) j}))"
    unfolding stree_set_words [OF ok]
  proof (rule card_UN_disjoint)
    show "\<forall>i\<in>{..<nwords n 0}. \<forall>k\<in>{..<nwords n 0}. i \<noteq> k \<longrightarrow>
      (\<lambda>j. i * 64 + j) ` {j. bit (lv n s 0 i) j} \<inter> (\<lambda>j. k * 64 + j) ` {j. bit (lv n s 0 k) j} = {}"
    proof (intro ballI impI)
      fix i k :: nat assume "i \<noteq> k"
      then have "i * 64 + j \<noteq> k * 64 + j'" if "j < 64" "j' < 64" for j j' using that by arith
      then show "(\<lambda>j. i * 64 + j) ` {j. bit (lv n s 0 i) j} \<inter> (\<lambda>j. k * 64 + j) ` {j. bit (lv n s 0 k) j} = {}"
        using bit_imp_le_length [where 'a = 64] by fastforce
    qed
  qed (simp_all add: fin)
  also have "\<dots> = (\<Sum>i < nwords n 0. popcount (lv n s 0 i))"
    by (intro sum.cong refl) (simp add: popcount_card card_image inj_on_def)
  finally show ?thesis .
qed

lemma count_from_ok:
  assumes dim: "stree_dim n s" and "i \<le> nwords n 0"
  shows "stree_count_from s (of_nat n) (64 * i) sz =
    Some (sz + of_nat (\<Sum>k = i..<nwords n 0. popcount (lv n s 0 k)))"
  using assms(2)
proof (induction "nwords n 0 - i" arbitrary: i sz)
  case 0
  then have "i = nwords n 0" by simp
  then show ?case using count_cond [of n i] dim
    by (subst stree_count_from.simps) (simp add: unat_of_nat_less stree_dim_def)
next
  case (Suc d)
  have i: "i < nwords n 0" "d = nwords n 0 - Suc i" using Suc(2) by simp_all
  have n: "6 * 0 < n" "1 \<le> n" "n \<le> 30" using dim by (simp_all add: stree_dim_def)
  have b: "i < STREE_SIZE n" using level_in_bounds [OF n(1) i(1)] by simp
  have "(2::nat) ^ (n - 6) < 2 ^ 64" using n(3) by (intro power_strict_increasing) simp_all
  then have "i < 2 ^ 64" using i(1) by (simp add: nwords_def)
  then have "unat (stree_lmap (of_nat n) 0 + of_nat i) = i"
    by (simp add: stree_lmap_def stree_lmap_off_def unat_of_nat_less)
  then have "GET_WORD s (stree_lmap (of_nat n) 0 + of_nat i) = Some (lv n s 0 i)"
    using b dim by (simp add: GET_WORD_def lv_def stree_dim_def)
  moreover have "64 * i < 2 ^ unat (of_nat n :: u32)"
    using count_cond [OF n(2)] i(1) n(3) by (simp add: unat_of_nat_less)
  ultimately have "stree_count_from s (of_nat n) (64 * i) sz =
      stree_count_from s (of_nat n) (64 * Suc i) (sz + of_nat (popcount (lv n s 0 i)))"
    by (subst stree_count_from.simps) (simp add: add.commute)
  then show ?case
    using Suc(1) [OF i(2)] i(1) by (simp add: sum.atLeast_Suc_lessThan algebra_simps)
qed

lemma count_ok:
  assumes ok: "stree_ok n s"
  shows "stree_count s (of_nat n) = Some (of_nat (card (stree_set n s)))"
  using count_from_ok [of n s 0 0] ok
  by (simp add: stree_count_def card_stree_set stree_ok_def atLeast0LessThan)

lemma order_ok:
  assumes n: "0 < n" "n < 2 ^ 32"
  shows "\<exists>r. stree_order n = Some r \<and> unat n \<le> 2 ^ r \<and> (\<forall>q. unat n \<le> 2 ^ q \<longrightarrow> r \<le> q)"
proof -
  have nz: "n \<noteq> 0" using n(1) by simp
  have un: "unat n < 2 ^ 32" using n(2) by (simp add: word_less_nat_alt)
  define m where "m = msb_index n"
  note b = msb_index_bounds [OF nz, folded m_def] and p = msb_index_props [OF nz, folded m_def]
  have "bit (ucast n :: u32) j \<longleftrightarrow> bit n j" for j
  proof (cases "j < 32")
    case False
    have "unat n div 2 ^ j = 0"
      using un power_increasing [of 32 j "2::nat"] False by simp
    then have "\<not> bit (unat n) j" by (simp add: bit_iff_odd)
    then show ?thesis using False by (simp add: bit_unat_iff bit_unsigned_iff)
  qed (simp add: bit_unsigned_iff)
  then have pc: "popcount (ucast n :: u32) = card {j. bit n j}" by (simp add: popcount_card)
  have fin: "finite {j. bit n j}"
    by (rule finite_subset [of _ "{..<64}"]) (auto dest: bit_imp_le_length)
  have "popcount (ucast n :: u32) > 1 \<longleftrightarrow> unat n \<noteq> 2 ^ m"
  proof -
    have "card {j. bit n j} \<le> 1 \<longleftrightarrow> {j. bit n j} = {m}"
      using p(2) fin card_le_Suc0_iff_eq [of "{j. bit n j}"] by auto
    also have "\<dots> \<longleftrightarrow> n = 2 ^ m"
    proof
      assume "{j. bit n j} = {m}"
      then have "bit n j \<longleftrightarrow> j = m" for j by blast
      then show "n = 2 ^ m" using p(1) by (intro bit_word_eqI) (auto simp: bit_simps)
    next
      assume "n = 2 ^ m"
      then show "{j. bit n j} = {m}" using p(1) by (auto simp: bit_simps)
    qed
    also have "\<dots> \<longleftrightarrow> unat n = 2 ^ m" using p(1) by (simp add: word_unat_eq_iff unat_2_power)
    finally show ?thesis using pc by (metis not_le)
  qed
  then have r: "stree_order n = Some (if unat n = 2 ^ m then m else Suc m)"
    using nz by (simp add: stree_order_def m_def msb_index_def)
  moreover have "(if unat n = 2 ^ m then m else Suc m) \<le> q" if "unat n \<le> 2 ^ q" for q
  proof (cases "unat n = 2 ^ m")
    case True
    then show ?thesis using that by (simp add: power_le_imp_le_exp)
  next
    case False
    then have "(2::nat) ^ m < 2 ^ q" using b that by linarith
    then show ?thesis using False power_less_imp_less_exp [of "2::nat" m q] by simp
  qed
  ultimately show ?thesis using b by (intro exI conjI) auto
qed

section \<open>The interface of a searchable bitmap\<close>

text \<open>What a client that allocates from the bitmap relies on: \<open>wf\<close> is kept, the operations
  return, and they act on the set of free numbers below \<open>cap\<close>.\<close>

locale searchable_bitmap =
  fixes wf :: "'s \<Rightarrow> bool" and elems :: "'s \<Rightarrow> nat set" and cap :: nat
    and search :: "'s \<Rightarrow> bool \<Rightarrow> int option"
    and setb :: "'s \<Rightarrow> u64 \<Rightarrow> 's option" and clrb :: "'s \<Rightarrow> u64 \<Rightarrow> 's option"
  assumes elems_cap: "wf s \<Longrightarrow> x \<in> elems s \<Longrightarrow> x < cap"
    and cap_word: "cap \<le> 2 ^ 63"
    and search_law: "wf s \<Longrightarrow> search s low = Some (if elems s = {} then - 1
      else int (if low then Min (elems s) else Max (elems s)))"
    and setb_law: "wf s \<Longrightarrow> unat a < cap \<Longrightarrow>
      \<exists>s'. setb s a = Some s' \<and> wf s' \<and> elems s' = insert (unat a) (elems s)"
    and clrb_law: "wf s \<Longrightarrow> unat a < cap \<Longrightarrow>
      \<exists>s'. clrb s a = Some s' \<and> wf s' \<and> elems s' = elems s - {unat a}"
begin

lemma elems_finite: "wf s \<Longrightarrow> finite (elems s)"
  by (rule finite_subset [of _ "{..<cap}"]) (auto dest: elems_cap)

lemma elems_word: "wf s \<Longrightarrow> a \<in> elems s \<Longrightarrow> unat (of_nat a :: u64) = a"
  using elems_cap cap_word by (fastforce intro: unat_of_nat_less)

text \<open>Searching for a number and taking it out: the number found was free, and it is free no more.\<close>

lemma search_found:
  assumes "wf s" "search s low = Some r"
  shows "0 \<le> r \<longleftrightarrow> elems s \<noteq> {}"
    and "elems s \<noteq> {} \<Longrightarrow> nat r \<in> elems s"
    and "elems s = {} \<Longrightarrow> r = - 1"
  using search_law [OF assms(1), of low] assms elems_finite [OF assms(1)] by auto

lemma take_found:
  assumes "wf s" "search s low = Some r" "0 \<le> r"
  shows "\<exists>s'. clrb s (word_of_int r) = Some s' \<and> wf s' \<and> elems s' = elems s - {nat r} \<and>
    card (elems s) = Suc (card (elems s')) \<and> unat (word_of_int r :: u64) = nat r"
proof -
  have r: "nat r \<in> elems s" using search_found [OF assms(1,2)] assms(3) by simp
  have w: "unat (word_of_int r :: u64) = nat r"
    using elems_word [OF assms(1) r] assms(3) by (simp add: of_nat_nat)
  obtain s' where "clrb s (word_of_int r) = Some s'" "wf s'" "elems s' = elems s - {nat r}"
    using clrb_law [OF assms(1), of "word_of_int r"] elems_cap [OF assms(1) r] w by auto
  moreover have "card (elems s) = Suc (card (elems s - {nat r}))"
    using card_Suc_Diff1 [OF elems_finite [OF assms(1)] r] by simp
  ultimately show ?thesis using w by auto
qed

lemma give_back:
  assumes "wf s" "unat a < cap" "unat a \<notin> elems s"
  shows "\<exists>s'. setb s a = Some s' \<and> wf s' \<and> elems s' = insert (unat a) (elems s) \<and>
    card (elems s') = Suc (card (elems s))"
  using setb_law [OF assms(1,2)] assms(3) elems_finite [OF assms(1)] by auto

end

lemma stree_ok_cap: "stree_ok n s \<Longrightarrow> (2::nat) ^ n \<le> 2 ^ 30"
  by (intro power_increasing) (simp_all add: stree_ok_def stree_dim_def)

interpretation stree: searchable_bitmap
  "stree_ok n" "stree_set n" "if n \<le> 30 then 2 ^ n else 0"
  "\<lambda>s. stree_bitsearch s (of_nat n)" "\<lambda>s. stree_setbit s (of_nat n)" "\<lambda>s. stree_clrbit s (of_nat n)"
  for n
proof
  fix s low and a :: u64 assume ok: "stree_ok n s"
  then have n: "n \<le> 30" by (simp add: stree_ok_def stree_dim_def)
  show "x \<in> stree_set n s \<Longrightarrow> x < (if n \<le> 30 then 2 ^ n else 0)" for x
    using n by (simp add: stree_set_def)
  show "stree_bitsearch s (of_nat n) low = Some (if stree_set n s = {} then - 1
      else int (if low then Min (stree_set n s) else Max (stree_set n s)))"
    using ok by (rule bitsearch_ok)
  assume "unat a < (if n \<le> 30 then 2 ^ n else 0)"
  then have a: "unat a < 2 ^ n" using n by simp
  show "\<exists>s'. stree_setbit s (of_nat n) a = Some s' \<and> stree_ok n s' \<and>
      stree_set n s' = insert (unat a) (stree_set n s)"
    using setbit_ok [OF ok a] by blast
  show "\<exists>s'. stree_clrbit s (of_nat n) a = Some s' \<and> stree_ok n s' \<and>
      stree_set n s' = stree_set n s - {unat a}"
    using clrbit_ok [OF ok a] by blast
next
  show "(if n \<le> 30 then 2 ^ n else 0) \<le> (2::nat) ^ 63"
    using power_increasing [of n 63 "2::nat"] by simp
qed

section \<open>Properties\<close>

lemma nlev_7: "nlev 7 = 2"
  by (simp add: nlev_def)

text \<open>Concrete trees of order 7, with both words of the lowest level in use.\<close>

lemma stree_ok_two:
  assumes "a \<noteq> 0" "b \<noteq> 0"
  shows "stree_ok 7 [a, b, 3]"
proof -
  have "links_ok 7 [a, b, 3]"
    unfolding links_ok_def nlev_7
  proof (intro allI impI)
    fix l i :: nat assume "Suc l < 2" "i < nwords 7 l"
    then have "l = 0" "i = 0 \<or> i = 1" by (auto simp: nwords_def)
    moreover have "bit (3::u64) 0" "bit (3::u64) 1" by (simp_all add: bit_iff_odd)
    ultimately show "bit (lv 7 [a, b, 3] (Suc l) (i div 64)) (i mod 64) = (lv 7 [a, b, 3] l i \<noteq> 0)"
      using assms by (auto simp: lv_def lbase_def)
  qed
  moreover have "top_ok 7 [a, b, 3]"
  proof -
    have "\<not> bit (3::u64) j" if "2 \<le> j" for j
      using not_bit_ge [of "3::u64" 2 j] that by simp
    then show ?thesis by (simp add: top_ok_def nlev_7 lv_def lbase_def)
  qed
  ultimately show ?thesis
    by (simp add: stree_ok_def stree_dim_def STREE_SIZE_def CEIL_DIV_def)
qed

text \<open>The tree with the numbers 0, 2 and 127 in it.\<close>

lemma stree_ok_sample: "stree_ok 7 [5, 0x8000000000000000, 3]"
  by (rule stree_ok_two) simp_all

text \<open>
  C7. On a well-formed tree \<^verbatim>\<open>stree_bitsearch\<close> returns (its assertion that only the top level can
  be zero never fails): \<open>- 1\<close> when no bit is set, otherwise the lowest set bit for \<open>low\<close> and the
  highest one else.
\<close>

theorem stree_bitsearch_extremal:
  assumes "stree_ok n s"
  shows "stree_bitsearch s (of_nat n) low = Some (if stree_set n s = {} then - 1
    else int (if low then Min (stree_set n s) else Max (stree_set n s)))"
  using assms by (rule bitsearch_ok)

theorem stree_bitsearch_extremal_witness:
  "stree_bitsearch [5, 0x8000000000000000, 3] 7 True =
     Some (if stree_set 7 [5, 0x8000000000000000, 3] = {} then - 1
       else int (Min (stree_set 7 [5, 0x8000000000000000, 3])))"
  using stree_bitsearch_extremal [OF stree_ok_sample, of True] by simp

text \<open>
  C18. Setting a bit of a well-formed tree returns, keeps every summary level exact, adds exactly that
  number to the set the tree represents, and \<^verbatim>\<open>stree_getbit\<close> reads the new set.
\<close>

theorem stree_setbit_inserts:
  assumes "stree_ok n s" "unat a < 2 ^ n" "unat b < 2 ^ n"
  shows "\<exists>s'. stree_setbit s (of_nat n) a = Some s' \<and> stree_ok n s' \<and> length s' = length s \<and>
    stree_set n s' = insert (unat a) (stree_set n s) \<and>
    stree_getbit s' (of_nat n) b = Some (b = a \<or> unat b \<in> stree_set n s)"
proof -
  obtain s' where "stree_setbit s (of_nat n) a = Some s'" "stree_ok n s'" "length s' = length s"
    "stree_set n s' = insert (unat a) (stree_set n s)"
    using setbit_ok [OF assms(1,2)] by blast
  then show ?thesis using stree_getbit_eq [of n s' b] assms(3)
    by (simp add: stree_ok_def word_unat_eq_iff)
qed

theorem stree_setbit_inserts_witness:
  "\<exists>s'. stree_setbit [5, 0x8000000000000000, 3] 7 66 = Some s' \<and> stree_ok 7 s' \<and> length s' = Suc (Suc (Suc 0)) \<and>
    stree_set 7 s' = insert 66 (stree_set 7 [5, 0x8000000000000000, 3]) \<and>
    stree_getbit s' 7 67 = Some (67 \<in> stree_set 7 [5, 0x8000000000000000, 3])"
  using stree_setbit_inserts [OF stree_ok_sample, of 66 67] by simp

text \<open>
  C10. Clearing a bit of a well-formed tree returns, keeps every summary level exact, and removes
  exactly that number.
\<close>

theorem stree_clrbit_removes:
  assumes "stree_ok n s" "unat a < 2 ^ n" "unat b < 2 ^ n"
  shows "\<exists>s'. stree_clrbit s (of_nat n) a = Some s' \<and> stree_ok n s' \<and> length s' = length s \<and>
    stree_set n s' = stree_set n s - {unat a} \<and>
    stree_getbit s' (of_nat n) b = Some (b \<noteq> a \<and> unat b \<in> stree_set n s)"
proof -
  obtain s' where "stree_clrbit s (of_nat n) a = Some s'" "stree_ok n s'" "length s' = length s"
    "stree_set n s' = stree_set n s - {unat a}"
    using clrbit_ok [OF assms(1,2)] by blast
  then show ?thesis using stree_getbit_eq [of n s' b] assms(3)
    by (auto simp: stree_ok_def word_unat_eq_iff)
qed

theorem stree_clrbit_removes_witness:
  "\<exists>s'. stree_clrbit [5, 0x8000000000000000, 3] 7 127 = Some s' \<and> stree_ok 7 s' \<and> length s' = Suc (Suc (Suc 0)) \<and>
    stree_set 7 s' = stree_set 7 [5, 0x8000000000000000, 3] - {127} \<and>
    stree_getbit s' 7 2 = Some (2 \<in> stree_set 7 [5, 0x8000000000000000, 3])"
  using stree_clrbit_removes [OF stree_ok_sample, of 127 2] by simp

text \<open>
  C24. Filling a zeroed tree up to bit \<open>a\<close> gives a well-formed tree of exactly the numbers \<open>0\<close> to
  \<open>a\<close>: the count is \<open>a + 1\<close>, the low search finds 0 and the high search finds \<open>a\<close>.
\<close>

theorem stree_setall_fills:
  assumes "stree_dim n s" "\<forall>w\<in>set (take (STREE_SIZE n) s). w = 0" "unat a < 2 ^ n"
  shows "\<exists>s'. stree_setall s (of_nat n) a = Some s' \<and> stree_ok n s' \<and>
    stree_set n s' = {0..unat a} \<and> stree_count s' (of_nat n) = Some (a + 1) \<and>
    stree_bitsearch s' (of_nat n) True = Some 0 \<and>
    stree_bitsearch s' (of_nat n) False = Some (int (unat a))"
proof -
  obtain s' where s': "stree_setall s (of_nat n) a = Some s'" "stree_ok n s'" "stree_set n s' = {0..unat a}"
    using setall_ok [OF assms] by blast
  have "Min {0..unat a} = 0" "Max {0..unat a} = unat a" by (auto intro!: Min_eqI Max_eqI)
  then show ?thesis using s' bitsearch_ok [OF s'(2)] count_ok [OF s'(2)] by (simp add: add.commute)
qed

theorem stree_setall_fills_witness:
  "\<exists>s'. stree_setall [0, 0, 0] 7 99 = Some s' \<and> stree_ok 7 s' \<and>
    stree_set 7 s' = {0..99} \<and> stree_count s' 7 = Some 100 \<and>
    stree_bitsearch s' 7 True = Some 0 \<and> stree_bitsearch s' 7 False = Some 99"
  using stree_setall_fills [of 7 "[0, 0, 0]" 99]
  by (simp add: stree_dim_def STREE_SIZE_def CEIL_DIV_def)

text \<open>
  C25. \<^verbatim>\<open>stree_count\<close> counts the set bits of a well-formed tree.
\<close>

theorem stree_count_card:
  assumes "stree_ok n s"
  shows "\<exists>c. stree_count s (of_nat n) = Some c \<and> unat c = card (stree_set n s)"
proof -
  have "card (stree_set n s) \<le> 2 ^ n"
    using card_mono [of "{..<2 ^ n}" "stree_set n s"] by (auto simp: stree_set_def)
  then have "card (stree_set n s) < 2 ^ 64" using stree_ok_cap [OF assms] by simp
  then show ?thesis using count_ok [OF assms] by (simp add: unat_of_nat_less)
qed

theorem stree_count_card_witness:
  "\<exists>c. stree_count [5, 0x8000000000000000, 3] 7 = Some c \<and>
     unat c = card (stree_set 7 [5, 0x8000000000000000, 3])"
  using stree_count_card [OF stree_ok_sample] by simp

text \<open>
  C26. For up to \<open>2 ^ 32 - 1\<close> objects \<^verbatim>\<open>stree_order\<close> is the least order whose tree has room for
  them.
\<close>

theorem stree_order_least:
  assumes "0 < n" "n < 2 ^ 32"
  shows "\<exists>r. stree_order n = Some r \<and> unat n \<le> 2 ^ r \<and> (\<forall>q. unat n \<le> 2 ^ q \<longrightarrow> r \<le> q)"
  using assms by (rule order_ok)

theorem stree_order_least_witness:
  "\<exists>r. stree_order 100 = Some r \<and> 100 \<le> (2::nat) ^ r \<and> (\<forall>q. 100 \<le> (2::nat) ^ q \<longrightarrow> r \<le> q)"
  using stree_order_least [of 100] by simp

end
