(* ===== verification/Pfn.thy ===== *)
theory Pfn
  imports Kmap Cache Stree
begin

text \<open>
  Page frames: the allocator (\<^verbatim>\<open>libnux/pfnalloc.c\<close>) over the searchable bitmap, and the access to frames
  (\<^verbatim>\<open>libnux/pfncache.c\<close>) through the direct mapping or through the cache of temporary mappings. Memory is a
  function from physical addresses to 64-bit words; a load or a store at a virtual address goes through \<open>mmu\<close>,
  the translation of the processor, a parameter. Constants of the machine and of the link are in \<open>mm_cfg\<close>.
  A function pointer in the state is a code address; the functions that a kernel may install as its allocator
  are the parameter \<open>client\<close>.
\<close>

section \<open>State\<close>

record mm_cfg =
  dmapbase :: vaddr_t
  dmapsize :: size_t
  pfncbase :: vaddr_t
  pfncsize :: size_t
  maxpfn :: pfn_t
  cache_at :: u64
  boot_slot_at :: u64
  stree_pfnalloc_at :: u64
  stree_pfnfree_at :: u64

record mm_st = cpu_st +
  pmem :: "paddr_t \<Rightarrow> u64"
  satp :: u64
  pglock :: lock_t
  pg_stree :: stree
  pg_order :: u32
  free_pages :: u64
  pfnalloc_lock :: rwlock_t
  pfnalloc_fn :: u64
  pfnfree_fn :: u64
  pfncache_base :: vaddr_t
  max_dmap_pfn :: pfn_t
  pf_cache :: cache_t
  pfnc_tlbgen :: tlbgen_t

record 's allocators =
  cl_alloc :: "u64 \<Rightarrow> bool \<Rightarrow> 's \<Rightarrow> (pfn_t \<times> 's) option"
  cl_free :: "u64 \<Rightarrow> pfn_t \<Rightarrow> 's \<Rightarrow> 's option"

type_synonym 'a mmu = "'a mm_st_scheme \<Rightarrow> vaddr_t \<Rightarrow> paddr_t"

definition ld64 :: "'a mmu \<Rightarrow> vaddr_t \<Rightarrow> 'a mm_st_scheme \<Rightarrow> u64" where
  "ld64 mmu va s = pmem s (mmu s va)"

definition st64 :: "'a mmu \<Rightarrow> vaddr_t \<Rightarrow> u64 \<Rightarrow> 'a mm_st_scheme \<Rightarrow> 'a mm_st_scheme" where
  "st64 mmu va v s = s\<lparr>pmem := (pmem s)(mmu s va := v)\<rparr>"

section \<open>Access to frames\<close>

text \<open>The slot is mapped with \<^verbatim>\<open>kmap_map_noalloc\<close>, over the HAL \<open>H\<close> (which runs with the cache's lock held).\<close>

definition pfncache_fill :: "'a mm_st_scheme hal \<Rightarrow> u32 \<Rightarrow> u64 \<Rightarrow> u64 \<Rightarrow> 'a mm_st_scheme \<Rightarrow> 'a mm_st_scheme option" where
  "pfncache_fill H slot old new s =
     do { let va = pfncache_base s + push_bit PAGE_SHIFT (ucast slot);
          (_, s) \<leftarrow> kmap_map_noalloc H va new (HAL_PTE_P OR HAL_PTE_W) s;
          let tlbgen = ktlbgen_normal s;
          Some (s\<lparr>pfnc_tlbgen := tlbgen\<rparr>) }"

definition pfn_get :: "'a mm_st_scheme hal \<Rightarrow> mm_cfg \<Rightarrow> pfn_t \<Rightarrow> 'a mm_st_scheme \<Rightarrow> (vaddr_t \<times> 'a mm_st_scheme) option" where
  "pfn_get H cfg pfn s =
     (if pfn = PFN_INVALID then None
      else if pfn < max_dmap_pfn s then Some (dmapbase cfg + push_bit PAGE_SHIFT pfn, s)
      else do { ((slot, c), s) \<leftarrow> cache_get (cache_at cfg) (pfncache_fill H) pfn (pf_cache s) s;
                let s = s\<lparr>pf_cache := c\<rparr>;
                let target = pfnc_tlbgen s;
                s \<leftarrow> cpu_ktlb_reach target s;
                Some (pfncache_base s + push_bit PAGE_SHIFT (ucast slot), s) })"

definition pfn_put :: "pfn_t \<Rightarrow> vaddr_t \<Rightarrow> 'a mm_st_scheme \<Rightarrow> 'a mm_st_scheme option" where
  "pfn_put pfn va s =
     (if pfn = PFN_INVALID then None
      else if pfn < max_dmap_pfn s then Some s
      else do { let slot = drop_bit PAGE_SHIFT (va - pfncache_base s);
                c \<leftarrow> cache_put slot (pf_cache s);
                Some (s\<lparr>pf_cache := c\<rparr>) })"

text \<open>The same functions while the cache's lock is held: an access that needs the cache never returns.\<close>

definition pfn_get_held :: "mm_cfg \<Rightarrow> pfn_t \<Rightarrow> 'a mm_st_scheme \<Rightarrow> (vaddr_t \<times> 'a mm_st_scheme) option" where
  "pfn_get_held cfg pfn s =
     (if pfn = PFN_INVALID then None
      else if pfn < max_dmap_pfn s then Some (dmapbase cfg + push_bit PAGE_SHIFT pfn, s)
      else None)"

definition pfn_put_held :: "pfn_t \<Rightarrow> vaddr_t \<Rightarrow> 'a mm_st_scheme \<Rightarrow> 'a mm_st_scheme option" where
  "pfn_put_held pfn va s =
     (if pfn = PFN_INVALID then None else if pfn < max_dmap_pfn s then Some s else None)"

definition pfncache_bootstrap :: "mm_cfg \<Rightarrow> 'a mm_st_scheme \<Rightarrow> 'a mm_st_scheme" where
  "pfncache_bootstrap cfg s =
     (let s = s\<lparr>max_dmap_pfn := drop_bit PAGE_SHIFT (dmapsize cfg)\<rparr>;
          s = s\<lparr>pfncache_base := pfncbase cfg\<rparr>
      in s\<lparr>pf_cache := cache_init (cache_at cfg) (boot_slot_at cfg) 1 (pf_cache s)\<rparr>)"

text \<open>\<open>brkgrow\<close> is \<^verbatim>\<open>kmem_brkgrow\<close>. The number of slots reserved is \<^verbatim>\<open>numslots\<close>, the cache is given 256.\<close>

definition pfncacheinit ::
  "mm_cfg \<Rightarrow> (bool \<Rightarrow> u32 \<Rightarrow> 'a mm_st_scheme \<Rightarrow> (vaddr_t \<times> 'a mm_st_scheme) option) \<Rightarrow> 'a mm_st_scheme \<Rightarrow> 'a mm_st_scheme option" where
  "pfncacheinit cfg brkgrow s =
     do { let numslots = (ucast (pfncsize cfg div PAGE_SIZE) :: u32);
          if numslots = 0 then None
          else do { (slots, s) \<leftarrow> brkgrow True (ucast (SLOT_SIZE * ucast numslots :: u64)) s;
                    Some (s\<lparr>pf_cache := cache_init (cache_at cfg) slots 256 (pf_cache s)\<rparr>) } }"

section \<open>The allocator\<close>

text \<open>\<open>phys\<close> is what \<^verbatim>\<open>hal_physmem_stree\<close> returns.\<close>

definition stree_pfninit :: "(stree \<times> u32) option \<Rightarrow> 'a mm_st_scheme \<Rightarrow> 'a mm_st_scheme option" where
  "stree_pfninit phys s =
     do { (t, order) \<leftarrow> phys;
          let s = s\<lparr>pg_stree := t, pg_order := order\<rparr>;
          first \<leftarrow> stree_bitsearch t order True;
          final \<leftarrow> stree_bitsearch t order False;
          n \<leftarrow> stree_count t order;
          let s = s\<lparr>free_pages := n\<rparr>;
          if first < 0 \<or> final < 0 then None
          else Some (s\<lparr>pglock := spinlock_init (pglock s)\<rparr>) }"

text \<open>\<^verbatim>\<open>memset (va, 0, PAGE_SIZE)\<close>, a word at a time.\<close>

definition clear_page :: "'s pfn_ops \<Rightarrow> vaddr_t \<Rightarrow> 's \<Rightarrow> 's" where
  "clear_page M va s = fold (\<lambda>i. mem_st M (va + 8 * of_nat i) 0) [0..<512] s"

definition stree_pfnalloc :: "'a mm_st_scheme pfn_ops \<Rightarrow> bool \<Rightarrow> 'a mm_st_scheme \<Rightarrow> (pfn_t \<times> 'a mm_st_scheme) option" where
  "stree_pfnalloc M low s =
     do { l \<leftarrow> spinlock (pglock s);
          let s = s\<lparr>pglock := l\<rparr>;
          pg \<leftarrow> stree_bitsearch (pg_stree s) (pg_order s) low;
          s \<leftarrow> (if pg \<ge> 0
                then if free_pages s = 0 then None
                     else do { let s = s\<lparr>free_pages := free_pages s - 1\<rparr>;
                               t \<leftarrow> stree_clrbit (pg_stree s) (pg_order s) (word_of_int pg);
                               Some (s\<lparr>pg_stree := t\<rparr>) }
                else Some s);
          let s = s\<lparr>pglock := spinunlock (pglock s)\<rparr>;
          if pg < 0 then Some (PFN_INVALID, s)
          else do { (va, s) \<leftarrow> op_get M (word_of_int pg) s;
                    let s = clear_page M va s;
                    s \<leftarrow> op_put M (word_of_int pg) va s;
                    Some (word_of_int pg, s) } }"

definition stree_pfnfree :: "mm_cfg \<Rightarrow> pfn_t \<Rightarrow> 'a mm_st_scheme \<Rightarrow> 'a mm_st_scheme option" where
  "stree_pfnfree cfg pfn s =
     (if pfn = PFN_INVALID then None
      else if \<not> pfn < maxpfn cfg then None
      else do { l \<leftarrow> spinlock (pglock s);
                let s = s\<lparr>pglock := l\<rparr>;
                t \<leftarrow> stree_setbit (pg_stree s) (pg_order s) pfn;
                let s = s\<lparr>pg_stree := t\<rparr>;
                Some (s\<lparr>pglock := spinunlock (pglock s)\<rparr>) })"

definition nux_set_allocator :: "u64 \<Rightarrow> u64 \<Rightarrow> 'a mm_st_scheme \<Rightarrow> 'a mm_st_scheme option" where
  "nux_set_allocator alloc free s =
     do { rw \<leftarrow> writelock (pfnalloc_lock s);
          let s = s\<lparr>pfnalloc_lock := rw\<rparr>;
          let s = s\<lparr>pfnalloc_fn := alloc\<rparr>;
          let s = s\<lparr>pfnfree_fn := free\<rparr>;
          Some (s\<lparr>pfnalloc_lock := writeunlock (pfnalloc_lock s)\<rparr>) }"

definition pfn_alloc ::
  "mm_cfg \<Rightarrow> 'a mm_st_scheme allocators \<Rightarrow> 'a mm_st_scheme pfn_ops \<Rightarrow> bool \<Rightarrow> 'a mm_st_scheme \<Rightarrow> (pfn_t \<times> 'a mm_st_scheme) option" where
  "pfn_alloc cfg client M low s =
     do { rw \<leftarrow> readlock (pfnalloc_lock s);
          let s = s\<lparr>pfnalloc_lock := rw\<rparr>;
          (pfn, s) \<leftarrow> (if pfnalloc_fn s = stree_pfnalloc_at cfg then stree_pfnalloc M low s
                        else cl_alloc client (pfnalloc_fn s) low s);
          rw \<leftarrow> readunlock (pfnalloc_lock s);
          Some (pfn, s\<lparr>pfnalloc_lock := rw\<rparr>) }"

definition pfn_free ::
  "mm_cfg \<Rightarrow> 'a mm_st_scheme allocators \<Rightarrow> pfn_t \<Rightarrow> 'a mm_st_scheme \<Rightarrow> 'a mm_st_scheme option" where
  "pfn_free cfg client pfn s =
     do { rw \<leftarrow> readlock (pfnalloc_lock s);
          let s = s\<lparr>pfnalloc_lock := rw\<rparr>;
          s \<leftarrow> (if pfnfree_fn s = stree_pfnfree_at cfg then stree_pfnfree cfg pfn s
                else cl_free client (pfnfree_fn s) pfn s);
          let s = s\<lparr>free_pages := free_pages s + 1\<rparr>;
          rw \<leftarrow> readunlock (pfnalloc_lock s);
          Some (s\<lparr>pfnalloc_lock := rw\<rparr>) }"

definition pfn_avail :: "'a mm_st_scheme \<Rightarrow> u64" where
  "pfn_avail s = free_pages s"

section \<open>The frame operations of the library\<close>

text \<open>
  What the page-table code is compiled against, in three steps, since each part uses the one before: \<open>held_ops\<close>
  while the cache's lock is held (no allocation happens there), \<open>get_ops\<close> inside the allocator, and \<open>mm_ops\<close>
  everywhere else. \<open>hal_of\<close> is the HAL, over such operations.
\<close>

definition held_ops :: "'a mmu \<Rightarrow> mm_cfg \<Rightarrow> 'a mm_st_scheme pfn_ops" where
  "held_ops mmu cfg = \<lparr>mem_ld = ld64 mmu, mem_st = st64 mmu, op_get = pfn_get_held cfg, op_put = pfn_put_held,
     op_alloc = (\<lambda>_ _. None), op_free = (\<lambda>_ _. None), reg_root = satp, inv_page = (\<lambda>va. hw (Sfence_vma va))\<rparr>"

definition get_ops :: "'a mmu \<Rightarrow> mm_cfg \<Rightarrow> ('a mm_st_scheme pfn_ops \<Rightarrow> 'a mm_st_scheme hal) \<Rightarrow> 'a mm_st_scheme pfn_ops" where
  "get_ops mmu cfg hal_of = (held_ops mmu cfg)\<lparr>op_get := pfn_get (hal_of (held_ops mmu cfg)) cfg, op_put := pfn_put\<rparr>"

definition mm_ops ::
  "'a mmu \<Rightarrow> mm_cfg \<Rightarrow> 'a mm_st_scheme allocators \<Rightarrow> ('a mm_st_scheme pfn_ops \<Rightarrow> 'a mm_st_scheme hal) \<Rightarrow> 'a mm_st_scheme pfn_ops" where
  "mm_ops mmu cfg client hal_of = (get_ops mmu cfg hal_of)
     \<lparr>op_alloc := pfn_alloc cfg client (get_ops mmu cfg hal_of), op_free := pfn_free cfg client\<rparr>"

section \<open>Vocabulary of the proofs\<close>

text \<open>The allocator between calls, with the library's own functions installed: its bitmap of order \<open>n\<close> is well-formed,
  the count of free pages is the number of set bits, and no lock is held.\<close>

definition bitmap_ok :: "nat \<Rightarrow> 'a mm_st_scheme \<Rightarrow> bool" where
  "bitmap_ok n s \<longleftrightarrow> stree_ok n (pg_stree s) \<and> pg_order s = of_nat n \<and> free_pages s = of_nat (card (stree_set n (pg_stree s))) \<and>
     unlocked (pglock s)"

definition pfn_ok :: "mm_cfg \<Rightarrow> nat \<Rightarrow> 'a mm_st_scheme \<Rightarrow> bool" where
  "pfn_ok cfg n s \<longleftrightarrow> bitmap_ok n s \<and> rw_quiet (pfnalloc_lock s) \<and> rdrs (pfnalloc_lock s) + 1 \<noteq> 0 \<and>
     pfnalloc_fn s = stree_pfnalloc_at cfg \<and> pfnfree_fn s = stree_pfnfree_at cfg"

definition free_frames :: "nat \<Rightarrow> 'a mm_st_scheme \<Rightarrow> pfn_t set" where
  "free_frames n s = of_nat ` stree_set n (pg_stree s)"

section \<open>Lemmas\<close>

lemma pfn_okD:
  assumes "pfn_ok cfg n s"
  shows "stree_ok n (pg_stree s)" "pg_order s = of_nat n" "free_pages s = of_nat (card (stree_set n (pg_stree s)))"
    "unlocked (pglock s)" "rw_quiet (pfnalloc_lock s)" "rdrs (pfnalloc_lock s) + 1 \<noteq> 0"
    "pfnalloc_fn s = stree_pfnalloc_at cfg" "pfnfree_fn s = stree_pfnfree_at cfg"
  using assms by (simp_all add: pfn_ok_def bitmap_ok_def)

lemma stree_card_small:
  assumes "stree_ok n t"
  shows "card (stree_set n t) \<le> 2 ^ 30" "finite (stree_set n t)"
proof -
  have "stree_set n t \<subseteq> {..<2 ^ n}" by (auto simp: stree_set_def)
  then have "card (stree_set n t) \<le> 2 ^ n" using card_mono [of "{..<2 ^ n}" "stree_set n t"] by simp
  then show "card (stree_set n t) \<le> 2 ^ 30" using stree_ok_cap [OF assms] by linarith
  show "finite (stree_set n t)" by (rule finite_subset [of _ "{..<2 ^ n}"]) (auto simp: stree_set_def)
qed

lemma stree_elem:
  assumes "stree_ok n t" "x \<in> stree_set n t"
  shows "x < 2 ^ n" "x < 2 ^ 30" "unat (of_nat x :: u64) = x"
proof -
  show "x < 2 ^ n" using assms(2) by (simp add: stree_set_def)
  then show "x < 2 ^ 30" using stree_ok_cap [OF assms(1)] by linarith
  then show "unat (of_nat x :: u64) = x" by (simp add: unat_of_nat)
qed

lemma free_frames_iff: "stree_ok n (pg_stree s) \<Longrightarrow> f \<in> free_frames n s \<longleftrightarrow> unat f \<in> stree_set n (pg_stree s)"
  using stree_elem [of n "pg_stree s"] by (force simp: free_frames_def)

lemma pfn_avail_ok:
  assumes "pfn_ok cfg n s"
  shows "pfn_avail s = of_nat (card (free_frames n s))"
proof -
  have "inj_on (of_nat :: nat \<Rightarrow> u64) (stree_set n (pg_stree s))"
    using stree_elem(3) [OF pfn_okD(1) [OF assms]] by (metis inj_onI)
  then show ?thesis using pfn_okD(3) [OF assms] by (simp add: pfn_avail_def free_frames_def card_image)
qed

text \<open>Taking a page out of the bitmap, up to the clearing of the page.\<close>

lemma stree_pfnalloc_cases:
  assumes ok: "bitmap_ok n s"
  obtains "stree_set n (pg_stree s) = {}" "stree_pfnalloc M low s = Some (PFN_INVALID, s)"
  | f t where "f \<in> free_frames n s" "\<forall>g\<in>free_frames n s. if low then f \<le> g else g \<le> f" "stree_ok n t" "stree_set n t = stree_set n (pg_stree s) - {unat f}"
      "free_pages s - 1 = of_nat (card (stree_set n t))"
      "stree_pfnalloc M low s = do { (va, s) \<leftarrow> op_get M f (s\<lparr>free_pages := free_pages s - 1, pg_stree := t\<rparr>);
         let s = clear_page M va s; s \<leftarrow> op_put M f va s; Some (f, s) }"
proof -
  have K: "stree_ok n (pg_stree s)" "pg_order s = of_nat n" "free_pages s = of_nat (card (stree_set n (pg_stree s)))" "unlocked (pglock s)"
    using ok by (simp_all add: bitmap_ok_def)
  let ?t = "pg_stree s"
  have l: "spinlock (pglock s) = Some ((pglock s)\<lparr>lck := 1\<rparr>)" using K(4) by simp
  obtain pg where pg: "stree_bitsearch ?t (of_nat n) low = Some pg" using stree.search_law [OF K(1)] by blast
  note F = stree.search_found [OF K(1) pg]
  show thesis
  proof (cases "stree_set n ?t = {}")
    case True
    then have "pg = - 1" using F by simp
    then have "stree_pfnalloc M low s = Some (PFN_INVALID, s)" using l pg K(2,4) by (simp add: stree_pfnalloc_def)
    with True show thesis by (rule that(1))
  next
    case False
    then have p: "0 \<le> pg" "nat pg \<in> stree_set n ?t" using F by simp_all
    obtain t where t: "stree_clrbit ?t (of_nat n) (word_of_int pg) = Some t" "stree_ok n t" "stree_set n t = stree_set n ?t - {nat pg}"
        "card (stree_set n ?t) = Suc (card (stree_set n t))" "unat (word_of_int pg :: u64) = nat pg"
      using stree.take_found [OF K(1) pg p(1)] by auto
    have z: "free_pages s \<noteq> 0"
    proof -
      have "unat (of_nat (card (stree_set n ?t)) :: u64) = card (stree_set n ?t)"
        using stree_card_small(1) [OF K(1)] by (simp add: unat_of_nat)
      then show ?thesis using K(3) t(4) by auto
    qed
    have "stree_pfnalloc M low s = do { (va, s) \<leftarrow> op_get M (word_of_int pg) (s\<lparr>free_pages := free_pages s - 1, pg_stree := t\<rparr>);
         let s = clear_page M va s; s \<leftarrow> op_put M (word_of_int pg) va s; Some (word_of_int pg, s) }"
      using l pg p(1) z t(1) K(2,4) by (simp add: stree_pfnalloc_def)
    moreover have "word_of_int pg \<in> free_frames n s" "free_pages s - 1 = of_nat (card (stree_set n t))"
      using free_frames_iff [OF K(1)] t(4,5) p(2) K(3) by simp_all
    moreover have "\<forall>g\<in>free_frames n s. if low then word_of_int pg \<le> g else g \<le> word_of_int pg"
      using stree.search_law [OF K(1), of low] pg False stree_card_small(2) [OF K(1)] t(5) free_frames_iff [OF K(1)]
      by (auto simp: word_le_nat_alt)
    ultimately show thesis using that(2) [of "word_of_int pg" t] t(2,3,5) by simp
  qed
qed

text \<open>The readers' lock around a function that leaves it as it is.\<close>

lemma alloc_locked:
  assumes ok: "pfn_ok cfg n s" and rw: "readlock (pfnalloc_lock s) = Some rw" "readunlock rw = Some (pfnalloc_lock s)"
    and f: "stree_pfnalloc M low (s\<lparr>pfnalloc_lock := rw\<rparr>) = Some (pfn, s'\<lparr>pfnalloc_lock := rw\<rparr>)" and s': "pfnalloc_lock s' = pfnalloc_lock s"
  shows "pfn_alloc cfg client M low s = Some (pfn, s')"
proof -
  have "s'\<lparr>pfnalloc_lock := pfnalloc_lock s\<rparr> = s'" using s' [symmetric] by simp
  then show ?thesis using pfn_okD(7) [OF ok] rw f by (simp add: pfn_alloc_def)
qed

lemma pfn_free_ok:
  assumes ok: "pfn_ok cfg n s" and f: "f \<noteq> PFN_INVALID" "f < maxpfn cfg" "unat f < 2 ^ n" "f \<notin> free_frames n s"
  shows "\<exists>t. pfn_free cfg client f s = Some (s\<lparr>pg_stree := t, free_pages := free_pages s + 1\<rparr>) \<and>
    pfn_ok cfg n (s\<lparr>pg_stree := t, free_pages := free_pages s + 1\<rparr>) \<and> stree_set n t = insert (unat f) (stree_set n (pg_stree s))"
proof -
  note K = pfn_okD [OF ok]
  obtain rw where rw: "readlock (pfnalloc_lock s) = Some rw" "readunlock rw = Some (pfnalloc_lock s)"
    using readlock_quiet [OF K(5,6)] by blast
  have n: "n \<le> 30" using K(1) by (simp add: stree_ok_def stree_dim_def)
  obtain t where t: "stree_setbit (pg_stree s) (of_nat n) f = Some t" "stree_ok n t" "stree_set n t = insert (unat f) (stree_set n (pg_stree s))"
      "card (stree_set n t) = Suc (card (stree_set n (pg_stree s)))"
    using stree.give_back [OF K(1), of f] f(3,4) n free_frames_iff [OF K(1), of f] by auto
  have "pfn_free cfg client f s = Some (s\<lparr>pg_stree := t, free_pages := free_pages s + 1\<rparr>)"
    using rw K f(1,2) t(1) by (simp add: pfn_free_def stree_pfnfree_def)
  moreover have "pfn_ok cfg n (s\<lparr>pg_stree := t, free_pages := free_pages s + 1\<rparr>)"
    using K t by (simp add: pfn_ok_def bitmap_ok_def)
  ultimately show ?thesis using t(3) by blast
qed

end
