(* ===== verification/Riscv_Pte.thy ===== *)
theory Riscv_Pte
  imports Pte_Bits
begin

text \<open>
  Page-table entries of RISC-V: the entry format and the helpers of \<^verbatim>\<open>libhal_riscv/internal.h\<close>, and the
  conversion between entries and the frame and permissions of the machine-independent code
  (\<^verbatim>\<open>hal_l1e_box\<close>, \<^verbatim>\<open>hal_l1e_unbox\<close>, \<^verbatim>\<open>hal_l1e_tlbop\<close> of \<^verbatim>\<open>libhal_riscv/pmap.c\<close>).
\<close>

type_synonym pte_t = u64
type_synonym ptep_t = u64

abbreviation (input) RV_PTE_V :: pte_t where "RV_PTE_V \<equiv> 1"
abbreviation (input) RV_PTE_R :: pte_t where "RV_PTE_R \<equiv> 2"
abbreviation (input) RV_PTE_W :: pte_t where "RV_PTE_W \<equiv> 4"
abbreviation (input) RV_PTE_X :: pte_t where "RV_PTE_X \<equiv> 8"
abbreviation (input) RV_PTE_FLAGS :: pte_t where "RV_PTE_FLAGS \<equiv> 15"
abbreviation (input) RV_PTE_U :: pte_t where "RV_PTE_U \<equiv> 16"
abbreviation (input) RV_PTE_GLOBAL :: pte_t where "RV_PTE_GLOBAL \<equiv> 32"
abbreviation (input) RV_PTE_A :: pte_t where "RV_PTE_A \<equiv> 64"
abbreviation (input) RV_PTE_D :: pte_t where "RV_PTE_D \<equiv> 128"
abbreviation (input) RV_PTE_AVL0 :: pte_t where "RV_PTE_AVL0 \<equiv> 256"
abbreviation (input) RV_PTE_AVL1 :: pte_t where "RV_PTE_AVL1 \<equiv> 512"
abbreviation (input) PTE_PFN_SHIFT :: nat where "PTE_PFN_SHIFT \<equiv> 10"
abbreviation (input) PTE_INVALID :: pte_t where "PTE_INVALID \<equiv> 0"
abbreviation (input) PTEP_INVALID :: ptep_t where "PTEP_INVALID \<equiv> L1P_INVALID"

definition mkptep :: "pfn_t \<Rightarrow> u32 \<Rightarrow> ptep_t" where
  "mkptep pfn offset = push_bit PAGE_SHIFT pfn OR ucast (push_bit 3 offset)"

definition mkpte :: "pfn_t \<Rightarrow> u32 \<Rightarrow> pte_t" where
  "mkpte pfn flags = push_bit PTE_PFN_SHIFT pfn OR ucast flags"

definition pte_pfn :: "pte_t \<Rightarrow> pfn_t" where
  "pte_pfn pte = drop_bit PTE_PFN_SHIFT pte"

definition pte_valid_table :: "pte_t \<Rightarrow> bool" where
  "pte_valid_table pte \<longleftrightarrow> pte AND RV_PTE_FLAGS = RV_PTE_V"

definition pte_valid_leaf :: "pte_t \<Rightarrow> bool" where
  "pte_valid_leaf pte \<longleftrightarrow> pte AND (RV_PTE_V OR RV_PTE_R) = RV_PTE_V OR RV_PTE_R"

definition pte_valid :: "pte_t \<Rightarrow> bool" where
  "pte_valid pte \<longleftrightarrow> pte AND RV_PTE_V \<noteq> 0"

definition riscv_l1e_box :: "u64 \<Rightarrow> u32 \<Rightarrow> u64" where
  "riscv_l1e_box pfn prot =
     (let l1e = push_bit PTE_PFN_SHIFT pfn;
          l1e = (if prot AND HAL_PTE_P \<noteq> 0 then l1e OR (RV_PTE_V OR RV_PTE_R) else l1e);
          l1e = (if prot AND HAL_PTE_W \<noteq> 0 then l1e OR RV_PTE_W else l1e);
          l1e = (if prot AND HAL_PTE_X \<noteq> 0 then l1e OR RV_PTE_X else l1e);
          l1e = (if prot AND HAL_PTE_U \<noteq> 0 then l1e OR RV_PTE_U else l1e);
          l1e = (if prot AND HAL_PTE_GLOBAL \<noteq> 0 then l1e OR RV_PTE_GLOBAL else l1e);
          l1e = (if prot AND HAL_PTE_A \<noteq> 0 then l1e OR RV_PTE_A else l1e);
          l1e = (if prot AND HAL_PTE_D \<noteq> 0 then l1e OR RV_PTE_D else l1e);
          l1e = (if prot AND HAL_PTE_AVL0 \<noteq> 0 then l1e OR RV_PTE_AVL0 else l1e);
          l1e = (if prot AND HAL_PTE_AVL1 \<noteq> 0 then l1e OR RV_PTE_AVL1 else l1e)
      in l1e)"

definition riscv_l1e_unbox :: "u64 \<Rightarrow> u64 \<times> u32" where
  "riscv_l1e_unbox l1e =
     (let prot = 0;
          prot = (if l1e AND RV_PTE_V \<noteq> 0
            then (let prot = (if l1e AND RV_PTE_R \<noteq> 0 then prot OR HAL_PTE_P else prot);
                      prot = (if l1e AND RV_PTE_W \<noteq> 0 then prot OR HAL_PTE_W else prot);
                      prot = (if l1e AND RV_PTE_X \<noteq> 0 then prot OR HAL_PTE_X else prot);
                      prot = (if l1e AND RV_PTE_U \<noteq> 0 then prot OR HAL_PTE_U else prot);
                      prot = (if l1e AND RV_PTE_GLOBAL \<noteq> 0 then prot OR HAL_PTE_GLOBAL else prot);
                      prot = (if l1e AND RV_PTE_A \<noteq> 0 then prot OR HAL_PTE_A else prot);
                      prot = (if l1e AND RV_PTE_D \<noteq> 0 then prot OR HAL_PTE_D else prot);
                      prot = (if l1e AND RV_PTE_AVL0 \<noteq> 0 then prot OR HAL_PTE_AVL0 else prot);
                      prot = (if l1e AND RV_PTE_AVL1 \<noteq> 0 then prot OR HAL_PTE_AVL1 else prot)
                  in prot)
            else prot)
      in (pte_pfn l1e, prot))"

definition riscv_l1e_tlbop :: "u64 \<Rightarrow> u64 \<Rightarrow> hal_tlbop_t" where
  "riscv_l1e_tlbop old new = HAL_TLBOP_FLUSH"

section \<open>Bits of an entry\<close>

lemma pte_valid_bit: "pte_valid e \<longleftrightarrow> bit e 0"
  by (simp add: pte_valid_def and_numeral_bit)

lemma bit_15: "bit (15::u64) j \<longleftrightarrow> j < 4"
proof -
  have "(15::u64) = mask 4" by (simp add: mask_numeral)
  then show ?thesis by (simp only: bit_mask_iff) auto
qed

lemma bit_3: "bit (3::u64) j \<longleftrightarrow> j < 2"
proof -
  have "(3::u64) = mask 2" by (simp add: mask_numeral)
  then show ?thesis by (simp only: bit_mask_iff) auto
qed

lemma pte_valid_table_bits: "pte_valid_table e \<longleftrightarrow> bit e 0 \<and> \<not> bit e 1 \<and> \<not> bit e 2 \<and> \<not> bit e 3"
proof
  assume "pte_valid_table e"
  then have "bit (e AND 15) j = bit (1::u64) j" for j by (simp add: pte_valid_table_def)
  from this [of 0] this [of 1] this [of 2] this [of 3] show "bit e 0 \<and> \<not> bit e 1 \<and> \<not> bit e 2 \<and> \<not> bit e 3"
    by (simp_all add: bit_and_iff bit_15 bit_numeral_pow)
next
  assume "bit e 0 \<and> \<not> bit e 1 \<and> \<not> bit e 2 \<and> \<not> bit e 3"
  then have "e AND 15 = 1"
    by (intro bit_word_eqI) (auto simp: bit_and_iff bit_15 bit_numeral_pow less_Suc_eq eval_nat_numeral)
  then show "pte_valid_table e" by (simp add: pte_valid_table_def)
qed

lemma pte_valid_leaf_bits: "pte_valid_leaf e \<longleftrightarrow> bit e 0 \<and> bit e 1"
proof
  assume "pte_valid_leaf e"
  then have "bit (e AND 3) j = bit (3::u64) j" for j by (simp add: pte_valid_leaf_def)
  from this [of 0] this [of 1] show "bit e 0 \<and> bit e 1" by (simp_all add: bit_and_iff bit_3)
next
  assume "bit e 0 \<and> bit e 1"
  then have "e AND 3 = 3" by (intro bit_word_eqI) (auto simp: bit_and_iff bit_3 less_Suc_eq eval_nat_numeral)
  then show "pte_valid_leaf e" by (simp add: pte_valid_leaf_def)
qed

lemma pte_table_valid: "pte_valid_table e \<Longrightarrow> pte_valid e"
  by (simp add: pte_valid_table_bits pte_valid_bit)

lemma pte_table_leaf: "pte_valid_table e \<Longrightarrow> \<not> pte_valid_leaf e"
  by (simp add: pte_valid_table_bits pte_valid_leaf_bits)

lemma pte_valid_0 [simp]: "\<not> pte_valid 0" "\<not> pte_valid_table 0" "\<not> pte_valid_leaf 0"
  by (simp_all add: pte_valid_bit pte_valid_table_bits pte_valid_leaf_bits)

lemma pte_pfn_0 [simp]: "pte_pfn 0 = 0"
  by (simp add: pte_pfn_def)

lemma mkpte_table: "pte_valid_table (mkpte pfn 1)" "mkpte pfn 1 \<noteq> 0"
proof -
  show "pte_valid_table (mkpte pfn 1)"
    by (simp add: pte_valid_table_bits mkpte_def bit_or_iff bit_push_bit_iff bit_numeral_pow)
  then show "mkpte pfn 1 \<noteq> 0" using pte_valid_0 by metis
qed

lemma mkpte_pfn: "unat pfn < 2 ^ 54 \<Longrightarrow> pte_pfn (mkpte pfn 1) = pfn"
proof (rule bit_word_eqI)
  fix j assume a: "unat pfn < 2 ^ 54" "j < LENGTH(64)"
  show "bit (pte_pfn (mkpte pfn 1)) j = bit pfn j"
    using not_bit_ge [OF a(1), of j]
    by (cases "54 \<le> j") (auto simp: pte_pfn_def mkpte_def bit_drop_bit_eq bit_or_iff bit_push_bit_iff bit_numeral_pow)
qed

lemma bit_riscv_box:
  "bit (riscv_l1e_box pfn prot) j \<longleftrightarrow>
     10 \<le> j \<and> j < 64 \<and> bit pfn (j - 10) \<or> (j = 0 \<or> j = 1) \<and> bit prot 0 \<or> j = 2 \<and> bit prot 1 \<or> j = 3 \<and> bit prot 2 \<or>
     j = 4 \<and> bit prot 3 \<or> j = 5 \<and> bit prot 4 \<or> j = 6 \<and> bit prot 5 \<or> j = 7 \<and> bit prot 6 \<or> j = 8 \<and> bit prot 7 \<or> j = 9 \<and> bit prot 8"
  unfolding riscv_l1e_box_def Let_def bit_cond_or bit_or_iff and_numeral_bit bit_numeral_pow bit_push_bit_iff by auto

lemma bit_riscv_unbox:
  "bit (snd (riscv_l1e_unbox e)) j \<longleftrightarrow> bit e 0 \<and>
     (j = 0 \<and> bit e 1 \<or> j = 1 \<and> bit e 2 \<or> j = 2 \<and> bit e 3 \<or> j = 3 \<and> bit e 4 \<or> j = 4 \<and> bit e 5 \<or>
      j = 5 \<and> bit e 6 \<or> j = 6 \<and> bit e 7 \<or> j = 7 \<and> bit e 8 \<or> j = 8 \<and> bit e 9)"
  unfolding riscv_l1e_unbox_def Let_def snd_conv and_numeral_bit
  by (cases "bit e 0") (simp_all only: if_True if_False bit_cond_or bit_numeral_pow32 not_not simp_thms, auto)

lemma bit_1ff: "bit (0x1ff::u32) j \<longleftrightarrow> j < 9"
proof -
  have "(0x1ff::u32) = mask 9" by (simp add: mask_numeral)
  then show ?thesis by (simp only: bit_mask_iff) auto
qed

lemma riscv_box_pfn: "fst (riscv_l1e_unbox (riscv_l1e_box pfn prot)) = pfn AND mask 54"
proof (rule bit_word_eqI)
  fix j assume "j < LENGTH(64)"
  then show "bit (fst (riscv_l1e_unbox (riscv_l1e_box pfn prot))) j = bit (pfn AND mask 54) j"
    by (auto simp: riscv_l1e_unbox_def Let_def pte_pfn_def bit_drop_bit_eq bit_riscv_box bit_and_iff bit_mask_iff)
qed

lemma riscv_box_prot:
  "snd (riscv_l1e_unbox (riscv_l1e_box pfn prot)) = (if prot AND HAL_PTE_P = 0 then 0 else prot AND 0x1ff)"
proof (rule bit_word_eqI)
  fix j assume "j < LENGTH(32)"
  have j9: "j < 9 \<longleftrightarrow> j = 0 \<or> j = 1 \<or> j = 2 \<or> j = 3 \<or> j = 4 \<or> j = 5 \<or> j = 6 \<or> j = 7 \<or> j = 8" by auto
  show "bit (snd (riscv_l1e_unbox (riscv_l1e_box pfn prot))) j = bit (if prot AND HAL_PTE_P = 0 then 0 else prot AND 0x1ff) j"
    unfolding and_numeral_bit
    by (cases "bit prot 0") (auto simp: bit_riscv_unbox bit_riscv_box bit_and_iff bit_1ff j9)
qed

section \<open>Properties\<close>

text \<open>
  C22. Reading back a RISC-V leaf entry: the frame comes back in the 54 bits the entry has for it; a present
  entry gives back the nine permission bits it was made with, an entry that is not present gives back none.
  An entry made by \<^verbatim>\<open>hal_l1e_box\<close> is a valid leaf exactly when it is present, and never passes for a
  pointer to a table.
\<close>

theorem riscv_l1e_roundtrip:
  "riscv_l1e_unbox (riscv_l1e_box pfn prot) =
     (pfn AND mask 54, if prot AND HAL_PTE_P = 0 then 0 else prot AND 0x1ff) \<and>
   pte_valid_leaf (riscv_l1e_box pfn prot) = (prot AND HAL_PTE_P \<noteq> 0) \<and>
   \<not> pte_valid_table (riscv_l1e_box pfn prot)"
  using riscv_box_pfn [of pfn prot] riscv_box_prot [of pfn prot]
  by (simp add: prod_eq_iff pte_valid_leaf_bits pte_valid_table_bits bit_riscv_box and_numeral_bit)

end
