(* ===== verification/Sv48.thy ===== *)
theory Sv48
  imports Riscv_Pte
begin

text \<open>
  The page tables of RISC-V with four levels (\<^verbatim>\<open>libhal_riscv/sv48.c\<close>, the accessors of
  \<^verbatim>\<open>libhal_riscv/internal.h\<close> and the mapping functions of \<^verbatim>\<open>libhal_riscv/pmap.c\<close>). Every access to a table
  goes through the frame operations \<open>M\<close>, as in the code: map the frame, load or store the entry, unmap it.
  A pointer to an entry (\<^verbatim>\<open>pte_t *\<close>) is the virtual address of the word, a \<^verbatim>\<open>ptep_t\<close> packs frame and index.
  Output parameters are part of the result.
\<close>

section \<open>Accessors\<close>

definition get_pte :: "'s pfn_ops \<Rightarrow> ptep_t \<Rightarrow> 's \<Rightarrow> (pte_t \<times> 's) option" where
  "get_pte M ptep s =
     do { let pfn = drop_bit PAGE_SHIFT ptep;
          let offset = (ucast (drop_bit 3 ptep AND 0x1ff) :: u32);
          (t, s) \<leftarrow> op_get M pfn s;
          let pte = mem_ld M (t + 8 * ucast offset) s;
          s \<leftarrow> op_put M pfn t s;
          Some (pte, s) }"

definition set_pte :: "'s pfn_ops \<Rightarrow> ptep_t \<Rightarrow> pte_t \<Rightarrow> 's \<Rightarrow> (pte_t \<times> 's) option" where
  "set_pte M ptep pte s =
     do { let pfn = drop_bit PAGE_SHIFT ptep;
          let offset = (ucast (drop_bit 3 ptep AND 0x1ff) :: u32);
          (t, s) \<leftarrow> op_get M pfn s;
          let old = mem_ld M (t + 8 * ucast offset) s;
          let s = mem_st M (t + 8 * ucast offset) pte s;
          s \<leftarrow> op_put M pfn t s;
          Some (old, s) }"

definition alloc_table :: "'s pfn_ops \<Rightarrow> 's \<Rightarrow> (pte_t \<times> 's) option" where
  "alloc_table M s =
     do { (pfn, s) \<leftarrow> op_alloc M False s;
          if pfn = PFN_INVALID then Some (PTE_INVALID, s)
          else Some (mkpte pfn (ucast RV_PTE_V), s) }"

section \<open>The parts of an address\<close>

abbreviation (input) L1_SHIFT :: nat where "L1_SHIFT \<equiv> PAGE_SHIFT"
abbreviation (input) L2_SHIFT :: nat where "L2_SHIFT \<equiv> 21"
abbreviation (input) L3_SHIFT :: nat where "L3_SHIFT \<equiv> 30"
abbreviation (input) L4_SHIFT :: nat where "L4_SHIFT \<equiv> 39"
abbreviation (input) UMAP_LOG2_L4PTES :: nat where "UMAP_LOG2_L4PTES \<equiv> 3"
abbreviation (input) UMAP_L4PTES :: nat where "UMAP_L4PTES \<equiv> 8"
abbreviation (input) SATP_PFN_MASK :: u64 where "SATP_PFN_MASK \<equiv> 0xfffffffffff"

definition L4OFF :: "u64 \<Rightarrow> u64" where "L4OFF va = drop_bit L4_SHIFT va AND 0x1ff"
definition L3OFF :: "u64 \<Rightarrow> u64" where "L3OFF va = drop_bit L3_SHIFT va AND 0x1ff"
definition L2OFF :: "u64 \<Rightarrow> u64" where "L2OFF va = drop_bit L2_SHIFT va AND 0x1ff"
definition L1OFF :: "u64 \<Rightarrow> u64" where "L1OFF va = drop_bit L1_SHIFT va AND 0x1ff"

definition MKCANON :: "u64 \<Rightarrow> u64" where
  "MKCANON va = signed_drop_bit 16 (push_bit 16 va)"

definition mkaddr :: "u64 \<Rightarrow> u64 \<Rightarrow> u64 \<Rightarrow> u64 \<Rightarrow> u64" where
  "mkaddr l4off l3off l2off l1off =
     MKCANON (push_bit L4_SHIFT l4off OR push_bit L3_SHIFT l3off OR push_bit L2_SHIFT l2off OR push_bit L1_SHIFT l1off)"

section \<open>The root\<close>

definition get_cpumap_l4pfn :: "'s pfn_ops \<Rightarrow> 's \<Rightarrow> pfn_t" where
  "get_cpumap_l4pfn M s = reg_root M s AND SATP_PFN_MASK"

definition get_cpumap_l4off :: "'s pfn_ops \<Rightarrow> u32 \<Rightarrow> 's \<Rightarrow> (vaddr_t \<times> 's) option" where
  "get_cpumap_l4off M off s =
     do { (t, s) \<leftarrow> op_get M (get_cpumap_l4pfn M s) s;
          if off < 512 then Some (t + 8 * ucast off, s) else None }"

definition get_cpumap_l4ptr :: "'s pfn_ops \<Rightarrow> u64 \<Rightarrow> 's \<Rightarrow> (vaddr_t \<times> 's) option" where
  "get_cpumap_l4ptr M va s = get_cpumap_l4off M (ucast (L4OFF va)) s"

definition put_cpumap_l4ptr :: "'s pfn_ops \<Rightarrow> u64 \<Rightarrow> vaddr_t \<Rightarrow> 's \<Rightarrow> 's option" where
  "put_cpumap_l4ptr M va pte s = op_put M (get_cpumap_l4pfn M s) pte s"

section \<open>The walk\<close>

definition walk_l3pfn :: "'s pfn_ops \<Rightarrow> vaddr_t \<Rightarrow> u64 \<Rightarrow> bool \<Rightarrow> 's \<Rightarrow> (pfn_t \<times> 's) option" where
  "walk_l3pfn M l4ptr va alloc s =
     do { let l4e = mem_ld M l4ptr s;
          if \<not> pte_valid l4e
          then if \<not> alloc then Some (PFN_INVALID, s)
               else do { (l4e, s) \<leftarrow> alloc_table M s;
                         if l4e = PTE_INVALID then Some (PFN_INVALID, s)
                         else do { let s = mem_st M l4ptr l4e s;
                                   let s = inv_page M va s;
                                   if pte_valid_table l4e then Some (pte_pfn l4e, s) else None } }
          else if pte_valid_table l4e then Some (pte_pfn l4e, s) else None }"

definition walk_l3p :: "'s pfn_ops \<Rightarrow> vaddr_t \<Rightarrow> u64 \<Rightarrow> bool \<Rightarrow> 's \<Rightarrow> (ptep_t \<times> 's) option" where
  "walk_l3p M l4ptr va alloc s =
     do { (l3pfn, s) \<leftarrow> walk_l3pfn M l4ptr va alloc s;
          if l3pfn = PFN_INVALID then Some (PTEP_INVALID, s)
          else Some (mkptep l3pfn (ucast (L3OFF va)), s) }"

definition walk_l2pfn :: "'s pfn_ops \<Rightarrow> vaddr_t \<Rightarrow> u64 \<Rightarrow> bool \<Rightarrow> 's \<Rightarrow> (pfn_t \<times> 's) option" where
  "walk_l2pfn M l4ptr va alloc s =
     do { (l3p, s) \<leftarrow> walk_l3p M l4ptr va alloc s;
          if l3p = PTEP_INVALID then Some (PFN_INVALID, s)
          else do { (l3e, s) \<leftarrow> get_pte M l3p s;
                    if \<not> pte_valid l3e
                    then if \<not> alloc then Some (PFN_INVALID, s)
                         else do { (l3e, s) \<leftarrow> alloc_table M s;
                                   if l3e = PTE_INVALID then Some (PFN_INVALID, s)
                                   else do { (_, s) \<leftarrow> set_pte M l3p l3e s;
                                             let s = inv_page M va s;
                                             if pte_valid_table l3e then Some (pte_pfn l3e, s) else None } }
                    else if pte_valid_table l3e then Some (pte_pfn l3e, s) else None } }"

definition walk_l2p :: "'s pfn_ops \<Rightarrow> vaddr_t \<Rightarrow> u64 \<Rightarrow> bool \<Rightarrow> 's \<Rightarrow> (ptep_t \<times> 's) option" where
  "walk_l2p M l4ptr va alloc s =
     do { (l2pfn, s) \<leftarrow> walk_l2pfn M l4ptr va alloc s;
          if l2pfn = PFN_INVALID then Some (PTEP_INVALID, s)
          else Some (mkptep l2pfn (ucast (L2OFF va)), s) }"

definition walk_l1pfn :: "'s pfn_ops \<Rightarrow> vaddr_t \<Rightarrow> u64 \<Rightarrow> bool \<Rightarrow> 's \<Rightarrow> (pfn_t \<times> 's) option" where
  "walk_l1pfn M l4ptr va alloc s =
     do { (l2p, s) \<leftarrow> walk_l2p M l4ptr va alloc s;
          if l2p = PTEP_INVALID then Some (PFN_INVALID, s)
          else do { (l2e, s) \<leftarrow> get_pte M l2p s;
                    if \<not> pte_valid l2e
                    then if \<not> alloc then Some (PFN_INVALID, s)
                         else do { (l2e, s) \<leftarrow> alloc_table M s;
                                   if l2e = PTE_INVALID then Some (PFN_INVALID, s)
                                   else do { (_, s) \<leftarrow> set_pte M l2p l2e s;
                                             let s = inv_page M va s;
                                             if pte_valid_table l2e then Some (pte_pfn l2e, s) else None } }
                    else if pte_valid_table l2e then Some (pte_pfn l2e, s) else None } }"

definition walk_l1p :: "'s pfn_ops \<Rightarrow> vaddr_t \<Rightarrow> u64 \<Rightarrow> bool \<Rightarrow> 's \<Rightarrow> (ptep_t \<times> 's) option" where
  "walk_l1p M l4ptr va alloc s =
     do { (l1pfn, s) \<leftarrow> walk_l1pfn M l4ptr va alloc s;
          if l1pfn = PFN_INVALID then Some (PTEP_INVALID, s)
          else Some (mkptep l1pfn (ucast (L1OFF va)), s) }"

definition cpumap_get_l1p :: "'s pfn_ops \<Rightarrow> u64 \<Rightarrow> bool \<Rightarrow> 's \<Rightarrow> (u64 \<times> 's) option" where
  "cpumap_get_l1p M va alloc s =
     do { (l4ptr, s) \<leftarrow> get_cpumap_l4ptr M va s;
          (l1p, s) \<leftarrow> walk_l1p M l4ptr va alloc s;
          s \<leftarrow> put_cpumap_l4ptr M va l4ptr s;
          Some (l1p, s) }"

text \<open>The address of an entry of the array in a \<^verbatim>\<open>struct hal_umap\<close>, its first member.\<close>

definition umap_l4 :: "u64 \<Rightarrow> u64 \<Rightarrow> vaddr_t" where
  "umap_l4 umap i = umap + 8 * i"

definition umap_get_l1p :: "'s pfn_ops \<Rightarrow> u64 option \<Rightarrow> u64 \<Rightarrow> bool \<Rightarrow> 's \<Rightarrow> (u64 \<times> 's) option" where
  "umap_get_l1p M umap va alloc s =
     (if L4OFF va < of_nat UMAP_L4PTES
      then case umap of
          None \<Rightarrow>
            do { (l4ptr, s) \<leftarrow> get_cpumap_l4ptr M va s;
                 (l1p, s) \<leftarrow> walk_l1p M l4ptr va alloc s;
                 s \<leftarrow> put_cpumap_l4ptr M va l4ptr s;
                 Some (l1p, s) }
        | Some u \<Rightarrow> walk_l1p M (umap_l4 u (L4OFF va)) va alloc s
      else None)"

section \<open>The next mapped page\<close>

text \<open>The loops over the entries of a table: the first index for which the body finds something.\<close>

primrec first_hit :: "(nat \<Rightarrow> 's \<Rightarrow> ('r option \<times> 's) option) \<Rightarrow> nat list \<Rightarrow> 's \<Rightarrow> ((nat \<times> 'r) option \<times> 's) option" where
  "first_hit f [] s = Some (None, s)"
| "first_hit f (i # is) s =
     do { (r, s) \<leftarrow> f i s;
          case r of Some x \<Rightarrow> Some (Some (i, x), s) | None \<Rightarrow> first_hit f is s }"

definition scan_l1 :: "'s pfn_ops \<Rightarrow> pfn_t \<Rightarrow> nat \<Rightarrow> 's \<Rightarrow> ((nat \<times> u64 \<times> u64) option \<times> 's) option" where
  "scan_l1 M l1pfn off s =
     do { (l1ptr, s) \<leftarrow> op_get M l1pfn s;
          let r = (case find (\<lambda>i. mem_ld M (l1ptr + 8 * of_nat i) s \<noteq> 0) [off..<512] of
                     None \<Rightarrow> None
                   | Some i \<Rightarrow> Some (i, mkpte l1pfn (of_nat i), mem_ld M (l1ptr + 8 * of_nat i) s));
          s \<leftarrow> op_put M l1pfn l1ptr s;
          Some (r, s) }"

definition scan_l2 :: "'s pfn_ops \<Rightarrow> pfn_t \<Rightarrow> nat \<Rightarrow> 's \<Rightarrow> ((nat \<times> nat \<times> u64 \<times> u64) option \<times> 's) option" where
  "scan_l2 M l2pfn off s =
     do { (l2ptr, s) \<leftarrow> op_get M l2pfn s;
          (r, s) \<leftarrow> first_hit (\<lambda>i s. let l2e = mem_ld M (l2ptr + 8 * of_nat i) s in
                      if pte_valid_table l2e then scan_l1 M (pte_pfn l2e) 0 s else Some (None, s)) [off..<512] s;
          s \<leftarrow> op_put M l2pfn l2ptr s;
          Some (r, s) }"

definition scan_l3 :: "'s pfn_ops \<Rightarrow> pfn_t \<Rightarrow> nat \<Rightarrow> 's \<Rightarrow> ((nat \<times> nat \<times> nat \<times> u64 \<times> u64) option \<times> 's) option" where
  "scan_l3 M l3pfn off s =
     do { (l3ptr, s) \<leftarrow> op_get M l3pfn s;
          (r, s) \<leftarrow> first_hit (\<lambda>i s. let l3e = mem_ld M (l3ptr + 8 * of_nat i) s in
                      if pte_valid_table l3e then scan_l2 M (pte_pfn l3e) 0 s else Some (None, s)) [off..<512] s;
          s \<leftarrow> op_put M l3pfn l3ptr s;
          Some (r, s) }"

text \<open>The loop runs \<^verbatim>\<open>i\<close> over the entries but always reads the entry \<^verbatim>\<open>off\<close>.\<close>

definition scan_l4 :: "'s pfn_ops \<Rightarrow> u64 option \<Rightarrow> nat \<Rightarrow> 's \<Rightarrow> ((nat \<times> nat \<times> nat \<times> nat \<times> u64 \<times> u64) option \<times> 's) option" where
  "scan_l4 M umap off s =
     first_hit (\<lambda>i s.
       do { (l4e, s) \<leftarrow> (case umap of
                None \<Rightarrow> do { (p, s) \<leftarrow> get_cpumap_l4off M (of_nat off) s; Some (mem_ld M p s, s) }
              | Some u \<Rightarrow> Some (mem_ld M (umap_l4 u (of_nat off)) s, s));
            if pte_valid_table l4e then scan_l3 M (pte_pfn l4e) 0 s else Some (None, s) }) [off..<UMAP_L4PTES] s"

definition pt_umap_next :: "'s pfn_ops \<Rightarrow> u64 option \<Rightarrow> uaddr_t \<Rightarrow> 's \<Rightarrow> ((uaddr_t \<times> (u64 \<times> u64) option) \<times> 's) option" where
  "pt_umap_next M umap uaddr s =
     (let l4off = unat (L4OFF uaddr); l3off = unat (L3OFF uaddr); l2off = unat (L2OFF uaddr); l1off = unat (L1OFF uaddr);
          mk = (\<lambda>a b c d. mkaddr (of_nat a) (of_nat b) (of_nat c) (of_nat d))
      in if \<not> L4OFF uaddr < of_nat UMAP_L4PTES then None
         else do { (l4ptr, s) \<leftarrow> (case umap of None \<Rightarrow> get_cpumap_l4ptr M uaddr s | Some u \<Rightarrow> Some (umap_l4 u (L4OFF uaddr), s));
                   (l1pfn, s) \<leftarrow> walk_l1pfn M l4ptr uaddr False s;
                   (r1, s) \<leftarrow> (if l1pfn \<noteq> PFN_INVALID then scan_l1 M l1pfn (l1off + 1) s else Some (None, s));
                   (ret, s) \<leftarrow> (case r1 of
                       Some (l1next, out) \<Rightarrow> Some ((mk l4off l3off l2off l1next, Some out), s)
                     | None \<Rightarrow> do { (l2pfn, s) \<leftarrow> walk_l2pfn M l4ptr uaddr False s;
                         (r2, s) \<leftarrow> (if l2pfn \<noteq> PFN_INVALID then scan_l2 M l2pfn (l2off + 1) s else Some (None, s));
                         case r2 of
                           Some (l2next, l1next, out) \<Rightarrow> Some ((mk l4off l3off l2next l1next, Some out), s)
                         | None \<Rightarrow> do { (l3pfn, s) \<leftarrow> walk_l3pfn M l4ptr uaddr False s;
                             (r3, s) \<leftarrow> (if l3pfn \<noteq> PFN_INVALID then scan_l3 M l3pfn (l3off + 1) s else Some (None, s));
                             case r3 of
                               Some (l3next, l2next, l1next, out) \<Rightarrow> Some ((mk l4off l3next l2next l1next, Some out), s)
                             | None \<Rightarrow> do { (r4, s) \<leftarrow> scan_l4 M umap (l4off + 1) s;
                                 case r4 of
                                   Some (l4next, l3next, l2next, l1next, out) \<Rightarrow>
                                     Some ((mk l4next l3next l2next l1next, Some out), s)
                                 | None \<Rightarrow> Some ((UADDR_INVALID, None), s) } } });
                   s \<leftarrow> (case umap of None \<Rightarrow> put_cpumap_l4ptr M uaddr l4ptr s | Some u \<Rightarrow> Some s);
                   Some (ret, s) })"

section \<open>Whole user mappings\<close>

primrec foreach :: "('i \<Rightarrow> 's \<Rightarrow> 's option) \<Rightarrow> 'i list \<Rightarrow> 's \<Rightarrow> 's option" where
  "foreach f [] s = Some s"
| "foreach f (i # is) s = do { s \<leftarrow> f i s; foreach f is s }"

definition free_l2e :: "'s pfn_ops \<Rightarrow> vaddr_t \<Rightarrow> nat \<Rightarrow> 's \<Rightarrow> 's option" where
  "free_l2e M l2ptr i s =
     (let l2e = mem_ld M (l2ptr + 8 * of_nat i) s
      in if pte_valid_leaf l2e then None
         else if pte_valid_table l2e then op_free M (pte_pfn l2e) s
         else Some s)"

definition free_l3e :: "'s pfn_ops \<Rightarrow> vaddr_t \<Rightarrow> nat \<Rightarrow> 's \<Rightarrow> 's option" where
  "free_l3e M l3ptr i s =
     (let l3e = mem_ld M (l3ptr + 8 * of_nat i) s
      in if pte_valid_leaf l3e then None
         else if pte_valid_table l3e
         then do { let l2pfn = pte_pfn l3e;
                   (l2ptr, s) \<leftarrow> op_get M l2pfn s;
                   s \<leftarrow> foreach (free_l2e M l2ptr) [0..<512] s;
                   s \<leftarrow> op_put M l2pfn l2ptr s;
                   op_free M l2pfn s }
         else Some s)"

definition free_l4e :: "'s pfn_ops \<Rightarrow> u64 \<Rightarrow> nat \<Rightarrow> 's \<Rightarrow> 's option" where
  "free_l4e M umap i s =
     (let l4e = mem_ld M (umap_l4 umap (of_nat i)) s
      in if pte_valid_leaf l4e then None
         else do { s \<leftarrow> (if pte_valid_table l4e
                        then do { let l3pfn = pte_pfn l4e;
                                  (l3ptr, s) \<leftarrow> op_get M l3pfn s;
                                  s \<leftarrow> foreach (free_l3e M l3ptr) [0..<512] s;
                                  s \<leftarrow> op_put M l3pfn l3ptr s;
                                  op_free M l3pfn s }
                        else Some s);
                   Some (mem_st M (umap_l4 umap (of_nat i)) PTE_INVALID s) })"

definition pt_umap_free :: "'s pfn_ops \<Rightarrow> u64 \<Rightarrow> 's \<Rightarrow> 's option" where
  "pt_umap_free M umap s = foreach (free_l4e M umap) [0..<UMAP_L4PTES] s"

definition pt_umap_minaddr :: u64 where
  "pt_umap_minaddr = 0"

definition pt_umap_maxaddr :: u64 where
  "pt_umap_maxaddr = push_bit (39 + UMAP_LOG2_L4PTES) 1"

definition riscv_virtmem_userbase :: vaddr_t where
  "riscv_virtmem_userbase = pt_umap_minaddr"

definition riscv_virtmem_usersize :: size_t where
  "riscv_virtmem_usersize = pt_umap_maxaddr"

definition riscv_umap_init :: "'s pfn_ops \<Rightarrow> u64 \<Rightarrow> 's \<Rightarrow> 's option" where
  "riscv_umap_init M umap s =
     foreach (\<lambda>i s. do { (e, s) \<leftarrow> alloc_table M s; Some (mem_st M (umap_l4 umap (of_nat i)) e s) }) [0..<UMAP_L4PTES] s"

definition bootstrap_l4 :: "'s pfn_ops \<Rightarrow> u64 \<Rightarrow> nat \<Rightarrow> 's \<Rightarrow> 's option" where
  "bootstrap_l4 M umap i s =
     do { let va = riscv_virtmem_userbase + of_nat i * push_bit L4_SHIFT 1;
          (l4ptr, s) \<leftarrow> get_cpumap_l4ptr M va s;
          let l4e = mem_ld M l4ptr s;
          if pte_valid_leaf l4e then None
          else do { (l4e, s) \<leftarrow>
                      (if \<not> pte_valid_table l4e
                       then do { (l4e, s) \<leftarrow> alloc_table M s;
                                 if l4e = PTE_INVALID then None
                                 else Some (l4e, inv_page M va (mem_st M l4ptr l4e s)) }
                       else Some (l4e, s));
                    s \<leftarrow> put_cpumap_l4ptr M va l4ptr s;
                    Some (mem_st M (umap_l4 umap (of_nat i)) l4e s) } }"

definition bootstrap_check :: "'s pfn_ops \<Rightarrow> nat \<Rightarrow> 's \<Rightarrow> 's option" where
  "bootstrap_check M i s =
     do { let va = riscv_virtmem_userbase + of_nat i * push_bit L4_SHIFT 1;
          (l4ptr, s) \<leftarrow> get_cpumap_l4ptr M va s;
          if pte_valid (mem_ld M l4ptr s) then None else put_cpumap_l4ptr M va l4ptr s }"

definition riscv_umap_bootstrap :: "'s pfn_ops \<Rightarrow> u64 \<Rightarrow> 's \<Rightarrow> 's option" where
  "riscv_umap_bootstrap M umap s =
     do { s \<leftarrow> foreach (bootstrap_l4 M umap) [0..<UMAP_L4PTES] s;
          foreach (bootstrap_check M) [UMAP_L4PTES..<256] s }"

definition load_l4 :: "'s pfn_ops \<Rightarrow> u64 option \<Rightarrow> nat \<Rightarrow> hal_tlbop_t \<times> 's \<Rightarrow> (hal_tlbop_t \<times> 's) option" where
  "load_l4 M umap i ts =
     do { let (tlbop, s) = ts;
          let va = riscv_virtmem_userbase + of_nat i * push_bit L4_SHIFT 1;
          let newl4e = (case umap of Some u \<Rightarrow> mem_ld M (umap_l4 u (of_nat i)) s | None \<Rightarrow> 0);
          (l4ptr, s) \<leftarrow> get_cpumap_l4ptr M va s;
          let oldl4e = mem_ld M l4ptr s;
          let s = mem_st M l4ptr newl4e s;
          s \<leftarrow> put_cpumap_l4ptr M va l4ptr s;
          Some (tlbop OR riscv_l1e_tlbop oldl4e newl4e, s) }"

definition riscv_umap_load :: "'s pfn_ops \<Rightarrow> u64 option \<Rightarrow> 's \<Rightarrow> (hal_tlbop_t \<times> 's) option" where
  "riscv_umap_load M umap s = foreach (load_l4 M umap) [0..<UMAP_L4PTES] (HAL_TLBOP_NONE, s)"

section \<open>The mapping functions of the HAL\<close>

definition riscv_kmap_getl1p :: "'s pfn_ops \<Rightarrow> u64 \<Rightarrow> bool \<Rightarrow> 's \<Rightarrow> ((bool \<times> u64) \<times> 's) option" where
  "riscv_kmap_getl1p M va alloc s =
     (if va < pt_umap_maxaddr then Some ((False, L1P_INVALID), s)
      else do { (l1p, s) \<leftarrow> cpumap_get_l1p M va alloc s;
                Some ((l1p \<noteq> L1P_INVALID, l1p), s) })"

definition riscv_umap_getl1p :: "'s pfn_ops \<Rightarrow> u64 option \<Rightarrow> u64 \<Rightarrow> bool \<Rightarrow> 's \<Rightarrow> ((bool \<times> u64) \<times> 's) option" where
  "riscv_umap_getl1p M umap uaddr alloc s =
     (if uaddr \<ge> pt_umap_maxaddr \<or> uaddr < pt_umap_minaddr then Some ((False, L1P_INVALID), s)
      else do { (l1p, s) \<leftarrow> umap_get_l1p M umap uaddr alloc s;
                Some ((l1p \<noteq> L1P_INVALID, l1p), s) })"

definition riscv_umap_next :: "'s pfn_ops \<Rightarrow> u64 option \<Rightarrow> uaddr_t \<Rightarrow> 's \<Rightarrow> ((uaddr_t \<times> (u64 \<times> u64) option) \<times> 's) option" where
  "riscv_umap_next M umap uaddr s =
     (let uaddr = (if uaddr < pt_umap_minaddr then pt_umap_minaddr else uaddr)
      in if uaddr \<ge> pt_umap_maxaddr then Some ((UADDR_INVALID, None), s)
         else pt_umap_next M umap uaddr s)"

definition riscv_hal :: "'s pfn_ops \<Rightarrow> 's hal" where
  "riscv_hal M = \<lparr>hal_l1e_box = riscv_l1e_box, hal_l1e_unbox = riscv_l1e_unbox, hal_l1e_tlbop = riscv_l1e_tlbop,
     hal_l1e_get = get_pte M, hal_l1e_set = set_pte M,
     hal_kmap_getl1p = riscv_kmap_getl1p M, hal_umap_getl1p = riscv_umap_getl1p M, hal_umap_next = riscv_umap_next M,
     hal_umap_init = riscv_umap_init M, hal_umap_bootstrap = riscv_umap_bootstrap M, hal_umap_load = riscv_umap_load M,
     hal_umap_free = pt_umap_free M\<rparr>"

end
