(* ===== verification/Pagetree.thy ===== *)
theory Pagetree
  imports Nux_Prelude
begin

text \<open>
  Page tables of four levels as a radix tree in memory: the vocabulary in which the page-table code of the
  architectures is specified. \<open>r\<close> gives the entries of the top level, \<open>fw\<close> the words of the frames, \<open>V\<close> says
  whether an entry is valid and \<open>F\<close> which frame it points to. The entry at a path of indices, the innermost
  first, is \<open>ent\<close>; a path that leads nowhere has the entry 0. The lemmas say what writing an entry does to all
  paths when no table is reached by two paths.
\<close>

fun ent :: "(u64 \<Rightarrow> bool) \<Rightarrow> (u64 \<Rightarrow> u64) \<Rightarrow> (nat \<Rightarrow> u64) \<Rightarrow> (u64 \<Rightarrow> nat \<Rightarrow> u64) \<Rightarrow> nat list \<Rightarrow> u64" where
  "ent V F r fw [] = 0"
| "ent V F r fw [i] = r i"
| "ent V F r fw (i # j # p) = (if V (ent V F r fw (j # p)) then fw (F (ent V F r fw (j # p))) i else 0)"

text \<open>The paths of the tables: valid entries above the leaf level. \<open>n\<close> is the number of top-level entries.\<close>

definition vpath :: "nat \<Rightarrow> nat list \<Rightarrow> bool" where
  "vpath n p \<longleftrightarrow> p \<noteq> [] \<and> length p \<le> 4 \<and> last p < n \<and> (\<forall>i\<in>set (butlast p). i < 512)"

definition tabs :: "(u64 \<Rightarrow> bool) \<Rightarrow> (u64 \<Rightarrow> u64) \<Rightarrow> nat \<Rightarrow> (nat \<Rightarrow> u64) \<Rightarrow> (u64 \<Rightarrow> nat \<Rightarrow> u64) \<Rightarrow> nat list set" where
  "tabs V F n r fw = {p. vpath n p \<and> length p \<le> 3 \<and> V (ent V F r fw p)}"

definition tframes :: "(u64 \<Rightarrow> bool) \<Rightarrow> (u64 \<Rightarrow> u64) \<Rightarrow> nat \<Rightarrow> (nat \<Rightarrow> u64) \<Rightarrow> (u64 \<Rightarrow> nat \<Rightarrow> u64) \<Rightarrow> u64 set" where
  "tframes V F n r fw = (\<lambda>p. F (ent V F r fw p)) ` tabs V F n r fw"

text \<open>Every valid entry above the leaf level points to a table (\<open>T\<close>), and no two point to the same one.\<close>

definition pt_wf :: "(u64 \<Rightarrow> bool) \<Rightarrow> (u64 \<Rightarrow> bool) \<Rightarrow> (u64 \<Rightarrow> u64) \<Rightarrow> nat \<Rightarrow> (nat \<Rightarrow> u64) \<Rightarrow> (u64 \<Rightarrow> nat \<Rightarrow> u64) \<Rightarrow> bool" where
  "pt_wf V T F n r fw \<longleftrightarrow> inj_on (\<lambda>p. F (ent V F r fw p)) (tabs V F n r fw) \<and> (\<forall>p\<in>tabs V F n r fw. T (ent V F r fw p))"

definition fset :: "(u64 \<Rightarrow> nat \<Rightarrow> u64) \<Rightarrow> u64 \<Rightarrow> nat \<Rightarrow> u64 \<Rightarrow> u64 \<Rightarrow> nat \<Rightarrow> u64" where
  "fset fw f i v = fw(f := (fw f)(i := v))"

section \<open>Paths\<close>

lemma vpath_Cons: "vpath n (i # p) \<longleftrightarrow> (if p = [] then i < n else i < 512 \<and> length p \<le> 3 \<and> vpath n p)"
  by (auto simp: vpath_def)

lemma ent_Cons: "p \<noteq> [] \<Longrightarrow> ent V F r fw (i # p) = (if V (ent V F r fw p) then fw (F (ent V F r fw p)) i else 0)"
  by (cases p) auto

lemma tabsD: "p \<in> tabs V F n r fw \<Longrightarrow> vpath n p" "p \<in> tabs V F n r fw \<Longrightarrow> length p \<le> 3"
    "p \<in> tabs V F n r fw \<Longrightarrow> V (ent V F r fw p)" "p \<in> tabs V F n r fw \<Longrightarrow> p \<noteq> []"
  by (auto simp: tabs_def vpath_def)

lemma tframesI: "p \<in> tabs V F n r fw \<Longrightarrow> F (ent V F r fw p) \<in> tframes V F n r fw"
  by (simp add: tframes_def)

lemma fset_simps [simp]: "fset fw f i v f i = v" "g \<noteq> f \<Longrightarrow> fset fw f i v g = fw g" "j \<noteq> i \<Longrightarrow> fset fw f i v g j = fw g j"
  by (auto simp: fset_def)

section \<open>Writing an entry of a table\<close>

text \<open>Either a leaf entry, or an entry that was not valid, which now points to a table of zeroes.\<close>

definition installs :: "(u64 \<Rightarrow> bool) \<Rightarrow> (u64 \<Rightarrow> u64) \<Rightarrow> (nat \<Rightarrow> u64) \<Rightarrow> (u64 \<Rightarrow> nat \<Rightarrow> u64) \<Rightarrow> nat list \<Rightarrow> u64 \<Rightarrow> bool" where
  "installs V F r fw q v \<longleftrightarrow> length q = 4 \<or> \<not> V (ent V F r fw q) \<and> (\<forall>j<512. fw (F v) j = 0)"

lemma ent_set:
  assumes wf: "pt_wf V T F n r fw" and V0: "\<not> V 0" and p: "p \<in> tabs V F n r fw" and i: "i < 512"
    and v: "installs V F r fw (i # p) v" "length p < 3 \<Longrightarrow> F v \<noteq> F (ent V F r fw p)"
  shows "vpath n q \<Longrightarrow>
    ent V F r (fset fw (F (ent V F r fw p)) i v) q = (if q = i # p then v else ent V F r fw q)"
proof (induction q)
  case (Cons j q)
  let ?f = "F (ent V F r fw p)" and ?fw = "fset fw (F (ent V F r fw p)) i v"
  show ?case
  proof (cases "q = []")
    case True
    then show ?thesis using tabsD(4) [OF p] by simp
  next
    case False
    then have q: "vpath n q" "j < 512" "length q \<le> 3" using Cons.prems by (auto simp: vpath_Cons)
    note IH = Cons.IH [OF q(1)]
    have e: "ent V F r ?fw (j # q) = (if V (ent V F r ?fw q) then ?fw (F (ent V F r ?fw q)) j else 0)"
      "ent V F r fw (j # q) = (if V (ent V F r fw q) then fw (F (ent V F r fw q)) j else 0)" using False by (simp_all add: ent_Cons)
    show ?thesis
    proof (cases "q = i # p")
      case True
      then have "length p < 3" "\<not> V (ent V F r fw q)" "\<forall>j<512. fw (F v) j = 0" using v(1) q(3) by (auto simp: installs_def)
      moreover have "ent V F r ?fw q = v" "q \<noteq> p" using IH True by simp_all
      ultimately show ?thesis unfolding e using v(2) q(2) by simp
    next
      case other: False
      then have same: "ent V F r ?fw q = ent V F r fw q" using IH by simp
      show ?thesis
      proof (cases "V (ent V F r fw q) \<and> F (ent V F r fw q) = ?f")
        case True
        then have "q \<in> tabs V F n r fw" using q by (simp add: tabs_def)
        then have "q = p" using wf p True by (auto simp: pt_wf_def inj_on_def)
        then show ?thesis unfolding e same using True by (cases "j = i") simp_all
      next
        case False
        then have "V (ent V F r fw q) \<Longrightarrow> ?fw (F (ent V F r fw q)) = fw (F (ent V F r fw q))" by (intro fset_simps(2)) blast
        moreover have "q \<noteq> p" using False tabsD(3) [OF p] by auto
        ultimately show ?thesis unfolding e same by simp
      qed
    qed
  qed
qed (simp add: vpath_def)

lemma ent_set_root:
  assumes "\<not> V 0" "installs V F r fw [i] v"
  shows "vpath n q \<Longrightarrow> ent V F (r(i := v)) fw q = (if q = [i] then v else ent V F r fw q)"
proof (induction q)
  case (Cons j q)
  show ?case
  proof (cases "q = []")
    case False
    then have q: "vpath n q" "j < 512" using Cons.prems by (auto simp: vpath_Cons)
    show ?thesis using Cons.IH [OF q(1)] q(2) False assms by (auto simp: ent_Cons installs_def)
  qed simp
qed (simp add: vpath_def)

section \<open>What a write keeps\<close>

text \<open>The entries of all paths are as before, except at \<open>q\<close>.\<close>

definition ent_upd :: "(u64 \<Rightarrow> bool) \<Rightarrow> (u64 \<Rightarrow> u64) \<Rightarrow> nat \<Rightarrow> (nat \<Rightarrow> u64) \<Rightarrow> (u64 \<Rightarrow> nat \<Rightarrow> u64) \<Rightarrow> nat list \<Rightarrow> u64 \<Rightarrow>
    (nat \<Rightarrow> u64) \<Rightarrow> (u64 \<Rightarrow> nat \<Rightarrow> u64) \<Rightarrow> bool" where
  "ent_upd V F n r fw q v r' fw' \<longleftrightarrow> (\<forall>p. vpath n p \<longrightarrow> ent V F r' fw' p = (if p = q then v else ent V F r fw p))"

lemma ent_upd_leaf:
  assumes "ent_upd V F n r fw q v r' fw'" "length q = 4"
  shows "tabs V F n r' fw' = tabs V F n r fw" "tframes V F n r' fw' = tframes V F n r fw"
    "pt_wf V T F n r' fw' = pt_wf V T F n r fw"
proof -
  have e: "vpath n p \<Longrightarrow> length p \<le> 3 \<Longrightarrow> ent V F r' fw' p = ent V F r fw p" for p
    using assms by (auto simp: ent_upd_def)
  show t: "tabs V F n r' fw' = tabs V F n r fw" using e by (auto simp: tabs_def)
  have e': "p \<in> tabs V F n r fw \<Longrightarrow> ent V F r' fw' p = ent V F r fw p" for p using e by (auto simp: tabs_def)
  show "tframes V F n r' fw' = tframes V F n r fw" using e' by (simp add: tframes_def t cong: image_cong_simp)
  show "pt_wf V T F n r' fw' = pt_wf V T F n r fw" using e' by (simp add: pt_wf_def t inj_on_def)
qed

lemma ent_upd_install:
  assumes u: "ent_upd V F n r fw q v r' fw'" and wf: "pt_wf V T F n r fw"
    and q: "vpath n q" "length q \<le> 3" "\<not> V (ent V F r fw q)" and v: "V v" "T v" "F v \<notin> tframes V F n r fw"
  shows "tabs V F n r' fw' = insert q (tabs V F n r fw)" "tframes V F n r' fw' = insert (F v) (tframes V F n r fw)"
    "pt_wf V T F n r' fw'"
proof -
  have e: "vpath n p \<Longrightarrow> ent V F r' fw' p = (if p = q then v else ent V F r fw p)" for p using u by (simp add: ent_upd_def)
  show t: "tabs V F n r' fw' = insert q (tabs V F n r fw)" using e q v(1) by (auto simp: tabs_def)
  have qn: "q \<notin> tabs V F n r fw" using q(3) by (simp add: tabs_def)
  have e': "ent V F r' fw' q = v" "p \<in> tabs V F n r fw \<Longrightarrow> ent V F r' fw' p = ent V F r fw p" for p
    using e q(1) qn tabsD(1) by auto
  show "tframes V F n r' fw' = insert (F v) (tframes V F n r fw)" using e' by (simp add: tframes_def t cong: image_cong_simp)
  have "inj_on (\<lambda>p. F (ent V F r' fw' p)) (tabs V F n r fw)" using wf e' by (simp add: pt_wf_def inj_on_def)
  then show "pt_wf V T F n r' fw'"
    using wf e' v qn unfolding pt_wf_def t by (auto simp: tframes_def inj_on_insert)
qed

text \<open>Only the root and the frames of the tables matter.\<close>

lemma ent_cong:
  assumes "\<forall>i<n. r' i = r i" "\<forall>f\<in>tframes V F n r fw. \<forall>i<512. fw' f i = fw f i"
  shows "vpath n p \<Longrightarrow> ent V F r' fw' p = ent V F r fw p"
proof (induction p)
  case (Cons i p)
  show ?case
  proof (cases "p = []")
    case True
    then show ?thesis using Cons.prems assms(1) by (simp add: vpath_Cons)
  next
    case False
    then have q: "vpath n p" "i < 512" "length p \<le> 3" using Cons.prems by (auto simp: vpath_Cons)
    have "V (ent V F r fw p) \<Longrightarrow> F (ent V F r fw p) \<in> tframes V F n r fw" using q by (intro tframesI) (simp add: tabs_def)
    then show ?thesis using Cons.IH [OF q(1)] q(2) False assms(2) by (auto simp: ent_Cons)
  qed
qed (simp add: vpath_def)

lemma ent_same:
  assumes "\<And>p. vpath n p \<Longrightarrow> ent V F r' fw' p = ent V F r fw p"
  shows "tabs V F n r' fw' = tabs V F n r fw" "tframes V F n r' fw' = tframes V F n r fw"
    "pt_wf V T F n r' fw' = pt_wf V T F n r fw"
proof -
  show t: "tabs V F n r' fw' = tabs V F n r fw" using assms by (auto simp: tabs_def)
  have e: "p \<in> tabs V F n r fw \<Longrightarrow> ent V F r' fw' p = ent V F r fw p" for p using assms tabsD(1) by blast
  show "tframes V F n r' fw' = tframes V F n r fw" using e by (simp add: tframes_def t cong: image_cong_simp)
  show "pt_wf V T F n r' fw' = pt_wf V T F n r fw" using e by (simp add: pt_wf_def t inj_on_def)
qed

end
