(* ===== verification/Sv48_Walk.thy ===== *)
theory Sv48_Walk
  imports Sv48 Pagetree
begin

text \<open>
  The correctness of the page-table walk. The locale \<open>direct_frames\<close> is what the walk relies on: frames that
  are mapped for good at known addresses, an allocator of zeroed frames, and memory of other kernel objects
  that does not overlap them. \<open>sv48_map\<close> adds where the entries of the top level are: in the root frame for the
  current mapping, in an array for a user mapping. In it the walk is shown to leave every leaf entry as it is,
  to create only missing tables, and to return the place of the leaf entry.
\<close>

section \<open>Vocabulary of the proofs\<close>

definition vp :: "u64 \<Rightarrow> nat list" where
  "vp va = [unat (L1OFF va), unat (L2OFF va), unat (L3OFF va), unat (L4OFF va)]"

definition l4v :: "'s pfn_ops \<Rightarrow> (nat \<Rightarrow> vaddr_t) \<Rightarrow> 's \<Rightarrow> nat \<Rightarrow> u64" where
  "l4v M lp s i = mem_ld M (lp i) s"

abbreviation rent :: "(nat \<Rightarrow> u64) \<Rightarrow> (u64 \<Rightarrow> nat \<Rightarrow> u64) \<Rightarrow> nat list \<Rightarrow> u64" where
  "rent \<equiv> ent pte_valid pte_pfn"

abbreviation rtabs :: "nat \<Rightarrow> (nat \<Rightarrow> u64) \<Rightarrow> (u64 \<Rightarrow> nat \<Rightarrow> u64) \<Rightarrow> nat list set" where
  "rtabs \<equiv> tabs pte_valid pte_pfn"

abbreviation rframes :: "nat \<Rightarrow> (nat \<Rightarrow> u64) \<Rightarrow> (u64 \<Rightarrow> nat \<Rightarrow> u64) \<Rightarrow> u64 set" where
  "rframes \<equiv> tframes pte_valid pte_pfn"

abbreviation rwf :: "nat \<Rightarrow> (nat \<Rightarrow> u64) \<Rightarrow> (u64 \<Rightarrow> nat \<Rightarrow> u64) \<Rightarrow> bool" where
  "rwf \<equiv> pt_wf pte_valid pte_valid_table pte_pfn"

text \<open>The part of the walk below the top level, at one level: the entry at \<open>ptep\<close>, or a new table there.\<close>

definition level_step :: "'s pfn_ops \<Rightarrow> ptep_t \<Rightarrow> u64 \<Rightarrow> bool \<Rightarrow> 's \<Rightarrow> (pfn_t \<times> 's) option" where
  "level_step M ptep va alloc s =
     do { (e, s) \<leftarrow> get_pte M ptep s;
          if \<not> pte_valid e
          then if \<not> alloc then Some (PFN_INVALID, s)
               else do { (e, s) \<leftarrow> alloc_table M s;
                         if e = PTE_INVALID then Some (PFN_INVALID, s)
                         else do { (_, s) \<leftarrow> set_pte M ptep e s;
                                   let s = inv_page M va s;
                                   if pte_valid_table e then Some (pte_pfn e, s) else None } }
          else if pte_valid_table e then Some (pte_pfn e, s) else None }"

text \<open>A mapping in good order: the tables are a tree of distinct frames, none of them free and none of them
  foreign (\<open>Fr\<close>: the frame that holds the top level).\<close>

definition map_ok :: "'s pfn_ops \<Rightarrow> ('s \<Rightarrow> u64 \<Rightarrow> nat \<Rightarrow> u64) \<Rightarrow> ('s \<Rightarrow> u64 set) \<Rightarrow> (u64 \<Rightarrow> bool) \<Rightarrow> ('s \<Rightarrow> bool) \<Rightarrow>
    (nat \<Rightarrow> vaddr_t) \<Rightarrow> nat \<Rightarrow> u64 set \<Rightarrow> 's \<Rightarrow> bool" where
  "map_ok M fw avail isf minv lp n Fr s \<longleftrightarrow> minv s \<and> rwf n (l4v M lp s) (fw s) \<and>
     (\<forall>f\<in>rframes n (l4v M lp s) (fw s). isf f \<and> f \<notin> avail s \<and> f \<notin> Fr)"

text \<open>From \<open>s\<close> to \<open>s'\<close> the mapping has at most grown tables: no leaf entry is different, existing tables are
  where they were, new ones come from the free frames, and all other memory is as it was.\<close>

definition map_grow :: "'s pfn_ops \<Rightarrow> ('s \<Rightarrow> u64 \<Rightarrow> nat \<Rightarrow> u64) \<Rightarrow> ('s \<Rightarrow> u64 set) \<Rightarrow> (vaddr_t \<Rightarrow> bool) \<Rightarrow>
    (nat \<Rightarrow> vaddr_t) \<Rightarrow> nat \<Rightarrow> u64 set \<Rightarrow> 's \<Rightarrow> 's \<Rightarrow> bool" where
  "map_grow M fw avail isk lp n Fr s s' \<longleftrightarrow>
     (\<forall>p. vpath n p \<longrightarrow> length p = 4 \<longrightarrow> rent (l4v M lp s') (fw s') p = rent (l4v M lp s) (fw s) p) \<and>
     (\<forall>p\<in>rtabs n (l4v M lp s) (fw s). rent (l4v M lp s') (fw s') p = rent (l4v M lp s) (fw s) p) \<and>
     avail s' \<subseteq> avail s \<and> rframes n (l4v M lp s') (fw s') \<subseteq> rframes n (l4v M lp s) (fw s) \<union> avail s \<and>
     (\<forall>f. f \<notin> avail s \<and> f \<notin> rframes n (l4v M lp s) (fw s) \<and> f \<notin> Fr \<longrightarrow> fw s' f = fw s f) \<and>
     (\<forall>a. isk a \<and> a \<notin> lp ` {..<n} \<longrightarrow> mem_ld M a s' = mem_ld M a s)"

text \<open>The outcome of a walk to the table at path \<open>q\<close>.\<close>

definition walked :: "nat \<Rightarrow> (nat \<Rightarrow> u64) \<Rightarrow> (u64 \<Rightarrow> nat \<Rightarrow> u64) \<Rightarrow> nat list \<Rightarrow> pfn_t \<Rightarrow> bool" where
  "walked n r fw q g \<longleftrightarrow>
     (if g = PFN_INVALID then \<not> pte_valid (rent r fw q) else q \<in> rtabs n r fw \<and> g = pte_pfn (rent r fw q))"

text \<open>The leaf entry of an address in the mapping whose top-level entries are at \<open>lp\<close>, and where it is.\<close>

definition leaf :: "'s pfn_ops \<Rightarrow> ('s \<Rightarrow> u64 \<Rightarrow> nat \<Rightarrow> u64) \<Rightarrow> (nat \<Rightarrow> vaddr_t) \<Rightarrow> 's \<Rightarrow> vaddr_t \<Rightarrow> u64" where
  "leaf M fw lp s va = rent (l4v M lp s) (fw s) (vp va)"

definition leaf_at :: "'s pfn_ops \<Rightarrow> ('s \<Rightarrow> u64 \<Rightarrow> nat \<Rightarrow> u64) \<Rightarrow> (nat \<Rightarrow> vaddr_t) \<Rightarrow> nat \<Rightarrow> 's \<Rightarrow> vaddr_t \<Rightarrow> u64 \<Rightarrow> bool" where
  "leaf_at M fw lp n s va p \<longleftrightarrow> tl (vp va) \<in> rtabs n (l4v M lp s) (fw s) \<and>
     p = mkptep (pte_pfn (rent (l4v M lp s) (fw s) (tl (vp va)))) (ucast (L1OFF va))"

section \<open>Parts of addresses\<close>

lemma off_less: "unat (L1OFF va) < 512" "unat (L2OFF va) < 512" "unat (L3OFF va) < 512" "unat (L4OFF va) < 512"
proof -
  have m: "unat (w AND 0x1ff) < 512" for w :: u64
  proof -
    have "(0x1ff :: u64) = mask 9" by (simp add: mask_numeral)
    then have "unat (w AND 0x1ff) = unat w mod 2 ^ 9" by (simp only: unat_and_mask)
    then show ?thesis by simp
  qed
  show "unat (L1OFF va) < 512" "unat (L2OFF va) < 512" "unat (L3OFF va) < 512" "unat (L4OFF va) < 512"
    by (simp_all only: L1OFF_def L2OFF_def L3OFF_def L4OFF_def m)
qed

lemma vpath_vp: "unat (L4OFF va) < n \<Longrightarrow> vpath n (vp va) \<and> vpath n (tl (vp va)) \<and> vpath n (tl (tl (vp va))) \<and> vpath n [unat (L4OFF va)]"
  using off_less [of va] by (simp add: vpath_def vp_def)

lemma ucast_up_down: "ucast (ucast x :: u64) = x" for x :: u32
  by (rule bit_word_eqI) (simp add: bit_ucast_iff)

lemma mkptep_parts:
  assumes "unat f < 2 ^ 52" "unat off < 512"
  shows "drop_bit 12 (mkptep f off) = f" "drop_bit 3 (mkptep f off) AND 0x1ff = ucast off" "f \<noteq> 0 \<Longrightarrow> mkptep f off \<noteq> 0"
proof -
  have off: "\<not> bit off j" if "9 \<le> j" for j using not_bit_ge [of off 9 j] assms(2) that by simp
  have f: "\<not> bit f j" if "52 \<le> j" for j using not_bit_ge [OF assms(1), of j] that by simp
  have b: "bit (mkptep f off) j \<longleftrightarrow> 12 \<le> j \<and> j < 64 \<and> bit f (j - 12) \<or> 3 \<le> j \<and> bit off (j - 3)" for j
    unfolding mkptep_def using off [of "j - 3"] by (cases "9 \<le> j - 3") (auto simp: bit_or_iff bit_push_bit_iff bit_ucast_iff dest: bit_imp_le_length)
  show d: "drop_bit 12 (mkptep f off) = f"
    by (rule bit_word_eqI) (use f off in \<open>auto simp: bit_drop_bit_eq b not_le [symmetric]\<close>)
  have m: "bit (0x1ff :: u64) j \<longleftrightarrow> j < 9" for j
  proof -
    have "(0x1ff :: u64) = mask 9" by (simp add: mask_numeral)
    then show ?thesis by (simp only: bit_mask_iff) auto
  qed
  show "drop_bit 3 (mkptep f off) AND 0x1ff = ucast off"
  proof (rule bit_word_eqI)
    fix j
    show "bit (drop_bit 3 (mkptep f off) AND 0x1ff) j = bit (ucast off :: u64) j" if "j < LENGTH(64)"
      unfolding bit_and_iff bit_drop_bit_eq comp_def b m bit_ucast_iff using off [of j] that by (cases "9 \<le> j") auto
  qed
  show "f \<noteq> 0 \<Longrightarrow> mkptep f off \<noteq> 0" using d by auto
qed

section \<open>Directly mapped frames\<close>

locale direct_frames =
  fixes M :: "'s pfn_ops"
    and fw :: "'s \<Rightarrow> u64 \<Rightarrow> nat \<Rightarrow> u64"
    and avail :: "'s \<Rightarrow> u64 set"
    and isf :: "u64 \<Rightarrow> bool"
    and fva :: "u64 \<Rightarrow> vaddr_t"
    and root :: u64
    and minv :: "'s \<Rightarrow> bool"
    and isk :: "vaddr_t \<Rightarrow> bool"
  assumes get_frame: "minv s \<Longrightarrow> isf f \<Longrightarrow> op_get M f s = Some (fva f, s)"
    and put_frame: "minv s \<Longrightarrow> isf f \<Longrightarrow> op_put M f va s = Some s"
    and frame_small: "isf f \<Longrightarrow> f \<noteq> 0 \<and> unat f < 2 ^ 52"
    and ld_frame: "isf f \<Longrightarrow> i < 512 \<Longrightarrow> mem_ld M (fva f + 8 * of_nat i) s = fw s f i"
    and st_frame: "isf f \<Longrightarrow> i < 512 \<Longrightarrow> minv s \<Longrightarrow> s' = mem_st M (fva f + 8 * of_nat i) v s \<Longrightarrow>
      minv s' \<and> fw s' = fset (fw s) f i v \<and> avail s' = avail s \<and> (\<forall>a. isk a \<longrightarrow> mem_ld M a s' = mem_ld M a s)"
    and root_frame: "minv s \<Longrightarrow> get_cpumap_l4pfn M s = root" "isf root" "minv s \<Longrightarrow> root \<notin> avail s"
    and avail_frames: "minv s \<Longrightarrow> f \<in> avail s \<Longrightarrow> isf f"
    and alloc_frame: "minv s \<Longrightarrow> \<exists>f s'. op_alloc M low s = Some (f, s') \<and> minv s' \<and>
      (\<forall>a. isk a \<longrightarrow> mem_ld M a s' = mem_ld M a s) \<and>
      (if avail s = {} then f = PFN_INVALID \<and> fw s' = fw s \<and> avail s' = {}
       else f \<in> avail s \<and> fw s' = (fw s)(f := (\<lambda>_. 0)) \<and> avail s' = avail s - {f})"
    and free_frame: "minv s \<Longrightarrow> isf f \<Longrightarrow> f \<noteq> root \<Longrightarrow> f \<notin> avail s \<Longrightarrow> \<exists>s'. op_free M f s = Some s' \<and> minv s' \<and>
      fw s' = fw s \<and> avail s' = insert f (avail s) \<and> (\<forall>a. isk a \<longrightarrow> mem_ld M a s' = mem_ld M a s)"
    and inval_page: "minv s \<Longrightarrow> s' = inv_page M va s \<Longrightarrow>
      minv s' \<and> fw s' = fw s \<and> avail s' = avail s \<and> (\<forall>a. isk a \<longrightarrow> mem_ld M a s' = mem_ld M a s)"
    and st_other: "isk a \<Longrightarrow> minv s \<Longrightarrow> s' = mem_st M a v s \<Longrightarrow>
      minv s' \<and> fw s' = fw s \<and> avail s' = avail s \<and> (\<forall>b. isk b \<longrightarrow> mem_ld M b s' = (if b = a then v else mem_ld M b s))"
begin

lemma frame_not_invalid: "isf f \<Longrightarrow> f \<noteq> PFN_INVALID"
  using frame_small [of f] by auto

lemma get_pte_frame:
  assumes "isf f" "unat off < 512" "minv s"
  shows "get_pte M (mkptep f off) s = Some (fw s f (unat off), s)"
proof -
  have "ucast off = (of_nat (unat off) :: u64)" by simp
  then show ?thesis
    using mkptep_parts [of f off] frame_small [OF assms(1)] assms ld_frame [OF assms(1,2), of s]
    by (simp add: get_pte_def get_frame put_frame Let_def ucast_up_down)
qed

lemma set_pte_frame:
  assumes "isf f" "unat off < 512" "minv s"
  shows "\<exists>s'. set_pte M (mkptep f off) v s = Some (fw s f (unat off), s') \<and>
    minv s' \<and> fw s' = fset (fw s) f (unat off) v \<and> avail s' = avail s \<and> (\<forall>a. isk a \<longrightarrow> mem_ld M a s' = mem_ld M a s)"
proof -
  have "ucast off = (of_nat (unat off) :: u64)" by simp
  then show ?thesis
    using mkptep_parts [of f off] frame_small [OF assms(1)] assms ld_frame [OF assms(1,2), of s]
      st_frame [OF assms refl, of v]
    by (simp add: set_pte_def get_frame put_frame Let_def ucast_up_down)
qed

lemma alloc_table_cases:
  assumes "minv s"
  obtains s' where "alloc_table M s = Some (0, s')" "minv s'" "fw s' = fw s" "avail s = {}" "avail s' = {}"
      "\<forall>a. isk a \<longrightarrow> mem_ld M a s' = mem_ld M a s"
  | f s' where "alloc_table M s = Some (mkpte f 1, s')" "minv s'" "f \<in> avail s" "isf f" "fw s' = (fw s)(f := (\<lambda>_. 0))"
      "avail s' = avail s - {f}" "\<forall>a. isk a \<longrightarrow> mem_ld M a s' = mem_ld M a s"
proof -
  obtain f s' where a: "op_alloc M False s = Some (f, s')" "minv s'" "\<forall>a. isk a \<longrightarrow> mem_ld M a s' = mem_ld M a s"
      "if avail s = {} then f = PFN_INVALID \<and> fw s' = fw s \<and> avail s' = {}
       else f \<in> avail s \<and> fw s' = (fw s)(f := (\<lambda>_. 0)) \<and> avail s' = avail s - {f}"
    using alloc_frame [OF assms, of False] by blast
  show thesis
  proof (cases "avail s = {}")
    case True
    then show thesis using that(1) a by (simp add: alloc_table_def)
  next
    case False
    then have "isf f" using a(4) avail_frames [OF assms] by simp
    then show thesis using that(2) [of f s'] a False frame_not_invalid by (simp add: alloc_table_def)
  qed
qed

end

section \<open>The walk\<close>

locale sv48_map = direct_frames +
  fixes lp :: "nat \<Rightarrow> vaddr_t" and n :: nat and Fr :: "u64 set"
  assumes n_le: "n \<le> 512"
    and lp_st: "i < n \<Longrightarrow> minv s \<Longrightarrow> s' = mem_st M (lp i) v s \<Longrightarrow> minv s' \<and> avail s' = avail s \<and>
      (\<forall>j<n. mem_ld M (lp j) s' = (if j = i then v else mem_ld M (lp j) s)) \<and> (\<forall>f. f \<notin> Fr \<longrightarrow> fw s' f = fw s f) \<and>
      (\<forall>a. isk a \<and> a \<notin> lp ` {..<n} \<longrightarrow> mem_ld M a s' = mem_ld M a s)"
    and lp_keep: "j < n \<Longrightarrow> \<forall>f\<in>Fr. fw s' f = fw s f \<Longrightarrow> \<forall>a. isk a \<longrightarrow> mem_ld M a s' = mem_ld M a s \<Longrightarrow>
      mem_ld M (lp j) s' = mem_ld M (lp j) s"
    and Fr_avail: "minv s \<Longrightarrow> Fr \<inter> avail s = {}"
begin

abbreviation ok :: "'a \<Rightarrow> bool" where
  "ok \<equiv> map_ok M fw avail isf minv lp n Fr"

abbreviation grow :: "'a \<Rightarrow> 'a \<Rightarrow> bool" where
  "grow \<equiv> map_grow M fw avail isk lp n Fr"

abbreviation E :: "'a \<Rightarrow> nat list \<Rightarrow> u64" where
  "E s \<equiv> rent (l4v M lp s) (fw s)"

abbreviation Tb :: "'a \<Rightarrow> nat list set" where
  "Tb s \<equiv> rtabs n (l4v M lp s) (fw s)"

abbreviation Tf :: "'a \<Rightarrow> u64 set" where
  "Tf s \<equiv> rframes n (l4v M lp s) (fw s)"

lemma okD: "ok s \<Longrightarrow> minv s" "ok s \<Longrightarrow> rwf n (l4v M lp s) (fw s)"
    "ok s \<Longrightarrow> f \<in> Tf s \<Longrightarrow> isf f" "ok s \<Longrightarrow> f \<in> Tf s \<Longrightarrow> f \<notin> avail s" "ok s \<Longrightarrow> f \<in> Tf s \<Longrightarrow> f \<notin> Fr"
  by (auto simp: map_ok_def)

lemma tab_table: "ok s \<Longrightarrow> p \<in> Tb s \<Longrightarrow> pte_valid_table (E s p)"
  by (auto simp: map_ok_def pt_wf_def)

lemma tab_frame: "ok s \<Longrightarrow> p \<in> Tb s \<Longrightarrow> isf (pte_pfn (E s p)) \<and> pte_pfn (E s p) \<notin> avail s \<and> pte_pfn (E s p) \<notin> Fr"
  using tframesI [of p pte_valid pte_pfn n "l4v M lp s" "fw s"] by (auto simp: map_ok_def)

lemma grow_refl: "grow s s"
  by (auto simp: map_grow_def)

lemma growD:
  assumes "grow s s'"
  shows "vpath n p \<Longrightarrow> length p = 4 \<Longrightarrow> E s' p = E s p" "p \<in> Tb s \<Longrightarrow> E s' p = E s p" "p \<in> Tb s \<Longrightarrow> p \<in> Tb s'"
    "avail s' \<subseteq> avail s" "Tf s' \<subseteq> Tf s \<union> avail s"
    "f \<notin> avail s \<Longrightarrow> f \<notin> Tf s \<Longrightarrow> f \<notin> Fr \<Longrightarrow> fw s' f = fw s f"
    "isk a \<Longrightarrow> a \<notin> lp ` {..<n} \<Longrightarrow> mem_ld M a s' = mem_ld M a s"
proof -
  show e: "p \<in> Tb s \<Longrightarrow> E s' p = E s p" for p using assms by (simp add: map_grow_def)
  then show "p \<in> Tb s \<Longrightarrow> p \<in> Tb s'" using e [of p] by (auto simp: tabs_def)
qed (use assms in \<open>simp_all add: map_grow_def\<close>)

lemma grow_trans:
  assumes a: "grow s s'" and b: "grow s' s''"
  shows "grow s s''"
  unfolding map_grow_def
proof (intro conjI allI impI ballI)
  fix p assume "vpath n p" "length p = 4"
  then show "E s'' p = E s p" using growD(1) [OF a] growD(1) [OF b] by simp
next
  fix p assume "p \<in> Tb s"
  then show "E s'' p = E s p" using growD(2,3) [OF a] growD(2) [OF b] by simp
next
  show "avail s'' \<subseteq> avail s" using growD(4) [OF a] growD(4) [OF b] by simp
next
  show "Tf s'' \<subseteq> Tf s \<union> avail s" using growD(4,5) [OF a] growD(5) [OF b] by blast
next
  fix f assume "f \<notin> avail s \<and> f \<notin> Tf s \<and> f \<notin> Fr"
  then show "fw s'' f = fw s f" using growD(6) [OF a, of f] growD(6) [OF b, of f] growD(4,5) [OF a] by auto
next
  fix a' assume "isk a' \<and> a' \<notin> lp ` {..<n}"
  then show "mem_ld M a' s'' = mem_ld M a' s" using growD(7) [OF a] growD(7) [OF b] by simp
qed

lemma E_same:
  assumes "\<forall>p. vpath n p \<longrightarrow> rent r' fw' p = E s p"
  shows "rtabs n r' fw' = Tb s" "rframes n r' fw' = Tf s" "rwf n r' fw' = rwf n (l4v M lp s) (fw s)"
  using assms by (simp_all add: ent_same [of n pte_valid pte_pfn r' fw' "l4v M lp s" "fw s"])

text \<open>Memory that no table of the mapping lies in has changed.\<close>

lemma ok_keep:
  assumes "ok s" "minv s'" "\<forall>f\<in>Tf s. fw s' f = fw s f" "\<forall>j<n. mem_ld M (lp j) s' = mem_ld M (lp j) s"
    "avail s' \<subseteq> avail s" "\<forall>f. f \<notin> avail s \<longrightarrow> fw s' f = fw s f" "\<forall>a. isk a \<longrightarrow> mem_ld M a s' = mem_ld M a s"
  shows "ok s'" "grow s s'" "vpath n p \<Longrightarrow> E s' p = E s p" "Tb s' = Tb s" "Tf s' = Tf s"
proof -
  have e: "vpath n p \<Longrightarrow> E s' p = E s p" for p
    by (rule ent_cong) (use assms(3,4) in \<open>auto simp: l4v_def\<close>)
  have "\<forall>p. vpath n p \<longrightarrow> E s' p = E s p" using e by blast
  note S = E_same [OF this]
  show "vpath n p \<Longrightarrow> E s' p = E s p" by (fact e)
  show "Tb s' = Tb s" by (fact S(1))
  show "Tf s' = Tf s" by (fact S(2))
  show "ok s'" using assms(1,2,5) S(2) S(3) by (auto simp: map_ok_def)
  show "grow s s'" using e assms(5,6,7) S(2) tabsD(1) by (auto simp: map_grow_def)
qed

text \<open>A new table is linked at the path \<open>q\<close>, which led nowhere.\<close>

lemma link_table:
  assumes ok: "ok s" and q: "vpath n q" "length q \<le> 3" "\<not> pte_valid (E s q)"
    and g: "g \<in> avail s" "isf g" and s': "minv s'" "avail s' = avail s - {g}"
    and u: "ent_upd pte_valid pte_pfn n (l4v M lp s) (fw s) q (mkpte g 1) (l4v M lp s') (fw s')"
    and k: "\<forall>f. f \<notin> avail s \<and> f \<notin> Tf s \<and> f \<notin> Fr \<longrightarrow> fw s' f = fw s f" "\<forall>a. isk a \<and> a \<notin> lp ` {..<n} \<longrightarrow> mem_ld M a s' = mem_ld M a s"
  shows "ok s' \<and> grow s s' \<and> q \<in> Tb s' \<and> E s' q = mkpte g 1"
proof -
  have F: "pte_pfn (mkpte g 1) = g" using mkpte_pfn [of g] frame_small [OF g(2)] by simp
  have gn: "g \<notin> Tf s" using okD(4) [OF ok] g(1) by blast
  note I = ent_upd_install [OF u okD(2) [OF ok] q pte_table_valid [OF mkpte_table(1)] mkpte_table(1), unfolded F, OF gn]
  have "g \<notin> Fr" using Fr_avail [OF okD(1) [OF ok]] g(1) by blast
  then have "ok s'" using s' I(2,3) g(2) okD(3-5) [OF ok] unfolding map_ok_def by auto
  moreover have e: "vpath n p \<Longrightarrow> E s' p = (if p = q then mkpte g 1 else E s p)" for p using u by (simp add: ent_upd_def)
  have "grow s s'"
    unfolding map_grow_def using k
  proof (intro conjI allI impI ballI)
    fix p assume "vpath n p" "length p = 4"
    then show "E s' p = E s p" using e q(2) by auto
  next
    fix p assume "p \<in> Tb s"
    then show "E s' p = E s p" using e [of p] q(3) by (auto simp: tabs_def)
  qed (use s'(2) I(2) g(1) in auto)
  ultimately show ?thesis using I(1) e [OF q(1)] by simp
qed

lemma level_link:
  assumes ok: "ok s" and p: "p \<in> Tb s" "length p < 3" and i: "unat off < 512" and nv: "\<not> pte_valid (E s (unat off # p))"
    and s1: "minv s1" "g \<in> avail s" "isf g" "fw s1 = (fw s)(g := (\<lambda>_. 0))" "avail s1 = avail s - {g}"
      "\<forall>a. isk a \<longrightarrow> mem_ld M a s1 = mem_ld M a s"
  shows "\<exists>old s2. set_pte M (mkptep (pte_pfn (E s p)) off) (mkpte g 1) s1 = Some (old, s2) \<and>
    (\<forall>s'. s' = inv_page M va s2 \<longrightarrow> ok s' \<and> grow s s' \<and> unat off # p \<in> Tb s' \<and> E s' (unat off # p) = mkpte g 1 \<and> avail s' = avail s - {g})"
proof -
  let ?f = "pte_pfn (E s p)" and ?i = "unat off" and ?q = "unat off # p"
  note F = tab_frame [OF ok p(1)]
  have gf: "g \<noteq> ?f" "g \<notin> Fr" "g \<notin> Tf s" using F s1(2) Fr_avail [OF okD(1) [OF ok]] okD(4) [OF ok] by auto
  obtain s2 where s2: "set_pte M (mkptep ?f off) (mkpte g 1) s1 = Some (fw s1 ?f ?i, s2)" "minv s2"
      "fw s2 = fset (fw s1) ?f ?i (mkpte g 1)" "avail s2 = avail s1" "\<forall>a. isk a \<longrightarrow> mem_ld M a s2 = mem_ld M a s1"
    using set_pte_frame [OF _ i s1(1)] F by blast
  have q: "vpath n ?q" "length ?q \<le> 3" using p i tabsD [OF p(1)] by (auto simp: vpath_Cons)
  have "ok s' \<and> grow s s' \<and> ?q \<in> Tb s' \<and> E s' ?q = mkpte g 1 \<and> avail s' = avail s - {g}" if s': "s' = inv_page M va s2" for s'
  proof -
    note V = inval_page [OF s2(2) s']
    have fw': "fw s' = fset (fw s1) ?f ?i (mkpte g 1)" and av: "avail s' = avail s - {g}" using V s2 s1 by simp_all
    have isk': "\<forall>a. isk a \<longrightarrow> mem_ld M a s' = mem_ld M a s" using V s2(5) s1(6) by simp
    have Fr': "\<forall>f\<in>Fr. fw s' f = fw s f" using fw' s1(4) F gf by (auto simp: fset_def)
    have l4v': "l4v M lp s' j = l4v M lp s j" if "j < n" for j using lp_keep [OF that Fr' isk'] by (simp add: l4v_def)
    have e1: "vpath n r \<Longrightarrow> rent (l4v M lp s') (fw s1) r = E s r" for r
      by (rule ent_cong) (use l4v' s1(4) gf in auto)
    have "\<forall>r. vpath n r \<longrightarrow> rent (l4v M lp s') (fw s1) r = E s r" using e1 by blast
    note S = E_same [OF this]
    have p1: "p \<in> rtabs n (l4v M lp s') (fw s1)" "rent (l4v M lp s') (fw s1) p = E s p" using S(1) p(1) e1 tabsD(1) [OF p(1)] by auto
    have inst: "installs pte_valid pte_pfn (l4v M lp s') (fw s1) ?q (mkpte g 1)" "pte_pfn (mkpte g 1) = g"
      using nv e1 [OF q(1)] s1(4) mkpte_pfn [of g] frame_small [OF s1(3)] by (auto simp: installs_def)
    have "ent_upd pte_valid pte_pfn n (l4v M lp s) (fw s) ?q (mkpte g 1) (l4v M lp s') (fw s')"
      using ent_set [OF S(3) [THEN iffD2, OF okD(2) [OF ok]] _ p1(1) i inst(1)] p1(2) inst(2) gf(1) e1 fw'
      by (simp add: ent_upd_def)
    moreover have "\<forall>f. f \<notin> avail s \<and> f \<notin> Tf s \<and> f \<notin> Fr \<longrightarrow> fw s' f = fw s f"
      using fw' s1(2,4) tframesI [OF p(1)] by (auto simp: fset_def)
    ultimately show ?thesis using link_table [OF ok q nv s1(2,3) _ av] V isk' av by blast
  qed
  then show ?thesis using s2(1) by blast
qed

text \<open>Nothing was allocated: the state is as good as the old one.\<close>

lemma no_memory:
  assumes "ok s" "minv s'" "fw s' = fw s" "avail s = {}" "avail s' = {}" "\<forall>a. isk a \<longrightarrow> mem_ld M a s' = mem_ld M a s"
  shows "ok s' \<and> grow s s' \<and> (\<forall>p. vpath n p \<longrightarrow> E s' p = E s p)"
  using ok_keep [OF assms(1,2) _ _ _ _ assms(6)] lp_keep [OF _ _ assms(6)] assms(3-5) by simp

lemma ent_below: "p \<in> Tb s \<Longrightarrow> E s (i # p) = fw s (pte_pfn (E s p)) i"
  using tabsD(3,4) [of p pte_valid pte_pfn n "l4v M lp s" "fw s"] by (simp add: ent_Cons)

lemma level_step_ok:
  assumes ok: "ok s" and p: "p \<in> Tb s" "length p < 3" and i: "unat off < 512"
  shows "\<exists>g s'. level_step M (mkptep (pte_pfn (E s p)) off) va alloc s = Some (g, s') \<and> ok s' \<and> grow s s' \<and>
    walked n (l4v M lp s') (fw s') (unat off # p) g \<and> (\<not> alloc \<longrightarrow> s' = s) \<and> (alloc \<and> g = PFN_INVALID \<longrightarrow> avail s' = {})"
proof -
  let ?f = "pte_pfn (E s p)" and ?q = "unat off # p"
  note F = tab_frame [OF ok p(1)]
  have q: "vpath n ?q" "length ?q \<le> 3" using p i tabsD [OF p(1)] by (auto simp: vpath_Cons)
  have g: "get_pte M (mkptep ?f off) s = Some (E s ?q, s)" using get_pte_frame [OF _ i okD(1) [OF ok]] F ent_below [OF p(1)] by simp
  show ?thesis
  proof (cases "pte_valid (E s ?q)")
    case True
    then have t: "?q \<in> Tb s" using q by (simp add: tabs_def)
    then have "pte_pfn (E s ?q) \<noteq> PFN_INVALID" "pte_valid_table (E s ?q)"
      using tab_frame [OF ok t] frame_not_invalid tab_table [OF ok t] by auto
    then show ?thesis using g True ok grow_refl t by (simp add: level_step_def walked_def)
  next
    case nv: False
    show ?thesis
    proof (cases alloc)
      case False
      then show ?thesis using g nv ok grow_refl by (simp add: level_step_def walked_def)
    next
      case True
      from okD(1) [OF ok] show ?thesis
      proof (cases rule: alloc_table_cases)
        case (1 s')
        then show ?thesis using no_memory [OF ok 1(2,3,4,5,6)] g nv True q(1) by (simp add: level_step_def walked_def)
      next
        case (2 h s1)
        obtain old s2 where s2: "set_pte M (mkptep ?f off) (mkpte h 1) s1 = Some (old, s2)"
          "\<And>s'. s' = inv_page M va s2 \<Longrightarrow> ok s' \<and> grow s s' \<and> ?q \<in> Tb s' \<and> E s' ?q = mkpte h 1"
          using level_link [OF ok p i nv 2(2,3,4,5,6,7)] by blast
        have "pte_pfn (mkpte h 1) = h" "h \<noteq> PFN_INVALID"
          using mkpte_pfn [of h] frame_small [OF 2(4)] frame_not_invalid [OF 2(4)] by auto
        then show ?thesis using s2(2) [OF refl] g nv True 2(1) s2(1) mkpte_table [of h] by (simp add: level_step_def walked_def)
      qed
    qed
  qed
qed

lemma root_link:
  assumes ok: "ok s" and i: "i < n" and nv: "\<not> pte_valid (E s [i])"
    and s1: "minv s1" "g \<in> avail s" "isf g" "fw s1 = (fw s)(g := (\<lambda>_. 0))" "avail s1 = avail s - {g}"
      "\<forall>a. isk a \<longrightarrow> mem_ld M a s1 = mem_ld M a s"
    and s': "s' = inv_page M va (mem_st M (lp i) (mkpte g 1) s1)"
  shows "ok s' \<and> grow s s' \<and> [i] \<in> Tb s' \<and> E s' [i] = mkpte g 1"
proof -
  let ?s2 = "mem_st M (lp i) (mkpte g 1) s1"
  have gf: "g \<notin> Fr" "g \<notin> Tf s" using s1(2) Fr_avail [OF okD(1) [OF ok]] okD(4) [OF ok] by auto
  note S = lp_st [OF i s1(1) refl, of "mkpte g 1"]
  note V = inval_page [OF _ s'] 
  have inv2: "minv ?s2" using S by simp
  have fr: "\<forall>f. f \<notin> Fr \<longrightarrow> fw s' f = fw s1 f" "minv s'" "avail s' = avail s - {g}" using V [OF inv2] S s1(5) by auto
  have l1: "l4v M lp s1 j = l4v M lp s j" if "j < n" for j
    using lp_keep [OF that _ s1(6)] s1(4) gf by (simp add: l4v_def)
  have lv2: "l4v M lp s' j = ((l4v M lp s)(i := mkpte g 1)) j" if "j < n" for j
    using lp_keep [OF that, of ?s2 s'] V [OF inv2] S l1 [OF that] that by (cases "j = i") (simp_all add: l4v_def)
  have tf: "\<forall>f\<in>Tf s. f \<notin> Fr \<and> f \<noteq> g" using okD(5) [OF ok] gf by blast
  have q: "vpath n [i]" using i by (simp add: vpath_def)
  have e1: "vpath n p \<Longrightarrow> rent (l4v M lp s) (fw s1) p = E s p" for p
    by (rule ent_cong) (use s1(4) gf in auto)
  have F: "pte_pfn (mkpte g 1) = g" using mkpte_pfn [of g] frame_small [OF s1(3)] by simp
  have inst: "installs pte_valid pte_pfn (l4v M lp s) (fw s1) [i] (mkpte g 1)"
    using nv e1 [OF q] s1(4) F by (auto simp: installs_def)
  have e2: "vpath n p \<Longrightarrow> rent ((l4v M lp s)(i := mkpte g 1)) (fw s1) p = (if p = [i] then mkpte g 1 else E s p)" for p
    using ent_set_root [OF _ inst] e1 by simp
  have "\<forall>f\<in>rframes n ((l4v M lp s)(i := mkpte g 1)) (fw s1). \<forall>j<512. fw s' f j = fw s1 f j"
  proof -
    have "rframes n ((l4v M lp s)(i := mkpte g 1)) (fw s1) \<subseteq> insert g (Tf s)"
      using e2 F by (auto simp: tframes_def tabs_def split: if_splits)
    then show ?thesis using fr(1) tf gf(1) by auto
  qed
  then have "vpath n p \<Longrightarrow> E s' p = (if p = [i] then mkpte g 1 else E s p)" for p
    using ent_cong [of n "l4v M lp s'" "(l4v M lp s)(i := mkpte g 1)" pte_valid pte_pfn "fw s1" "fw s'" p] lv2 e2 by simp
  then have "ent_upd pte_valid pte_pfn n (l4v M lp s) (fw s) [i] (mkpte g 1) (l4v M lp s') (fw s')" by (simp add: ent_upd_def)
  moreover have "\<forall>f. f \<notin> avail s \<and> f \<notin> Tf s \<and> f \<notin> Fr \<longrightarrow> fw s' f = fw s f" using fr(1) s1(2,4) by auto
  moreover have "\<forall>a. isk a \<and> a \<notin> lp ` {..<n} \<longrightarrow> mem_ld M a s' = mem_ld M a s" using V [OF inv2] S s1(6) by simp
  ultimately show ?thesis using link_table [OF ok q _ nv s1(2,3) fr(2,3)] by simp
qed

lemma walk_l3pfn_ok:
  assumes ok: "ok s" and i: "i = unat (L4OFF va)" "i < n"
  shows "\<exists>g s'. walk_l3pfn M (lp i) va alloc s = Some (g, s') \<and> ok s' \<and> grow s s' \<and>
    walked n (l4v M lp s') (fw s') [i] g \<and> (\<not> alloc \<longrightarrow> s' = s) \<and> (alloc \<and> g = PFN_INVALID \<longrightarrow> avail s' = {})"
proof -
  have e: "mem_ld M (lp i) s = E s [i]" by (simp add: l4v_def)
  have q: "vpath n [i]" using i by (simp add: vpath_def)
  show ?thesis
  proof (cases "pte_valid (E s [i])")
    case True
    then have t: "[i] \<in> Tb s" using q by (simp add: tabs_def)
    then have "pte_pfn (E s [i]) \<noteq> PFN_INVALID" "pte_valid_table (E s [i])"
      using tab_frame [OF ok t] frame_not_invalid tab_table [OF ok t] by auto
    then show ?thesis using e True ok grow_refl t by (simp add: walk_l3pfn_def walked_def)
  next
    case nv: False
    show ?thesis
    proof (cases alloc)
      case False
      then show ?thesis using e nv ok grow_refl by (simp add: walk_l3pfn_def walked_def)
    next
      case True
      from okD(1) [OF ok] show ?thesis
      proof (cases rule: alloc_table_cases)
        case (1 s')
        have "ok s' \<and> grow s s' \<and> E s' [i] = E s [i]" using no_memory [OF ok 1(2-6)] q by blast
        then show ?thesis using 1(1,5) e nv True by (simp add: walk_l3pfn_def walked_def)
      next
        case (2 h s1)
        note L = root_link [OF ok i(2) nv 2(2,3,4,5,6,7) refl, of va]
        have "pte_pfn (mkpte h 1) = h" "h \<noteq> PFN_INVALID"
          using mkpte_pfn [of h] frame_small [OF 2(4)] frame_not_invalid [OF 2(4)] by auto
        then show ?thesis using L e nv True 2(1) mkpte_table [of h] by (simp add: walk_l3pfn_def walked_def)
      qed
    qed
  qed
qed

text \<open>One more level: from the table at \<open>p\<close>, found or not, to the table at the entry \<open>off\<close> of it.\<close>

lemma next_level:
  assumes w: "W s = Some (g, s1)" "ok s1" "grow s s1" "walked n (l4v M lp s1) (fw s1) p g" "\<not> alloc \<longrightarrow> s1 = s"
      "alloc \<and> g = PFN_INVALID \<longrightarrow> avail s1 = {}"
    and p: "p \<noteq> []" "length p < 3" and i: "unat off < 512"
  shows "\<exists>g' s'. do { (l, s) \<leftarrow> do { (g, s) \<leftarrow> W s; if g = PFN_INVALID then Some (PTEP_INVALID, s) else Some (mkptep g off, s) };
      if l = PTEP_INVALID then Some (PFN_INVALID, s) else level_step M l va alloc s } = Some (g', s') \<and> ok s' \<and> grow s s' \<and>
    walked n (l4v M lp s') (fw s') (unat off # p) g' \<and> (\<not> alloc \<longrightarrow> s' = s) \<and> (alloc \<and> g' = PFN_INVALID \<longrightarrow> avail s' = {})"
proof (cases "g = PFN_INVALID")
  case True
  then have "\<not> pte_valid (E s1 (unat off # p))" using w(4) p(1) by (simp add: walked_def ent_Cons)
  then show ?thesis using w True by (simp add: walked_def)
next
  case False
  then have t: "p \<in> Tb s1" "g = pte_pfn (E s1 p)" using w(4) by (simp_all add: walked_def)
  have "mkptep g off \<noteq> 0" using mkptep_parts(3) [of g off] tab_frame [OF w(2) t(1)] frame_small [of g] i t(2) by auto
  then show ?thesis
    using level_step_ok [OF w(2) t(1) p(2) i, of va alloc] False w(1,3,5) t(2) grow_trans [OF w(3)] by auto
qed

lemma walk_l1pfn_ok:
  assumes ok: "ok s" and i: "unat (L4OFF va) < n"
  shows "\<exists>g s'. walk_l2pfn M (lp (unat (L4OFF va))) va alloc s = Some (g, s') \<and> ok s' \<and> grow s s' \<and>
      walked n (l4v M lp s') (fw s') (tl (tl (vp va))) g \<and> (\<not> alloc \<longrightarrow> s' = s) \<and> (alloc \<and> g = PFN_INVALID \<longrightarrow> avail s' = {})"
    "\<exists>g s'. walk_l1pfn M (lp (unat (L4OFF va))) va alloc s = Some (g, s') \<and> ok s' \<and> grow s s' \<and>
      walked n (l4v M lp s') (fw s') (tl (vp va)) g \<and> (\<not> alloc \<longrightarrow> s' = s) \<and> (alloc \<and> g = PFN_INVALID \<longrightarrow> avail s' = {})"
proof -
  let ?l = "lp (unat (L4OFF va))"
  have u: "unat (ucast (L3OFF va) :: u32) = unat (L3OFF va)" "unat (ucast (L2OFF va) :: u32) = unat (L2OFF va)"
    using off_less [of va] by (simp_all add: unat_ucast_less)
  obtain g3 s3 where w3: "walk_l3pfn M ?l va alloc s = Some (g3, s3)" "ok s3" "grow s s3"
      "walked n (l4v M lp s3) (fw s3) [unat (L4OFF va)] g3" "\<not> alloc \<longrightarrow> s3 = s" "alloc \<and> g3 = PFN_INVALID \<longrightarrow> avail s3 = {}"
    using walk_l3pfn_ok [OF ok refl i, of alloc] by blast
  have "walk_l2pfn M ?l va alloc s = do { (l, s) \<leftarrow> walk_l3p M ?l va alloc s;
      if l = PTEP_INVALID then Some (PFN_INVALID, s) else level_step M l va alloc s }"
    unfolding walk_l2pfn_def level_step_def by (rule refl)
  then show l2: "\<exists>g s'. walk_l2pfn M ?l va alloc s = Some (g, s') \<and> ok s' \<and> grow s s' \<and>
      walked n (l4v M lp s') (fw s') (tl (tl (vp va))) g \<and> (\<not> alloc \<longrightarrow> s' = s) \<and> (alloc \<and> g = PFN_INVALID \<longrightarrow> avail s' = {})"
    using next_level [where W = "walk_l3pfn M ?l va alloc" and off = "ucast (L3OFF va)", OF w3] u off_less [of va]
    by (simp add: walk_l3p_def vp_def)
  then obtain g2 s2 where w2: "walk_l2pfn M ?l va alloc s = Some (g2, s2)" "ok s2" "grow s s2"
      "walked n (l4v M lp s2) (fw s2) (tl (tl (vp va))) g2" "\<not> alloc \<longrightarrow> s2 = s" "alloc \<and> g2 = PFN_INVALID \<longrightarrow> avail s2 = {}" by blast
  have "walk_l1pfn M ?l va alloc s = do { (l, s) \<leftarrow> walk_l2p M ?l va alloc s;
      if l = PTEP_INVALID then Some (PFN_INVALID, s) else level_step M l va alloc s }"
    unfolding walk_l1pfn_def level_step_def by (rule refl)
  then show "\<exists>g s'. walk_l1pfn M ?l va alloc s = Some (g, s') \<and> ok s' \<and> grow s s' \<and>
      walked n (l4v M lp s') (fw s') (tl (vp va)) g \<and> (\<not> alloc \<longrightarrow> s' = s) \<and> (alloc \<and> g = PFN_INVALID \<longrightarrow> avail s' = {})"
    using next_level [where W = "walk_l2pfn M ?l va alloc" and off = "ucast (L2OFF va)", OF w2] u off_less [of va]
    by (simp add: walk_l2p_def vp_def)
qed

text \<open>The walk to the leaf entry: the pointer it returns, and the leaf entry there.\<close>

lemma walk_l1p_ok:
  assumes ok: "ok s" and i: "unat (L4OFF va) < n"
  shows "\<exists>r s'. walk_l1p M (lp (unat (L4OFF va))) va alloc s = Some (r, s') \<and> ok s' \<and> grow s s' \<and> (\<not> alloc \<longrightarrow> s' = s) \<and>
    (if r = 0 then \<not> pte_valid (E s' (tl (vp va))) \<and> (alloc \<longrightarrow> avail s' = {})
     else tl (vp va) \<in> Tb s' \<and> r = mkptep (pte_pfn (E s' (tl (vp va)))) (ucast (L1OFF va)))"
proof -
  obtain g s' where w: "walk_l1pfn M (lp (unat (L4OFF va))) va alloc s = Some (g, s')" "ok s'" "grow s s'"
      "walked n (l4v M lp s') (fw s') (tl (vp va)) g" "\<not> alloc \<longrightarrow> s' = s" "alloc \<and> g = PFN_INVALID \<longrightarrow> avail s' = {}"
    using walk_l1pfn_ok(2) [OF ok i, of alloc] by blast
  show ?thesis
  proof (cases "g = PFN_INVALID")
    case True
    then show ?thesis using w by (simp add: walk_l1p_def walked_def)
  next
    case False
    then have t: "tl (vp va) \<in> Tb s'" "g = pte_pfn (E s' (tl (vp va)))" using w(4) by (simp_all add: walked_def)
    have "unat (ucast (L1OFF va) :: u32) < 512" using off_less [of va] by (simp add: unat_ucast_less)
    then have "mkptep g (ucast (L1OFF va)) \<noteq> 0"
      using mkptep_parts(3) [of g "ucast (L1OFF va)"] tab_frame [OF w(2) t(1)] frame_small [of g] t(2) by auto
    then show ?thesis using w t False by (simp add: walk_l1p_def)
  qed
qed

section \<open>Leaf entries\<close>

lemma leaf_get:
  assumes "ok s" "tl (vp va) \<in> Tb s"
  shows "get_pte M (mkptep (pte_pfn (E s (tl (vp va)))) (ucast (L1OFF va))) s = Some (E s (vp va), s)"
proof -
  have u: "unat (ucast (L1OFF va) :: u32) = unat (L1OFF va)" using off_less [of va] by (simp add: unat_ucast_less)
  have "vp va = unat (L1OFF va) # tl (vp va)" by (simp add: vp_def)
  then have "E s (vp va) = fw s (pte_pfn (E s (tl (vp va)))) (unat (L1OFF va))" using ent_below [OF assms(2)] by metis
  then show ?thesis using get_pte_frame [of _ "ucast (L1OFF va)" s] okD(1) [OF assms(1)] tab_frame [OF assms] u off_less [of va] by simp
qed

lemma leaf_set:
  assumes ok: "ok s" and t: "tl (vp va) \<in> Tb s"
  shows "\<exists>s'. set_pte M (mkptep (pte_pfn (E s (tl (vp va)))) (ucast (L1OFF va))) v s = Some (E s (vp va), s') \<and> ok s' \<and>
    (\<forall>p. vpath n p \<longrightarrow> E s' p = (if p = vp va then v else E s p)) \<and> Tb s' = Tb s \<and> Tf s' = Tf s \<and> avail s' = avail s \<and>
    (\<forall>f. f \<notin> Tf s \<longrightarrow> fw s' f = fw s f) \<and> (\<forall>a. isk a \<longrightarrow> mem_ld M a s' = mem_ld M a s)"
proof -
  let ?f = "pte_pfn (E s (tl (vp va)))" and ?i = "unat (L1OFF va)"
  have u: "unat (ucast (L1OFF va) :: u32) = ?i" using off_less [of va] by (simp add: unat_ucast_less)
  have vp: "vp va = ?i # tl (vp va)" "length (tl (vp va)) = 3" by (simp_all add: vp_def)
  note F = tab_frame [OF ok t]
  have e: "E s (vp va) = fw s ?f ?i" using ent_below [OF t] vp(1) by metis
  obtain s' where s': "set_pte M (mkptep ?f (ucast (L1OFF va))) v s = Some (fw s ?f ?i, s')" "minv s'"
      "fw s' = fset (fw s) ?f ?i v" "avail s' = avail s" "\<forall>a. isk a \<longrightarrow> mem_ld M a s' = mem_ld M a s"
    using set_pte_frame [of ?f "ucast (L1OFF va)" s v] F u off_less [of va] okD(1) [OF ok] by auto
  have "\<forall>f\<in>Fr. fw s' f = fw s f" using s'(3) F by (auto simp: fset_def)
  then have l4v': "\<forall>j<n. l4v M lp s' j = l4v M lp s j" using lp_keep [OF _ _ s'(5)] by (simp add: l4v_def)
  have r: "vpath n p \<Longrightarrow> rent (l4v M lp s') (fw s') p = rent (l4v M lp s) (fw s') p" for p
    using ent_cong [of n "l4v M lp s'" "l4v M lp s"] l4v' by blast
  have "installs pte_valid pte_pfn (l4v M lp s) (fw s) (vp va) v" by (simp add: installs_def vp_def)
  then have E': "\<forall>p. vpath n p \<longrightarrow> E s' p = (if p = vp va then v else E s p)"
    using ent_set [OF okD(2) [OF ok] _ t, of ?i v] r s'(3) off_less [of va] vp by (simp flip: vp(1))
  then have up: "ent_upd pte_valid pte_pfn n (l4v M lp s) (fw s) (vp va) v (l4v M lp s') (fw s')" by (simp add: ent_upd_def)
  have "length (vp va) = 4" by (simp add: vp_def)
  note L = ent_upd_leaf [OF up this]
  have "ok s'" using ok s'(2,4) L(2,3) by (auto simp: map_ok_def)
  moreover have "\<forall>f. f \<notin> Tf s \<longrightarrow> fw s' f = fw s f" using s'(3) tframesI [OF t] by (auto simp: fset_def)
  ultimately show ?thesis using s'(1,4,5) E' L e by metis
qed

lemma ok_free:
  assumes "ok s" "f \<notin> Tf s" "minv s'" "fw s' = fw s" "avail s' = insert f (avail s)" "\<forall>a. isk a \<longrightarrow> mem_ld M a s' = mem_ld M a s"
  shows "ok s'" "vpath n p \<Longrightarrow> E s' p = E s p" "Tb s' = Tb s" "Tf s' = Tf s"
proof -
  have l: "\<forall>j<n. l4v M lp s' j = l4v M lp s j" using lp_keep [OF _ _ assms(6)] assms(4) by (simp add: l4v_def)
  have e: "vpath n p \<Longrightarrow> E s' p = E s p" for p by (rule ent_cong) (use l assms(4) in auto)
  have "\<forall>p. vpath n p \<longrightarrow> E s' p = E s p" using e by blast
  note S = E_same [OF this]
  show "vpath n p \<Longrightarrow> E s' p = E s p" by (fact e)
  show "Tb s' = Tb s" by (fact S(1))
  show "Tf s' = Tf s" by (fact S(2))
  show "ok s'" using assms(1,2,3,5) S(2,3) by (auto simp: map_ok_def)
qed

lemma ok_alloc:
  assumes ok: "ok s" and a: "op_alloc M low s = Some (f, s')" "minv s'" "\<forall>a. isk a \<longrightarrow> mem_ld M a s' = mem_ld M a s"
      "if avail s = {} then f = PFN_INVALID \<and> fw s' = fw s \<and> avail s' = {}
       else f \<in> avail s \<and> fw s' = (fw s)(f := (\<lambda>_. 0)) \<and> avail s' = avail s - {f}"
  shows "ok s'" "vpath n p \<Longrightarrow> E s' p = E s p" "Tb s' = Tb s" "Tf s' = Tf s"
proof -
  have fr: "\<forall>g. g \<notin> avail s \<longrightarrow> fw s' g = fw s g" "avail s' \<subseteq> avail s" using a(4) by (auto split: if_splits)
  have "\<forall>g\<in>Tf s. fw s' g = fw s g" using fr(1) okD(4) [OF ok] by blast
  moreover have "\<forall>g\<in>Fr. fw s' g = fw s g" using fr(1) Fr_avail [OF okD(1) [OF ok]] by blast
  then have "\<forall>j<n. mem_ld M (lp j) s' = mem_ld M (lp j) s" using lp_keep [OF _ _ a(3)] by blast
  ultimately have k: "\<forall>g\<in>Tf s. fw s' g = fw s g" "\<forall>j<n. mem_ld M (lp j) s' = mem_ld M (lp j) s" by blast+
  note R = ok_keep [OF ok a(2) k fr(2,1) a(3)]
  show "ok s'" "vpath n p \<Longrightarrow> E s' p = E s p" "Tb s' = Tb s" "Tf s' = Tf s" using R by blast+
qed

lemma walk_leaf:
  assumes ok: "ok s" and va: "unat (L4OFF va) < n"
  shows "\<exists>p s'. walk_l1p M (lp (unat (L4OFF va))) va alloc s = Some (p, s') \<and> ok s' \<and>
    (\<forall>x. unat (L4OFF x) < n \<longrightarrow> leaf M fw lp s' x = leaf M fw lp s x) \<and> (\<not> alloc \<longrightarrow> s' = s) \<and>
    (if p \<noteq> 0 then leaf_at M fw lp n s' va p else leaf M fw lp s va = 0 \<and> (alloc \<longrightarrow> avail s' = {}))"
proof -
  obtain p s' where w: "walk_l1p M (lp (unat (L4OFF va))) va alloc s = Some (p, s')" "ok s'" "grow s s'" "\<not> alloc \<longrightarrow> s' = s"
      "if p = 0 then \<not> pte_valid (E s' (tl (vp va))) \<and> (alloc \<longrightarrow> avail s' = {})
       else tl (vp va) \<in> Tb s' \<and> p = mkptep (pte_pfn (E s' (tl (vp va)))) (ucast (L1OFF va))"
    using walk_l1p_ok [OF ok va, of alloc] by blast
  have l: "leaf M fw lp s' x = leaf M fw lp s x" if "unat (L4OFF x) < n" for x
    using growD(1) [OF w(3), of "vp x"] vpath_vp [OF that] by (simp add: leaf_def) (simp add: vp_def)
  have "leaf M fw lp s' va = 0" if "\<not> pte_valid (E s' (tl (vp va)))"
  proof -
    have "vp va = unat (L1OFF va) # tl (vp va)" "tl (vp va) \<noteq> []" by (simp_all add: vp_def)
    then show ?thesis using that ent_Cons [of "tl (vp va)" pte_valid pte_pfn "l4v M lp s'" "fw s'" "unat (L1OFF va)"] by (metis leaf_def)
  qed
  then show ?thesis using w l [OF va] l by (auto simp: leaf_at_def split: if_splits)
qed

lemma leaf_get_set:
  assumes ok: "ok s" and at: "leaf_at M fw lp n s va p"
  shows "get_pte M p s = Some (leaf M fw lp s va, s)"
    "\<exists>s'. set_pte M p e s = Some (leaf M fw lp s va, s') \<and> ok s' \<and> avail s' = avail s \<and> Tf s' = Tf s \<and>
      (\<forall>x. unat (L4OFF x) < n \<longrightarrow> leaf M fw lp s' x = (if vp x = vp va then e else leaf M fw lp s x)) \<and>
      (\<forall>f. f \<notin> Tf s \<longrightarrow> fw s' f = fw s f) \<and> (\<forall>a. isk a \<longrightarrow> mem_ld M a s' = mem_ld M a s)"
proof -
  have t: "tl (vp va) \<in> Tb s" "p = mkptep (pte_pfn (E s (tl (vp va)))) (ucast (L1OFF va))" using at by (simp_all add: leaf_at_def)
  show "get_pte M p s = Some (leaf M fw lp s va, s)" unfolding t(2) leaf_def by (rule leaf_get [OF ok t(1)])
  obtain s' where s': "set_pte M p e s = Some (E s (vp va), s')" "ok s'" "\<forall>q. vpath n q \<longrightarrow> E s' q = (if q = vp va then e else E s q)"
      "Tf s' = Tf s" "avail s' = avail s" "\<forall>f. f \<notin> Tf s \<longrightarrow> fw s' f = fw s f" "\<forall>a. isk a \<longrightarrow> mem_ld M a s' = mem_ld M a s"
    using leaf_set [OF ok t(1), of e] unfolding t(2) by blast
  have "unat (L4OFF x) < n \<Longrightarrow> leaf M fw lp s' x = (if vp x = vp va then e else leaf M fw lp s x)" for x
    using s'(3) vpath_vp [of x n] by (simp add: leaf_def)
  then show "\<exists>s'. set_pte M p e s = Some (leaf M fw lp s va, s') \<and> ok s' \<and> avail s' = avail s \<and> Tf s' = Tf s \<and>
      (\<forall>x. unat (L4OFF x) < n \<longrightarrow> leaf M fw lp s' x = (if vp x = vp va then e else leaf M fw lp s x)) \<and>
      (\<forall>f. f \<notin> Tf s \<longrightarrow> fw s' f = fw s f) \<and> (\<forall>a. isk a \<longrightarrow> mem_ld M a s' = mem_ld M a s)"
    using s' by (intro exI [of _ s']) (simp add: leaf_def)
qed

end

context direct_frames
begin

lemma word_of_8i: "i < 512 \<Longrightarrow> j < 512 \<Longrightarrow> (8 * of_nat i :: u64) = 8 * of_nat j \<longleftrightarrow> i = j"
proof -
  assume a: "i < 512" "j < 512"
  have "unat (8 * of_nat k :: u64) = 8 * k" if "k < 512" for k
    using that by (simp add: unat_word_ariths unat_of_nat)
  then show ?thesis using a by (metis nat_mult_eq_cancel1 zero_less_numeral)
qed

end

sublocale direct_frames \<subseteq> cpumap: sv48_map M fw avail isf fva root minv isk "\<lambda>i. fva root + 8 * of_nat i" 512 "{root}"
proof (unfold_locales, goal_cases)
  case (2 i s s' v)
  note S = st_frame [OF root_frame(2) 2]
  have "\<forall>j<512. mem_ld M (fva root + 8 * of_nat j) s' = (if j = i then v else mem_ld M (fva root + 8 * of_nat j) s)"
    using S ld_frame [OF root_frame(2)] by (auto simp: fset_def)
  then show ?case using S by (auto simp: fset_def)
next
  case (3 j s' s)
  then show ?case using ld_frame [OF root_frame(2)] by simp
next
  case (4 s)
  then show ?case using root_frame(3) by simp
qed simp

locale umap_array = direct_frames +
  fixes u :: u64
  assumes array: "i < 8 \<Longrightarrow> isk (umap_l4 u (of_nat i))"

sublocale umap_array \<subseteq> uarr: sv48_map M fw avail isf fva root minv isk "\<lambda>i. umap_l4 u (of_nat i)" 8 "{}"
proof (unfold_locales, goal_cases)
  case (2 i s s' v)
  have d: "umap_l4 u (of_nat j) = umap_l4 u (of_nat i) \<longleftrightarrow> j = i" if "j < 8" for j
    using word_of_8i [of j i] that 2(1) by (simp add: umap_l4_def)
  show ?case using st_other [OF array [OF 2(1)] 2(2,3)] array d 2(1) by auto
next
  case (3 j s' s)
  then show ?case using array by simp
qed simp_all

end
