(* ===== verification/Umap.thy ===== *)
theory Umap
  imports Kmap
begin

text \<open>
  User mappings (\<^verbatim>\<open>libnux/umap.c\<close>) over the page-table primitives of a HAL. A \<^verbatim>\<open>struct umap\<close> is named by its
  address; the part of it that belongs to the HAL is at the address \<open>um_hal\<close>. As in the code, the functions
  that change an entry go through the CPU's own tables when the mapping is the current one, the others
  always through the \<^verbatim>\<open>struct hal_umap\<close>.
\<close>

section \<open>The code\<close>

definition or_tlbop :: "u64 \<Rightarrow> hal_tlbop_t \<Rightarrow> 'a cpu_st_scheme \<Rightarrow> 'a cpu_st_scheme" where
  "or_tlbop umap op = upd_umap umap (\<lambda>m. m\<lparr>um_tlbop := um_tlbop m OR op\<rparr>)"

definition umap_setl1e ::
  "'a cpu_st_scheme hal \<Rightarrow> u64 \<Rightarrow> vaddr_t \<Rightarrow> u64 \<Rightarrow> bool \<Rightarrow> 'a cpu_st_scheme \<Rightarrow> ((bool \<times> pfn_t) \<times> 'a cpu_st_scheme) option" where
  "umap_setl1e H umap va l1e alloc s =
     do { cur \<leftarrow> cpu_umap_current s;
          let hl = (if umap = cur then None else Some (um_hal (umaps s umap)));
          ((b, l1p), s) \<leftarrow> hal_umap_getl1p H hl va alloc s;
          if \<not> b then Some ((False, PFN_INVALID), s)
          else do { (oldl1e, s) \<leftarrow> hal_l1e_set H l1p l1e s;
                    let s = or_tlbop umap (hal_l1e_tlbop H oldl1e l1e) s;
                    let (oldpfn, oldprot) = hal_l1e_unbox H oldl1e;
                    Some ((True, if oldprot AND HAL_PTE_P \<noteq> 0 then oldpfn else PFN_INVALID), s) } }"

definition umap_chflags ::
  "'a cpu_st_scheme hal \<Rightarrow> u64 \<Rightarrow> vaddr_t \<Rightarrow> u32 \<Rightarrow> u32 \<Rightarrow> 'a cpu_st_scheme \<Rightarrow> (u32 \<times> 'a cpu_st_scheme) option" where
  "umap_chflags H umap va prot_set prot_clr s =
     do { ((b, l1p), s) \<leftarrow> hal_umap_getl1p H (Some (um_hal (umaps s umap))) va False s;
          if \<not> b then Some (0, s)
          else do { (l1e, s) \<leftarrow> hal_l1e_get H l1p s;
                    let (pfn, oldflags) = hal_l1e_unbox H l1e;
                    let flags = oldflags OR prot_set;
                    let flags = flags AND NOT prot_clr;
                    let l1e = hal_l1e_box H pfn flags;
                    (oldl1e, s) \<leftarrow> hal_l1e_set H l1p l1e s;
                    Some (oldflags, or_tlbop umap (hal_l1e_tlbop H oldl1e l1e) s) } }"

definition umap_map ::
  "'a cpu_st_scheme hal \<Rightarrow> u64 \<Rightarrow> vaddr_t \<Rightarrow> pfn_t \<Rightarrow> u32 \<Rightarrow> 'a cpu_st_scheme \<Rightarrow> ((bool \<times> pfn_t) \<times> 'a cpu_st_scheme) option" where
  "umap_map H umap va pfn prot s = umap_setl1e H umap va (hal_l1e_box H pfn prot) True s"

definition umap_unmap :: "'a cpu_st_scheme hal \<Rightarrow> u64 \<Rightarrow> vaddr_t \<Rightarrow> 'a cpu_st_scheme \<Rightarrow> (pfn_t \<times> 'a cpu_st_scheme) option" where
  "umap_unmap H umap va s =
     do { ((b, l1p), s) \<leftarrow> hal_umap_getl1p H (Some (um_hal (umaps s umap))) va False s;
          if \<not> b then Some (PFN_INVALID, s)
          else do { let l1e = hal_l1e_box H PFN_INVALID 0;
                    (oldl1e, s) \<leftarrow> hal_l1e_set H l1p l1e s;
                    let s = or_tlbop umap (hal_l1e_tlbop H oldl1e l1e) s;
                    let (oldpfn, oldprot) = hal_l1e_unbox H oldl1e;
                    Some (if oldprot AND HAL_PTE_P \<noteq> 0 then oldpfn else PFN_INVALID, s) } }"

text \<open>\<^verbatim>\<open>__atomic_clear\<close> clears one byte, the lowest one.\<close>

definition umap_commit :: "u64 \<Rightarrow> 'a cpu_st_scheme \<Rightarrow> 'a cpu_st_scheme" where
  "umap_commit umap s =
     (let s = upd_umap umap (\<lambda>m. m\<lparr>um_tlbop := um_tlbop m AND NOT 0xff\<rparr>) s
      in cpu_tlbflush_mask (um_cpumask (umaps s umap)) s)"

definition umap_bootstrap :: "'a cpu_st_scheme hal \<Rightarrow> u64 \<Rightarrow> 'a cpu_st_scheme \<Rightarrow> 'a cpu_st_scheme option" where
  "umap_bootstrap H umap s =
     (let s = upd_umap umap (\<lambda>m. m\<lparr>um_tlbop := 0, um_cpumask := 0\<rparr>) s
      in hal_umap_bootstrap H (um_hal (umaps s umap)) s)"

definition umap_free :: "'a cpu_st_scheme hal \<Rightarrow> u64 \<Rightarrow> 'a cpu_st_scheme \<Rightarrow> 'a cpu_st_scheme option" where
  "umap_free H umap s =
     (if um_cpumask (umaps s umap) = 0 then hal_umap_free H (um_hal (umaps s umap)) s else None)"

definition umap_init :: "'a cpu_st_scheme hal \<Rightarrow> u64 \<Rightarrow> 'a cpu_st_scheme \<Rightarrow> 'a cpu_st_scheme option" where
  "umap_init H umap s =
     (let s = upd_umap umap (\<lambda>m. m\<lparr>um_tlbop := 0, um_cpumask := 0\<rparr>) s
      in hal_umap_init H (um_hal (umaps s umap)) s)"

end
