(* ===== verification/Machine.thy ===== *)
theory Machine
  imports Pfn Sv48_Walk Umap
begin

text \<open>
  The page-table code on top of the library's own frame functions. \<open>machine_env\<close> states what is relied on of the
  machine: the direct mapping maps frames to themselves, the memory of kernel objects is mapped once and for all and
  lies in none of the frames that the allocator hands out. Under it the frame functions meet the contract of the
  walk, for RISC-V page tables, and the mapping functions of \<^verbatim>\<open>libnux\<close> are shown correct on those tables.
\<close>

section \<open>The machine\<close>

text \<open>\<open>isf\<close> are the frames for tables and pages, \<open>isk\<close> the addresses of words of kernel objects and \<open>kphys\<close> where they
  are, \<open>n\<close> is the order of the allocator's bitmap and \<open>root\<close> the frame of the root table.\<close>

definition machine_env :: "'a mmu \<Rightarrow> mm_cfg \<Rightarrow> nat \<Rightarrow> pfn_t \<Rightarrow> (pfn_t \<Rightarrow> bool) \<Rightarrow> (vaddr_t \<Rightarrow> bool) \<Rightarrow> (vaddr_t \<Rightarrow> paddr_t) \<Rightarrow> bool" where
  "machine_env mmu cfg n root isf isk kphys \<longleftrightarrow>
     (\<forall>f. isf f \<longrightarrow> f \<noteq> 0 \<and> f < drop_bit PAGE_SHIFT (dmapsize cfg) \<and> f < maxpfn cfg \<and> unat f < 2 ^ n) \<and> isf root \<and>
     (\<forall>s x. x < dmapsize cfg \<longrightarrow> mmu s (dmapbase cfg + x) = x) \<and>
     (\<forall>s a. isk a \<longrightarrow> mmu s a = kphys a) \<and>
     (\<forall>a b. isk a \<and> isk b \<longrightarrow> kphys a = kphys b \<longrightarrow> a = b) \<and>
     (\<forall>a f i. isk a \<and> isf f \<and> i < 512 \<longrightarrow> kphys a \<noteq> ptob f + 8 * of_nat i)"

definition frame_va :: "mm_cfg \<Rightarrow> pfn_t \<Rightarrow> vaddr_t" where
  "frame_va cfg f = dmapbase cfg + push_bit PAGE_SHIFT f"

definition frame_words :: "(pfn_t \<Rightarrow> bool) \<Rightarrow> 'a mm_st_scheme \<Rightarrow> pfn_t \<Rightarrow> nat \<Rightarrow> u64" where
  "frame_words isf s f i = (if i < 512 \<and> isf f then pmem s (ptob f + 8 * of_nat i) else 0)"

text \<open>The machine between calls.\<close>

definition machine_ok :: "mm_cfg \<Rightarrow> nat \<Rightarrow> pfn_t \<Rightarrow> (pfn_t \<Rightarrow> bool) \<Rightarrow> 'a mm_st_scheme \<Rightarrow> bool" where
  "machine_ok cfg n root isf s \<longleftrightarrow> pfn_ok cfg n s \<and> max_dmap_pfn s = drop_bit PAGE_SHIFT (dmapsize cfg) \<and>
     satp s AND SATP_PFN_MASK = root \<and> root \<notin> free_frames n s \<and> (\<forall>f\<in>free_frames n s. isf f)"

section \<open>Words of frames\<close>

lemma ptob_unat: "unat f < 2 ^ 52 \<Longrightarrow> unat (ptob f) = unat f * 4096"
  by (simp add: ptob_def push_bit_eq_mult unat_word_ariths)

lemma word_addr_unat:
  assumes "unat f < 2 ^ 52" "i < 512"
  shows "unat (ptob f + 8 * of_nat i) = unat f * 4096 + 8 * i"
proof -
  have "unat (8 * of_nat i :: u64) = 8 * i" using assms(2) by (simp add: unat_word_ariths unat_of_nat)
  then show ?thesis using ptob_unat [OF assms(1)] assms by (simp add: unat_word_ariths)
qed

lemma word_addr_inj:
  assumes "unat f < 2 ^ 52" "i < 512" "unat g < 2 ^ 52" "j < 512"
  shows "ptob f + 8 * of_nat i = ptob g + 8 * of_nat j \<longleftrightarrow> f = g \<and> i = j"
proof
  assume "ptob f + 8 * of_nat i = ptob g + 8 * of_nat j"
  then have e: "unat f * 4096 + 8 * i = unat g * 4096 + 8 * j"
    using word_addr_unat [OF assms(1,2)] word_addr_unat [OF assms(3,4)] by metis
  then have "unat f = unat g" using assms(2,4) by arith
  then show "f = g \<and> i = j" using e by (simp add: word_unat_eq_iff)
qed simp

lemma frame_words_set:
  assumes "\<forall>g. isf g \<longrightarrow> unat g < 2 ^ 52" "isf f" "i < 512" "pmem s' = (pmem s)(ptob f + 8 * of_nat i := v)"
  shows "frame_words isf s' = fset (frame_words isf s) f i v"
proof (intro ext)
  fix g j
  have "j < 512 \<and> isf g \<Longrightarrow> ptob f + 8 * of_nat i = ptob g + 8 * of_nat j \<longleftrightarrow> f = g \<and> i = j"
    using assms(1-3) word_addr_inj [of f i g j] by blast
  then show "frame_words isf s' g j = fset (frame_words isf s) f i v g j"
    using assms(2-4) by (cases "j < 512 \<and> isf g") (auto simp: frame_words_def fset_def)
qed

lemma frame_words_pmem: "pmem s' = pmem s \<Longrightarrow> frame_words isf s' = frame_words isf s"
  by (simp add: frame_words_def fun_eq_iff)

text \<open>What only changes memory or the trace keeps the machine in order.\<close>

lemma machine_ok_keep [simp]:
  "machine_ok cfg n root isf (s\<lparr>pmem := pm\<rparr>) = machine_ok cfg n root isf s"
  "free_frames n (s\<lparr>pmem := pm\<rparr>) = free_frames n s"
  "machine_ok cfg n root isf (hw oper s) = machine_ok cfg n root isf s" "free_frames n (hw oper s) = free_frames n s"
  "frame_words isf (hw oper s) = frame_words isf s"
  by (simp_all add: machine_ok_def pfn_ok_def bitmap_ok_def free_frames_def frame_words_def hw_def fun_eq_iff)

lemma drop_shift_less:
  assumes "f < drop_bit 12 (w :: u64)"
  shows "unat f < 2 ^ 52" "i < 512 \<Longrightarrow> ptob f + 8 * of_nat i < w" "f \<noteq> - 1"
proof -
  have u: "unat f < unat w div 4096" using assms by (simp add: word_less_nat_alt unat_drop_bit_eq drop_bit_eq_div unat_div)
  moreover have "unat w < 2 ^ 64" using unsigned_less [of w] by simp
  ultimately show f: "unat f < 2 ^ 52" by simp
  show "i < 512 \<Longrightarrow> ptob f + 8 * of_nat i < w" using word_addr_unat [OF f] u by (simp add: word_less_nat_alt)
  show "f \<noteq> - 1" using f by auto
qed

section \<open>The frame functions meet the contract of the walk\<close>

lemma mm_ops_simps [simp]:
  "mem_ld (mm_ops mmu cfg client hal_of) = ld64 mmu" "mem_st (mm_ops mmu cfg client hal_of) = st64 mmu"
  "op_get (mm_ops mmu cfg client hal_of) = pfn_get (hal_of (held_ops mmu cfg)) cfg" "op_put (mm_ops mmu cfg client hal_of) = pfn_put"
  "op_alloc (mm_ops mmu cfg client hal_of) = pfn_alloc cfg client (get_ops mmu cfg hal_of)"
  "op_free (mm_ops mmu cfg client hal_of) = pfn_free cfg client"
  "reg_root (mm_ops mmu cfg client hal_of) = satp" "inv_page (mm_ops mmu cfg client hal_of) va = hw (Sfence_vma va)"
  "op_get (get_ops mmu cfg hal_of) = pfn_get (hal_of (held_ops mmu cfg)) cfg" "op_put (get_ops mmu cfg hal_of) = pfn_put"
  "mem_st (get_ops mmu cfg hal_of) = st64 mmu"
  by (simp_all add: mm_ops_def get_ops_def held_ops_def)

locale riscv_machine =
  fixes mmu :: "'a mmu" and cfg :: mm_cfg and client :: "'a mm_st_scheme allocators"
    and hal_of :: "'a mm_st_scheme pfn_ops \<Rightarrow> 'a mm_st_scheme hal"
    and n :: nat and root :: pfn_t and isf :: "pfn_t \<Rightarrow> bool" and isk :: "vaddr_t \<Rightarrow> bool" and kphys :: "vaddr_t \<Rightarrow> paddr_t"
  assumes env: "machine_env mmu cfg n root isf isk kphys"
begin

lemma isfD: "isf f \<Longrightarrow> f \<noteq> 0" "isf f \<Longrightarrow> f < drop_bit PAGE_SHIFT (dmapsize cfg)" "isf f \<Longrightarrow> f < maxpfn cfg" "isf f \<Longrightarrow> unat f < 2 ^ n"
    "isf f \<Longrightarrow> unat f < 2 ^ 52" "isf f \<Longrightarrow> f \<noteq> PFN_INVALID"
  using env drop_shift_less(1,3) [of f] by (auto simp: machine_env_def)

lemma mmu_frame:
  assumes "isf f" "i < 512"
  shows "mmu s (frame_va cfg f + 8 * of_nat i) = ptob f + 8 * of_nat i"
proof -
  have "ptob f + 8 * of_nat i < dmapsize cfg" using drop_shift_less(2) [OF isfD(2) [OF assms(1)] assms(2)] .
  then have "mmu s (dmapbase cfg + (ptob f + 8 * of_nat i)) = ptob f + 8 * of_nat i" using env by (simp add: machine_env_def)
  then show ?thesis by (simp add: frame_va_def ptob_def add.assoc)
qed

lemma mmu_kobj: "isk a \<Longrightarrow> mmu s a = kphys a" "isk a \<Longrightarrow> isk b \<Longrightarrow> kphys a = kphys b \<longleftrightarrow> a = b"
    "isk a \<Longrightarrow> isf f \<Longrightarrow> i < 512 \<Longrightarrow> kphys a \<noteq> ptob f + 8 * of_nat i"
  using env by (auto simp: machine_env_def)

lemma get_direct: "isf f \<Longrightarrow> max_dmap_pfn s = drop_bit PAGE_SHIFT (dmapsize cfg) \<Longrightarrow>
    pfn_get H cfg f s = Some (frame_va cfg f, s) \<and> pfn_put f va s = Some s"
  using isfD(2,6) [of f] by (simp add: pfn_get_def pfn_put_def frame_va_def)

lemma machine_okD:
  assumes "machine_ok cfg n root isf s"
  shows "pfn_ok cfg n s" "max_dmap_pfn s = drop_bit PAGE_SHIFT (dmapsize cfg)" "satp s AND SATP_PFN_MASK = root" "root \<notin> free_frames n s"
    "f \<in> free_frames n s \<Longrightarrow> isf f"
  using assms by (simp_all add: machine_ok_def)

lemma clear_words:
  assumes "isf f" "k \<le> 512"
  shows "\<exists>pm. fold (\<lambda>i. st64 mmu (frame_va cfg f + 8 * of_nat i) 0) [0..<k] s = s\<lparr>pmem := pm\<rparr> \<and>
    (\<forall>a. pm a = (if \<exists>i<k. a = ptob f + 8 * of_nat i then 0 else pmem s a))"
  using assms(2)
proof (induction k)
  case 0
  then show ?case by (intro exI [of _ "pmem s"]) simp
next
  case (Suc k)
  then obtain pm where pm: "fold (\<lambda>i. st64 mmu (frame_va cfg f + 8 * of_nat i) 0) [0..<k] s = s\<lparr>pmem := pm\<rparr>"
      "\<forall>a. pm a = (if \<exists>i<k. a = ptob f + 8 * of_nat i then 0 else pmem s a)" by auto
  have "st64 mmu (frame_va cfg f + 8 * of_nat k) 0 (s\<lparr>pmem := pm\<rparr>) = s\<lparr>pmem := pm(ptob f + 8 * of_nat k := 0)\<rparr>"
    using mmu_frame [OF assms(1), of k] Suc.prems by (simp add: st64_def)
  then have "fold (\<lambda>i. st64 mmu (frame_va cfg f + 8 * of_nat i) 0) [0..<Suc k] s = s\<lparr>pmem := pm(ptob f + 8 * of_nat k := 0)\<rparr>"
    using pm(1) by simp
  moreover have "\<forall>a. (pm(ptob f + 8 * of_nat k := 0)) a = (if \<exists>i<Suc k. a = ptob f + 8 * of_nat i then 0 else pmem s a)"
    using pm(2) by (auto simp: less_Suc_eq)
  ultimately show ?case by blast
qed

lemma clear_page_ok:
  assumes "isf f" "s' = clear_page (get_ops mmu cfg hal_of) (frame_va cfg f) s"
  shows "\<exists>pm. s' = s\<lparr>pmem := pm\<rparr> \<and> frame_words isf s' = (frame_words isf s)(f := (\<lambda>_. 0)) \<and> (\<forall>a. isk a \<longrightarrow> ld64 mmu a s' = ld64 mmu a s)"
proof -
  obtain pm where pm: "s' = s\<lparr>pmem := pm\<rparr>" "\<forall>a. pm a = (if \<exists>i<512. a = ptob f + 8 * of_nat i then 0 else pmem s a)"
    using clear_words [OF assms(1), of 512 s] assms(2) by (auto simp: clear_page_def)
  have "frame_words isf s' g j = ((frame_words isf s)(f := (\<lambda>_. 0))) g j" for g j
  proof (cases "j < 512 \<and> isf g")
    case True
    then have "(\<exists>i<512. ptob g + 8 * of_nat j = ptob f + 8 * of_nat i) \<longleftrightarrow> g = f"
      using word_addr_inj [OF isfD(5) [of g] _ isfD(5) [OF assms(1)]] by auto
    then show ?thesis using pm True by (auto simp: frame_words_def)
  qed (auto simp: frame_words_def)
  moreover have "isk a \<Longrightarrow> ld64 mmu a s' = ld64 mmu a s" for a
    using pm mmu_kobj(1,3) [of a] assms(1) by (auto simp: ld64_def)
  ultimately show ?thesis using pm(1) by blast
qed

lemma alloc_ok:
  assumes ok: "machine_ok cfg n root isf s"
  shows "\<exists>f s'. pfn_alloc cfg client (get_ops mmu cfg hal_of) low s = Some (f, s') \<and> machine_ok cfg n root isf s' \<and>
      (\<forall>a. isk a \<longrightarrow> ld64 mmu a s' = ld64 mmu a s) \<and>
      (if free_frames n s = {} then f = PFN_INVALID \<and> frame_words isf s' = frame_words isf s \<and> free_frames n s' = {}
       else f \<in> free_frames n s \<and> (\<forall>g\<in>free_frames n s. if low then f \<le> g else g \<le> f) \<and> frame_words isf s' = (frame_words isf s)(f := (\<lambda>_. 0)) \<and> free_frames n s' = free_frames n s - {f})"
proof -
  note K = machine_okD [OF ok]
  note P = pfn_okD [OF K(1)]
  obtain rw where rw: "readlock (pfnalloc_lock s) = Some rw" "readunlock rw = Some (pfnalloc_lock s)"
    using readlock_quiet [OF P(5,6)] by blast
  let ?s = "s\<lparr>pfnalloc_lock := rw\<rparr>" and ?M = "get_ops mmu cfg hal_of"
  note A = alloc_locked [OF K(1) rw]
  have "bitmap_ok n ?s" using K(1) by (simp add: pfn_ok_def bitmap_ok_def)
  then show ?thesis
  proof (cases rule: stree_pfnalloc_cases [where M = ?M and low = low])
    case 1
    then have "pfn_alloc cfg client ?M low s = Some (PFN_INVALID, s)" using A [of ?M low PFN_INVALID s client] by simp
    then show ?thesis using 1 ok by (simp add: free_frames_def)
  next
    case (2 f t)
    have e: "free_frames n ?s = free_frames n s" by (simp add: free_frames_def)
    have f: "f \<in> free_frames n s" "isf f" using 2(1) K(5) [of f] e by auto
    let ?s1 = "s\<lparr>free_pages := free_pages s - 1, pg_stree := t\<rparr>"
    let ?r = "s\<lparr>pfnalloc_lock := rw, free_pages := free_pages s - 1, pg_stree := t\<rparr>"
    obtain pm where pm: "clear_page ?M (frame_va cfg f) ?r = ?r\<lparr>pmem := pm\<rparr>" "frame_words isf (?r\<lparr>pmem := pm\<rparr>) = (frame_words isf ?r)(f := (\<lambda>_. 0))"
        "\<forall>a. isk a \<longrightarrow> ld64 mmu a (?r\<lparr>pmem := pm\<rparr>) = ld64 mmu a ?r"
      using clear_page_ok [OF f(2) refl, of ?r] by metis
    let ?s' = "?s1\<lparr>pmem := pm\<rparr>"
    have "pfn_get (hal_of (held_ops mmu cfg)) cfg f ?r = Some (frame_va cfg f, ?r)" "pfn_put f va (?r\<lparr>pmem := pm\<rparr>) = Some (?r\<lparr>pmem := pm\<rparr>)" for va
      using get_direct [OF f(2), of ?r] get_direct [OF f(2), of "?r\<lparr>pmem := pm\<rparr>"] K(2) by simp_all
    then have "stree_pfnalloc ?M low ?s = Some (f, ?s'\<lparr>pfnalloc_lock := rw\<rparr>)" using 2(6) pm(1) by simp
    then have r: "pfn_alloc cfg client ?M low s = Some (f, ?s')" using A [of ?M low f ?s' client] by simp
    have fr: "free_frames n ?s' = free_frames n s - {f}"
      using 2(3,4) free_frames_iff [OF P(1)] free_frames_iff [of n ?s'] by (auto simp: word_unat_eq_iff)
    have "machine_ok cfg n root isf ?s'"
      using K 2(3,5) P fr by (auto simp: machine_ok_def pfn_ok_def bitmap_ok_def)
    moreover have "frame_words isf ?s' = (frame_words isf s)(f := (\<lambda>_. 0))"
      using pm(2) frame_words_pmem [of ?r s] frame_words_pmem [of ?s' "?r\<lparr>pmem := pm\<rparr>"] by simp
    moreover have "isk a \<longrightarrow> ld64 mmu a ?s' = ld64 mmu a s" for a
      using pm(1,3) mmu_kobj(1) by (simp add: ld64_def)
    moreover have "\<forall>g\<in>free_frames n s. if low then f \<le> g else g \<le> f" using 2(2) e by simp
    ultimately show ?thesis using r f(1) fr by (intro exI [of _ f] exI [of _ ?s']) auto
  qed
qed

lemma free_frame_ok:
  assumes ok: "machine_ok cfg n root isf s" and f: "isf f" "f \<noteq> root" "f \<notin> free_frames n s"
  shows "\<exists>s'. pfn_free cfg client f s = Some s' \<and> machine_ok cfg n root isf s' \<and> free_frames n s' = insert f (free_frames n s) \<and>
    frame_words isf s' = frame_words isf s \<and> (\<forall>a. isk a \<longrightarrow> ld64 mmu a s' = ld64 mmu a s)"
proof -
  note K = machine_okD [OF ok]
  obtain t where t: "pfn_free cfg client f s = Some (s\<lparr>pg_stree := t, free_pages := free_pages s + 1\<rparr>)"
      "pfn_ok cfg n (s\<lparr>pg_stree := t, free_pages := free_pages s + 1\<rparr>)" "stree_set n t = insert (unat f) (stree_set n (pg_stree s))"
    using pfn_free_ok [OF K(1) isfD(6,3,4) [OF f(1)] f(3)] by blast
  let ?s = "s\<lparr>pg_stree := t, free_pages := free_pages s + 1\<rparr>"
  have fr: "free_frames n ?s = insert f (free_frames n s)"
    using t(3) free_frames_iff [OF pfn_okD(1) [OF K(1)]] free_frames_iff [OF pfn_okD(1) [OF t(2)]] by (auto simp: word_unat_eq_iff)
  have "machine_ok cfg n root isf ?s" using K t(2) fr f(1,2) by (auto simp: machine_ok_def)
  moreover have "frame_words isf ?s = frame_words isf s" by (rule frame_words_pmem) simp
  moreover have "isk a \<longrightarrow> ld64 mmu a ?s = ld64 mmu a s" for a using mmu_kobj(1) by (simp add: ld64_def)
  ultimately show ?thesis using t(1) fr by simp
qed

end

sublocale riscv_machine \<subseteq> direct_frames "mm_ops mmu cfg client hal_of" "frame_words isf" "free_frames n" isf "frame_va cfg" root
    "machine_ok cfg n root isf" isk
proof (unfold_locales, goal_cases)
  case (1 s f)
  then show ?case using get_direct [of f s] machine_okD(2) [of s] by simp
next
  case (2 s f va)
  then show ?case using get_direct [of f s] machine_okD(2) [of s] by simp
next
  case (3 f)
  then show ?case using isfD by blast
next
  case (4 f i s)
  then show ?case using mmu_frame [OF 4] by (simp add: ld64_def frame_words_def)
next
  case (5 f i s s' v)
  have s': "s' = s\<lparr>pmem := (pmem s)(ptob f + 8 * of_nat i := v)\<rparr>" using 5(4) mmu_frame [OF 5(1,2)] by (simp add: st64_def)
  have "frame_words isf s' = fset (frame_words isf s) f i v" by (rule frame_words_set [where isf = isf, OF _ 5(1,2)]) (use isfD(5) in \<open>simp_all add: s'\<close>)
  moreover have "isk a \<longrightarrow> ld64 mmu a s' = ld64 mmu a s" for a using mmu_kobj(1,3) 5(1,2) by (simp add: ld64_def s')
  ultimately show ?case using 5(3) by (simp add: s')
next
  case (6 s)
  then show ?case using machine_okD(3) [of s] by (simp add: get_cpumap_l4pfn_def)
next
  case 7
  then show ?case using env by (simp add: machine_env_def)
next
  case (8 s)
  then show ?case by (rule machine_okD(4))
next
  case (9 s f)
  then show ?case by (rule machine_okD(5))
next
  case (10 s low)
  then show ?case using alloc_ok [of s low] by (cases "free_frames n s = {}") auto
next
  case (11 s f)
  then show ?case using free_frame_ok [of s f] by auto
next
  case (12 s s' va)
  have "isk a \<longrightarrow> ld64 mmu a s' = ld64 mmu a s" for a using 12(2) mmu_kobj(1) by (simp add: ld64_def hw_def)
  then show ?case using 12 by simp
next
  case (13 a s s' v)
  have s': "s' = s\<lparr>pmem := (pmem s)(kphys a := v)\<rparr>" using 13(3) mmu_kobj(1) [OF 13(1)] by (simp add: st64_def)
  have "frame_words isf s' = frame_words isf s" using mmu_kobj(3) [OF 13(1), THEN not_sym] by (auto simp: s' frame_words_def fun_eq_iff)
  then show ?case using 13(1,2) mmu_kobj(1,2) by (simp add: s' ld64_def)
qed

section \<open>Kernel mappings\<close>

text \<open>The mapping functions of the library on RISC-V: the HAL over the frame functions.\<close>

definition rv_ops :: "'a mmu \<Rightarrow> mm_cfg \<Rightarrow> 'a mm_st_scheme allocators \<Rightarrow> 'a mm_st_scheme pfn_ops" where
  "rv_ops mmu cfg client = mm_ops mmu cfg client riscv_hal"

abbreviation root_at :: "mm_cfg \<Rightarrow> pfn_t \<Rightarrow> nat \<Rightarrow> vaddr_t" where
  "root_at cfg root i \<equiv> frame_va cfg root + 8 * of_nat i"

text \<open>The current mapping in good order, its leaf entries, and the frames that a page may be given back from.\<close>

definition kspace_ok :: "'a mmu \<Rightarrow> mm_cfg \<Rightarrow> 'a mm_st_scheme allocators \<Rightarrow> nat \<Rightarrow> pfn_t \<Rightarrow> (pfn_t \<Rightarrow> bool) \<Rightarrow> 'a mm_st_scheme \<Rightarrow> bool" where
  "kspace_ok mmu cfg client n root isf s \<longleftrightarrow>
     map_ok (rv_ops mmu cfg client) (frame_words isf) (free_frames n) isf (machine_ok cfg n root isf) (root_at cfg root) 512 {root} s"

definition kleaf :: "'a mmu \<Rightarrow> mm_cfg \<Rightarrow> 'a mm_st_scheme allocators \<Rightarrow> pfn_t \<Rightarrow> (pfn_t \<Rightarrow> bool) \<Rightarrow> 'a mm_st_scheme \<Rightarrow> vaddr_t \<Rightarrow> u64" where
  "kleaf mmu cfg client root isf = leaf (rv_ops mmu cfg client) (frame_words isf) (root_at cfg root)"

definition page_frame :: "'a mmu \<Rightarrow> mm_cfg \<Rightarrow> 'a mm_st_scheme allocators \<Rightarrow> nat \<Rightarrow> pfn_t \<Rightarrow> (pfn_t \<Rightarrow> bool) \<Rightarrow> 'a mm_st_scheme \<Rightarrow> pfn_t \<Rightarrow> bool" where
  "page_frame mmu cfg client n root isf s f \<longleftrightarrow> isf f \<and> f \<noteq> root \<and> f \<notin> free_frames n s \<and>
     f \<notin> rframes 512 (l4v (rv_ops mmu cfg client) (root_at cfg root) s) (frame_words isf s)"

definition kaddr :: "vaddr_t \<Rightarrow> bool" where
  "kaddr va \<longleftrightarrow> pt_umap_maxaddr \<le> va"

lemma root_at_off: "ucast (ucast (L4OFF va) :: u32) = (of_nat (unat (L4OFF va)) :: u64)"
proof -
  have "unat (ucast (L4OFF va) :: u32) = unat (L4OFF va)" using off_less(4) [of va] by (simp add: unat_ucast_less)
  then have "unat (ucast (ucast (L4OFF va) :: u32) :: u64) = unat (L4OFF va)" using off_less(4) [of va] by (simp add: unat_ucast_less)
  then show ?thesis by (simp add: word_unat_eq_iff)
qed

text \<open>A change of the TLB generations is not seen by the page tables.\<close>

lemma markdirty_keep:
  "machine_ok cfg n root isf (ktlbgen_markdirty oper s) = machine_ok cfg n root isf s"
  "free_frames n (ktlbgen_markdirty oper s) = free_frames n s"
  "frame_words isf (ktlbgen_markdirty oper s) = frame_words isf s"
  by (simp_all add: ktlbgen_markdirty_def machine_ok_def pfn_ok_def bitmap_ok_def free_frames_def frame_words_def fun_eq_iff)

context riscv_machine
begin

lemma get_root:
  assumes "machine_ok cfg n root isf s"
  shows "get_cpumap_l4ptr (mm_ops mmu cfg client hal_of) va s = Some (root_at cfg root (unat (L4OFF va)), s)"
    "put_cpumap_l4ptr (mm_ops mmu cfg client hal_of) va p s = Some s"
proof -
  have "(ucast (L4OFF va) :: u32) < 512"
    using off_less(4) [of va] by (simp add: word_less_nat_alt unat_ucast_less)
  then show "get_cpumap_l4ptr (mm_ops mmu cfg client hal_of) va s = Some (root_at cfg root (unat (L4OFF va)), s)"
      "put_cpumap_l4ptr (mm_ops mmu cfg client hal_of) va p s = Some s"
    using get_frame [OF assms root_frame(2)] put_frame [OF assms root_frame(2)] root_frame(1) [OF assms] root_at_off [of va]
    by (simp_all add: get_cpumap_l4ptr_def get_cpumap_l4off_def put_cpumap_l4ptr_def)
qed

lemma ld_markdirty: "isk a \<or> (\<exists>i<512. a = root_at cfg root i) \<Longrightarrow> ld64 mmu a (ktlbgen_markdirty oper s) = ld64 mmu a s"
  using mmu_kobj(1) [of a] mmu_frame [OF root_frame(2)] by (auto simp: ld64_def ktlbgen_markdirty_def)

lemma mark_same:
  "cpumap.ok s \<Longrightarrow> cpumap.ok (ktlbgen_markdirty oper s)"
  "vpath 512 p \<Longrightarrow> cpumap.E (ktlbgen_markdirty oper s) p = cpumap.E s p"
  "cpumap.Tf (ktlbgen_markdirty oper s) = cpumap.Tf s"
proof -
  let ?M = "mm_ops mmu cfg client hal_of" and ?s = "ktlbgen_markdirty oper s"
  have l: "\<forall>j<512. l4v ?M (root_at cfg root) ?s j = l4v ?M (root_at cfg root) s j" using ld_markdirty by (auto simp: l4v_def)
  have e: "\<forall>p. vpath 512 p \<longrightarrow> cpumap.E ?s p = cpumap.E s p"
    using ent_cong [of 512 "l4v ?M (root_at cfg root) ?s" "l4v ?M (root_at cfg root) s"] l by (simp add: markdirty_keep)
  note S = cpumap.E_same [OF e]
  show "cpumap.ok s \<Longrightarrow> cpumap.ok ?s" using S(2,3) by (simp add: map_ok_def markdirty_keep)
  show "vpath 512 p \<Longrightarrow> cpumap.E ?s p = cpumap.E s p" using e by blast
  show "cpumap.Tf ?s = cpumap.Tf s" by (fact S(2))
qed

end

sublocale riscv_machine \<subseteq> kern: kernel_walk "riscv_hal (mm_ops mmu cfg client hal_of)" "cpumap.ok"
    "leaf (mm_ops mmu cfg client hal_of) (frame_words isf) (root_at cfg root)"
    "leaf_at (mm_ops mmu cfg client hal_of) (frame_words isf) (root_at cfg root) 512"
    kaddr vp "\<lambda>s. free_frames n s = {}" "mm_ops mmu cfg client hal_of"
    "\<lambda>s f. isf f \<and> f \<noteq> root \<and> f \<notin> free_frames n s \<and> f \<notin> cpumap.Tf s"
proof (unfold_locales, goal_cases)
  case (1 s va alloc)
  let ?M = "mm_ops mmu cfg client hal_of"
  obtain p s' where w: "walk_l1p ?M (root_at cfg root (unat (L4OFF va))) va alloc s = Some (p, s')" "cpumap.ok s'"
     "\<forall>x. unat (L4OFF x) < 512 \<longrightarrow> leaf ?M (frame_words isf) (root_at cfg root) s' x = leaf ?M (frame_words isf) (root_at cfg root) s x" "\<not> alloc \<longrightarrow> s' = s"
     "if p \<noteq> 0 then leaf_at ?M (frame_words isf) (root_at cfg root) 512 s' va p
      else leaf ?M (frame_words isf) (root_at cfg root) s va = 0 \<and> (alloc \<longrightarrow> free_frames n s' = {})"
    using cpumap.walk_leaf [OF 1(1) off_less(4), of va alloc] by blast
  have "\<not> va < pt_umap_maxaddr" using 1(2) by (simp add: kaddr_def not_less)
  then show ?case using w get_root [OF cpumap.okD(1) [OF 1(1)]] get_root [OF cpumap.okD(1) [OF w(2)]] off_less(4)
    by (simp add: riscv_hal_def riscv_kmap_getl1p_def cpumap_get_l1p_def)
next
  case (2 s va p)
  then show ?case using cpumap.leaf_get_set(1) [OF 2(1,3)] by (simp add: riscv_hal_def)
next
  case (3 s va p e)
  then show ?case using cpumap.leaf_get_set(2) [OF 3(1,3), of e] off_less(4) by (auto simp: riscv_hal_def)
next
  case (4 s oper)
  have "leaf (mm_ops mmu cfg client hal_of) (frame_words isf) (root_at cfg root) (ktlbgen_markdirty oper s) =
      leaf (mm_ops mmu cfg client hal_of) (frame_words isf) (root_at cfg root) s"
    using mark_same(2) [of _ oper s] vpath_vp [OF off_less(4)] by (auto simp: leaf_def)
  then show ?case using mark_same(1) 4 by blast
next
  case (5 s low)
  obtain f s' where a: "op_alloc (mm_ops mmu cfg client hal_of) low s = Some (f, s')" "machine_ok cfg n root isf s'"
      "\<forall>a. isk a \<longrightarrow> mem_ld (mm_ops mmu cfg client hal_of) a s' = mem_ld (mm_ops mmu cfg client hal_of) a s"
      "if free_frames n s = {} then f = PFN_INVALID \<and> frame_words isf s' = frame_words isf s \<and> free_frames n s' = {}
       else f \<in> free_frames n s \<and> frame_words isf s' = (frame_words isf s)(f := (\<lambda>_. 0)) \<and> free_frames n s' = free_frames n s - {f}"
    using alloc_frame [OF cpumap.okD(1) [OF 5], of low] by blast
  note R = cpumap.ok_alloc [OF 5 a]
  have f: "free_frames n s \<noteq> {} \<Longrightarrow> isf f \<and> f \<noteq> PFN_INVALID \<and> f \<noteq> root \<and> f \<notin> free_frames n s' \<and> f \<notin> cpumap.Tf s'"
    using a(4) avail_frames [OF cpumap.okD(1) [OF 5], of f] frame_not_invalid [of f] root_frame(3) [OF cpumap.okD(1) [OF 5]]
      cpumap.okD(4) [OF 5] R(4) by auto
  have "leaf_at (mm_ops mmu cfg client hal_of) (frame_words isf) (root_at cfg root) 512 s x p \<Longrightarrow>
      leaf_at (mm_ops mmu cfg client hal_of) (frame_words isf) (root_at cfg root) 512 s' x p" for x p
    using R(2,3) vpath_vp [OF off_less(4), of x] by (simp add: leaf_at_def)
  moreover have "leaf (mm_ops mmu cfg client hal_of) (frame_words isf) (root_at cfg root) s' x =
      leaf (mm_ops mmu cfg client hal_of) (frame_words isf) (root_at cfg root) s x" for x
    using R(2) vpath_vp [OF off_less(4), of x] by (simp add: leaf_def)
  ultimately show ?case using a R(1) f by (intro exI [of _ f] exI [of _ s']) (auto split: if_splits)
next
  case (6 s f)
  obtain s' where a: "op_free (mm_ops mmu cfg client hal_of) f s = Some s'" "machine_ok cfg n root isf s'" "frame_words isf s' = frame_words isf s"
      "free_frames n s' = insert f (free_frames n s)"
      "\<forall>a. isk a \<longrightarrow> mem_ld (mm_ops mmu cfg client hal_of) a s' = mem_ld (mm_ops mmu cfg client hal_of) a s"
    using free_frame [OF cpumap.okD(1) [OF 6(1)]] 6(2) by blast
  have "f \<notin> cpumap.Tf s" using 6(2) by blast
  note R = cpumap.ok_free [OF 6(1) this a(2-5)]
  have "leaf_at (mm_ops mmu cfg client hal_of) (frame_words isf) (root_at cfg root) 512 s x p \<Longrightarrow>
      leaf_at (mm_ops mmu cfg client hal_of) (frame_words isf) (root_at cfg root) 512 s' x p" for x p
    using R(2,3) vpath_vp [OF off_less(4), of x] by (simp add: leaf_at_def)
  moreover have "leaf (mm_ops mmu cfg client hal_of) (frame_words isf) (root_at cfg root) s' x =
      leaf (mm_ops mmu cfg client hal_of) (frame_words isf) (root_at cfg root) s x" for x
    using R(2) vpath_vp [OF off_less(4), of x] by (simp add: leaf_def)
  ultimately show ?case using a(1,4) R(1) by (intro exI [of _ s']) auto
next
  case (7 s va p e e' s' oper f)
  obtain s'' where "set_pte (mm_ops mmu cfg client hal_of) p e s = Some (e', s'')" "free_frames n s'' = free_frames n s" "cpumap.Tf s'' = cpumap.Tf s"
    using cpumap.leaf_get_set(2) [OF 7(1,3), of e] 7(4) by (auto simp: riscv_hal_def)
  moreover have "s'' = s'" using 7(4) calculation(1) by (simp add: riscv_hal_def)
  ultimately show ?case using mark_same(3) [of oper s'] markdirty_keep(2) [of n oper s'] by simp
qed

end
