(* ===== verification/Kspace.thy ===== *)
theory Kspace
  imports Machine
begin

text \<open>
  Kernel mappings on RISC-V: the functions of \<^verbatim>\<open>libnux/kmap.c\<close> over the page tables of \<^verbatim>\<open>libhal_riscv\<close>, over the
  frame allocator. The whole stack refines a map from pages to frames. A small machine, with its direct mapping
  and three free frames, instantiates the contracts.
\<close>

section \<open>Vocabulary\<close>

definition rv_hal :: "'a mmu \<Rightarrow> mm_cfg \<Rightarrow> 'a mm_st_scheme allocators \<Rightarrow> 'a mm_st_scheme hal" where
  "rv_hal mmu cfg client = riscv_hal (rv_ops mmu cfg client)"

text \<open>The frame that the page of an address is mapped to, \<open>PFN_INVALID\<close> when it is not.\<close>

definition kpage :: "'a mmu \<Rightarrow> mm_cfg \<Rightarrow> 'a mm_st_scheme allocators \<Rightarrow> pfn_t \<Rightarrow> (pfn_t \<Rightarrow> bool) \<Rightarrow> 'a mm_st_scheme \<Rightarrow> vaddr_t \<Rightarrow> pfn_t" where
  "kpage mmu cfg client root isf s va = entry_pfn (rv_hal mmu cfg client) (kleaf mmu cfg client root isf s va)"

text \<open>A machine of 128 frames, all of them in the direct mapping. Frame 3 holds kernel objects, frame 5 the root
  table; the free frames are 1, 2 and 127.\<close>

definition cfg0 :: mm_cfg where
  "cfg0 = \<lparr>dmapbase = 0xffff800000000000, dmapsize = 0x80000, pfncbase = 0xffffc00000000000, pfncsize = 0x100000, maxpfn = 128,
     cache_at = 0xffffffff80000100, boot_slot_at = 0xffffffff80000200, stree_pfnalloc_at = 0xffffffff81000000,
     stree_pfnfree_at = 0xffffffff81000100\<rparr>"

definition mmu0 :: "unit mmu" where
  "mmu0 s va = va - 0xffff800000000000"

definition isf0 :: "pfn_t \<Rightarrow> bool" where
  "isf0 f \<longleftrightarrow> f \<noteq> 0 \<and> f \<noteq> 3 \<and> f < 128"

definition isk0 :: "vaddr_t \<Rightarrow> bool" where
  "isk0 a \<longleftrightarrow> a \<in> (\<lambda>i. 0xffff800000003000 + 8 * of_nat i) ` {..<512}"

definition client0 :: "mm_st allocators" where
  "client0 = \<lparr>cl_alloc = (\<lambda>_ _ _. None), cl_free = (\<lambda>_ _ _. None)\<rparr>"

definition mm0 :: mm_st where
  "mm0 = cpu_st.extend st2 (mm_st.fields (\<lambda>_. 0) 5 \<lparr>lck = 0, lockcy = 0\<rparr> [6, 0x8000000000000000, 3] 7 3
     \<lparr>rdrs = 0, lr = \<lparr>lck = 0, lockcy = 0\<rparr>, lg = \<lparr>lck = 0, lockcy = 0\<rparr>\<rparr> 0xffffffff81000000 0xffffffff81000100
     0xffffc00000000000 128 cache0 0)"

declare bit_numeral_word_iff [simp del]

section \<open>The concrete machine\<close>

lemma env0: "machine_env mmu0 cfg0 7 5 isf0 isk0 (\<lambda>a. a - 0xffff800000000000)"
proof -
  have s: "f < 128 \<Longrightarrow> unat f < 128" for f :: u64 by (simp add: word_less_nat_alt)
  have "a - 0xffff800000000000 \<noteq> ptob f + 8 * of_nat i" if h: "isk0 a" "isf0 f" "i < 512" for a f i
  proof
    assume e: "a - 0xffff800000000000 = ptob f + 8 * of_nat i"
    obtain j where j: "j < 512" "a = 0xffff800000003000 + 8 * of_nat j" using h(1) by (auto simp: isk0_def)
    have "ptob 3 + 8 * of_nat j = ptob f + 8 * of_nat i" using e j(2) by (simp add: ptob_def)
    then show False using word_addr_inj [of 3 j f i] j(1) h(2,3) s [of f] by (simp add: isf0_def)
  qed
  then show ?thesis by (auto simp: machine_env_def isf0_def cfg0_def mmu0_def dest: s)
qed

interpretation m0: riscv_machine mmu0 cfg0 client0 riscv_hal 7 5 isf0 isk0 "\<lambda>a. a - 0xffff800000000000"
  by unfold_locales (rule env0)

lemma set0: "stree_set 7 [6, 0x8000000000000000, 3] = {1, 2, 127}"
proof -
  have b6: "bit (6::u64) j \<longleftrightarrow> j = 1 \<or> j = 2" for j
  proof (cases "3 \<le> j")
    case True
    then show ?thesis using not_bit_ge [of "6::u64" 3 j] by auto
  next
    case False
    then have "j = 0 \<or> j = 1 \<or> j = 2" by auto
    then show ?thesis by (auto simp: bit_iff_odd)
  qed
  have "a \<in> stree_set 7 [6, 0x8000000000000000, 3] \<longleftrightarrow> a \<in> {1, 2, 127}" for a
  proof (cases "a < 64")
    case True
    then show ?thesis by (auto simp: stree_set_def lv_def lbase_def b6)
  next
    case False
    then have "a < 128 \<Longrightarrow> a div 64 = 1 \<and> a mod 64 = a - 64" by (auto simp: le_mod_geq)
    then show ?thesis using False by (auto simp: stree_set_def lv_def lbase_def bit_numeral_pow)
  qed
  then show ?thesis by blast
qed

lemma mm0_fields:
  "pmem mm0 = (\<lambda>_. 0)" "satp mm0 = 5" "pg_stree mm0 = [6, 0x8000000000000000, 3]" "pg_order mm0 = 7" "free_pages mm0 = 3"
  "unlocked (pglock mm0)" "max_dmap_pfn mm0 = 128" "pfnalloc_fn mm0 = 0xffffffff81000000" "pfnfree_fn mm0 = 0xffffffff81000100"
  "rdrs (pfnalloc_lock mm0) = 0" "rw_quiet (pfnalloc_lock mm0)"
  by (simp_all add: mm0_def mm_st.defs cpu_st.defs rw_quiet_def)

lemma free0: "free_frames 7 mm0 = {1, 2, 127}"
  by (simp add: free_frames_def mm0_fields set0)

lemma machine0: "machine_ok cfg0 7 5 isf0 mm0"
proof -
  have "stree_ok 7 (pg_stree mm0)" unfolding mm0_fields by (rule stree_ok_two) simp_all
  then show ?thesis
    by (simp add: machine_ok_def pfn_ok_def bitmap_ok_def mm0_fields set0 free0 cfg0_def isf0_def)
qed

lemma ent_empty: "\<forall>i. r i = 0 \<Longrightarrow> p \<noteq> [] \<Longrightarrow> rent r fw p = 0"
proof (induction p)
  case (Cons i p)
  then show ?case by (cases p) (simp_all add: ent_Cons)
qed simp

lemma ent0:
  assumes "vpath 512 p"
  shows "rent (l4v (rv_ops mmu0 cfg0 client0) (root_at cfg0 5) mm0) (frame_words isf0 mm0) p = 0"
proof -
  have "l4v (rv_ops mmu0 cfg0 client0) (root_at cfg0 5) mm0 i = 0" for i
    by (simp add: l4v_def rv_ops_def ld64_def mm0_fields)
  then show ?thesis using ent_empty assms by (auto simp: vpath_def)
qed

lemma rtabs0: "rtabs 512 (l4v (rv_ops mmu0 cfg0 client0) (root_at cfg0 5) mm0) (frame_words isf0 mm0) = {}"
  using ent0 by (auto simp: tabs_def)

lemma kleaf0: "kleaf mmu0 cfg0 client0 5 isf0 mm0 va = 0"
  using ent0 [of "vp va"] vpath_vp [OF off_less(4), of va] by (simp add: kleaf_def leaf_def)

lemma kspace0: "kspace_ok mmu0 cfg0 client0 7 5 isf0 mm0"
  using machine0 rtabs0 by (simp add: kspace_ok_def map_ok_def pt_wf_def tframes_def)

lemma kaddr0: "kaddr 0xffff900000000000"
  by (simp add: kaddr_def pt_umap_maxaddr_def)

section \<open>The stack of mapping functions\<close>

lemma rv_box_0: "hal_l1e_unbox (riscv_hal M) 0 = (0, 0)" "hal_l1e_box (riscv_hal M) 0 0 = 0" "entry_pfn (riscv_hal M) 0 = PFN_INVALID"
  by (simp_all add: entry_pfn_def riscv_hal_def riscv_l1e_unbox_def riscv_l1e_box_def)

lemma rv_entry_box:
  assumes "unat pfn < 2 ^ 54"
  shows "entry_pfn (riscv_hal M) (hal_l1e_box (riscv_hal M) pfn prot) = (if prot AND HAL_PTE_P \<noteq> 0 then pfn else PFN_INVALID)"
proof -
  have "pfn AND mask 54 = pfn" using assms by (simp add: word_unat_eq_iff unat_and_mask)
  moreover have "(prot AND 0x1ff) AND HAL_PTE_P = prot AND HAL_PTE_P" by (simp add: and.assoc)
  ultimately show ?thesis
    using riscv_box_pfn [of pfn prot] riscv_box_prot [of pfn prot] by (simp add: entry_pfn_def riscv_hal_def)
qed

lemma rv_unbox_box:
  assumes "unat pfn < 2 ^ 54" "prot AND HAL_PTE_P \<noteq> 0" "prot AND 0x1ff = prot"
  shows "riscv_l1e_unbox (riscv_l1e_box pfn prot) = (pfn, prot)"
proof -
  have "pfn AND mask 54 = pfn" using assms(1) by (simp add: word_unat_eq_iff unat_and_mask)
  then show ?thesis using riscv_box_pfn [of pfn prot] riscv_box_prot [of pfn prot] assms by (simp add: prod_eq_iff)
qed

lemma rv_unbox_small: "riscv_l1e_unbox e = (pfn, prot) \<Longrightarrow> unat pfn < 2 ^ 54"
proof -
  assume "riscv_l1e_unbox e = (pfn, prot)"
  then have "pfn = drop_bit 10 e" by (simp add: riscv_l1e_unbox_def pte_pfn_def)
  moreover have "unat e < 2 ^ 64" using unsigned_less [of e] by simp
  ultimately show ?thesis by (simp add: unat_drop_bit_eq drop_bit_eq_div unat_div)
qed

lemma all_nat_0: "(\<forall>k. Q k) \<longleftrightarrow> Q 0 \<and> (\<forall>k. Q (Suc k))"
  by (metis not0_implies_Suc)

context riscv_machine
begin

abbreviation page_of :: "'a mm_st_scheme \<Rightarrow> vaddr_t \<Rightarrow> pfn_t" where
  "page_of s va \<equiv> entry_pfn (riscv_hal (mm_ops mmu cfg client hal_of)) (leaf (mm_ops mmu cfg client hal_of) (frame_words isf) (root_at cfg root) s va)"

lemma kmap_read: "cpumap.ok s \<Longrightarrow> kaddr va \<Longrightarrow> kmap_getpfn (riscv_hal (mm_ops mmu cfg client hal_of)) va s = Some (page_of s va, s)"
  using kern.getpfn_law rv_box_0(1) by blast

lemma kmap_remove:
  assumes "cpumap.ok s" "kaddr va"
  shows "\<exists>s'. kmap_unmap (riscv_hal (mm_ops mmu cfg client hal_of)) va s = Some (page_of s va, s') \<and> cpumap.ok s' \<and>
    (\<forall>x. kaddr x \<longrightarrow> page_of s' x = (if vp x = vp va then PFN_INVALID else page_of s x))"
proof -
  let ?lk = "leaf (mm_ops mmu cfg client hal_of) (frame_words isf) (root_at cfg root)"
  obtain s' where s': "kmap_unmap (riscv_hal (mm_ops mmu cfg client hal_of)) va s = Some (page_of s va, s')" "cpumap.ok s'"
      "\<forall>x. kaddr x \<longrightarrow> vp x \<noteq> vp va \<longrightarrow> ?lk s' x = ?lk s x" "?lk s' va = 0"
    using kern.unmap_law [OF assms rv_box_0(1,2)] by blast
  have "vp x = vp va \<Longrightarrow> ?lk s' x = 0" for x using s'(4) by (simp add: leaf_def)
  then show ?thesis using s' by (intro exI [of _ s']) (simp add: rv_box_0(3))
qed

lemma kmap_enter:
  assumes "cpumap.ok s" "kaddr va" "unat pfn < 2 ^ 54"
  shows "(\<exists>s'. kmap_map (riscv_hal (mm_ops mmu cfg client hal_of)) va pfn prot s = Some (page_of s va, s') \<and> cpumap.ok s' \<and>
      (\<forall>x. kaddr x \<longrightarrow> page_of s' x = (if vp x = vp va then if prot AND HAL_PTE_P \<noteq> 0 then pfn else PFN_INVALID else page_of s x))) \<or>
    kmap_map (riscv_hal (mm_ops mmu cfg client hal_of)) va pfn prot s = None \<and> page_of s va = PFN_INVALID \<and>
      (\<exists>p s'. hal_kmap_getl1p (riscv_hal (mm_ops mmu cfg client hal_of)) va True s = Some ((False, p), s') \<and> free_frames n s' = {})"
  using kern.map_law [OF assms(1,2), of pfn prot True] unfolding kmap_map_def
  by (elim disjE exE conjE) (auto simp: rv_entry_box [OF assms(3)] rv_box_0(3))

lemma kmap_protect:
  assumes ok: "cpumap.ok s" and va: "kaddr va"
    and u: "riscv_l1e_unbox (leaf (mm_ops mmu cfg client hal_of) (frame_words isf) (root_at cfg root) s va) = (pfn, prot)"
    and prot: "prot AND HAL_PTE_P = 0 \<longrightarrow> prot = 0" and req: "reqprot AND HAL_PTE_P \<noteq> 0 \<or> reqprot = 0" "reqprot AND 0x1ff = reqprot"
    and own: "prot \<noteq> 0 \<and> reqprot = 0 \<longrightarrow> isf pfn \<and> pfn \<noteq> root \<and> pfn \<notin> free_frames n s \<and> pfn \<notin> cpumap.Tf s"
  shows "(\<exists>f s'. kmap_ensure (riscv_hal (mm_ops mmu cfg client hal_of)) (mm_ops mmu cfg client hal_of) va reqprot s = Some (0, s') \<and> cpumap.ok s' \<and>
      riscv_l1e_unbox (leaf (mm_ops mmu cfg client hal_of) (frame_words isf) (root_at cfg root) s' va) = (f, reqprot) \<and>
      (reqprot \<noteq> 0 \<and> prot = 0 \<longrightarrow> isf f \<and> f \<noteq> root \<and> f \<notin> free_frames n s' \<and> f \<notin> cpumap.Tf s') \<and> (reqprot \<noteq> 0 \<and> prot \<noteq> 0 \<longrightarrow> f = pfn) \<and>
      (reqprot = 0 \<and> prot \<noteq> 0 \<longrightarrow> \<not> (isf pfn \<and> pfn \<noteq> root \<and> pfn \<notin> free_frames n s' \<and> pfn \<notin> cpumap.Tf s')) \<and>
      (\<forall>x. kaddr x \<and> vp x \<noteq> vp va \<longrightarrow> leaf (mm_ops mmu cfg client hal_of) (frame_words isf) (root_at cfg root) s' x =
         leaf (mm_ops mmu cfg client hal_of) (frame_words isf) (root_at cfg root) s x)) \<or>
    (\<exists>s'. kmap_ensure (riscv_hal (mm_ops mmu cfg client hal_of)) (mm_ops mmu cfg client hal_of) va reqprot s = Some (- 1, s') \<and> cpumap.ok s' \<and>
      free_frames n s' = {} \<and> (\<forall>x. kaddr x \<longrightarrow> leaf (mm_ops mmu cfg client hal_of) (frame_words isf) (root_at cfg root) s' x =
         leaf (mm_ops mmu cfg client hal_of) (frame_words isf) (root_at cfg root) s x)) \<or>
    (kmap_ensure (riscv_hal (mm_ops mmu cfg client hal_of)) (mm_ops mmu cfg client hal_of) va reqprot s = None \<and>
      (\<exists>p s'. hal_kmap_getl1p (riscv_hal (mm_ops mmu cfg client hal_of)) va True s = Some ((False, p), s') \<and> free_frames n s' = {}))"
proof -
  let ?H = "riscv_hal (mm_ops mmu cfg client hal_of)" and ?lk = "leaf (mm_ops mmu cfg client hal_of) (frame_words isf) (root_at cfg root)"
  have U: "hal_l1e_unbox ?H (?lk s va) = (pfn, prot)" "hal_l1e_unbox ?H 0 = (0, 0)" using u rv_box_0(1) by (simp_all add: riscv_hal_def)
  show ?thesis
  proof (cases "prot = 0")
    case p0: True
    show ?thesis
    proof (cases "reqprot = 0")
      case True
      then show ?thesis using kern.ensure_unchanged [OF ok va U(2), of reqprot] U(1) p0 u ok by auto
    next
      case False
      then have "snd (hal_l1e_unbox ?H (?lk s va)) AND HAL_PTE_P = 0" "reqprot AND HAL_PTE_P \<noteq> 0" using U(1) p0 req by auto
      from kern.ensure_populate [OF ok va U(2) this] show ?thesis
      proof (elim disjE exE conjE)
        fix f s' assume a: "kmap_ensure ?H (mm_ops mmu cfg client hal_of) va reqprot s = Some (0, s')" "cpumap.ok s'"
          "isf f" "f \<noteq> root" "f \<notin> free_frames n s'" "f \<notin> cpumap.Tf s'" "f \<noteq> PFN_INVALID"
          "\<forall>x. kaddr x \<longrightarrow> ?lk s' x = (if vp x = vp va then hal_l1e_box ?H f reqprot else ?lk s x)"
        have "riscv_l1e_unbox (?lk s' va) = (f, reqprot)" using a(8) va rv_unbox_box [of f reqprot] isfD(5) [OF a(3)] req False by (simp add: riscv_hal_def)
        then show ?thesis using a p0 False by (intro disjI1 exI [of _ f] exI [of _ s']) simp
      qed auto
    qed
  next
    case p1: False
    then have pp: "prot AND HAL_PTE_P \<noteq> 0" using prot by auto
    have pf: "unat pfn < 2 ^ 54" using u rv_unbox_small by blast
    consider "reqprot = 0" | "reqprot = prot" "reqprot \<noteq> 0" | "reqprot \<noteq> 0" "reqprot \<noteq> prot" "reqprot AND HAL_PTE_P \<noteq> 0" using req by blast
    then show ?thesis
    proof cases
      case 1
      then obtain s' where a: "kmap_ensure ?H (mm_ops mmu cfg client hal_of) va reqprot s = Some (0, s')" "cpumap.ok s'"
          "\<not> (isf pfn \<and> pfn \<noteq> root \<and> pfn \<notin> free_frames n s' \<and> pfn \<notin> cpumap.Tf s')"
          "\<forall>x. kaddr x \<longrightarrow> ?lk s' x = (if vp x = vp va then hal_l1e_box ?H PFN_INVALID reqprot else ?lk s x)"
        using kern.ensure_release [OF ok va U(2,1) pp, of reqprot] own p1 by auto
      have "snd (riscv_l1e_unbox (?lk s' va)) = 0" using a(4) va 1 riscv_box_prot [of PFN_INVALID 0] by (simp add: riscv_hal_def)
      then show ?thesis using a p1 1 by (intro disjI1 exI [of _ "fst (riscv_l1e_unbox (?lk s' va))"] exI [of _ s']) (auto simp: prod_eq_iff)
    next
      case 2
      then show ?thesis using kern.ensure_unchanged [OF ok va U(2), of reqprot] U(1) u ok by auto
    next
      case 3
      obtain s' where a: "kmap_ensure ?H (mm_ops mmu cfg client hal_of) va reqprot s = Some (0, s')" "cpumap.ok s'"
          "\<forall>x. kaddr x \<longrightarrow> ?lk s' x = (if vp x = vp va then hal_l1e_box ?H pfn reqprot else ?lk s x)"
        using kern.ensure_change [OF ok va U(2,1) pp 3(3,2)] by auto
      have "riscv_l1e_unbox (?lk s' va) = (pfn, reqprot)" using a(3) va rv_unbox_box [OF pf] 3(3) req(2) by (simp add: riscv_hal_def)
      then show ?thesis using a 3(1) p1 by (intro disjI1 exI [of _ pfn] exI [of _ s']) simp
    qed
  qed
qed

lemma mapped_total:
  assumes "cpumap.ok s"
  shows "kmap_mapped (riscv_hal (mm_ops mmu cfg client hal_of)) va s = Some (kaddr va \<and> tl (vp va) \<in> cpumap.Tb s, s)"
proof (cases "kaddr va")
  case True
  let ?M = "mm_ops mmu cfg client hal_of"
  obtain p where w: "walk_l1p ?M (root_at cfg root (unat (L4OFF va))) va False s = Some (p, s)"
      "if p = 0 then \<not> pte_valid (cpumap.E s (tl (vp va))) else tl (vp va) \<in> cpumap.Tb s"
    using cpumap.walk_l1p_ok [OF assms off_less(4), of va False] by auto
  have "tl (vp va) \<in> cpumap.Tb s \<longleftrightarrow> p \<noteq> 0" using w(2) by (auto dest: tabsD(3) split: if_splits)
  moreover have "\<not> va < pt_umap_maxaddr" using True by (simp add: kaddr_def not_less)
  ultimately show ?thesis using w(1) get_root [OF cpumap.okD(1) [OF assms]] True
    by (simp add: kmap_mapped_def riscv_hal_def riscv_kmap_getl1p_def cpumap_get_l1p_def)
next
  case False
  then show ?thesis by (simp add: kmap_mapped_def riscv_hal_def riscv_kmap_getl1p_def kaddr_def not_le)
qed

lemma mapped_loop_total:
  assumes ok: "cpumap.ok s" and e: "unat e \<le> 2 ^ 64 - 4096"
  shows "mapped_loop (riscv_hal (mm_ops mmu cfg client hal_of)) i e s =
    Some (\<forall>k. unat i + 4096 * k < unat e \<longrightarrow> kaddr (i + 4096 * of_nat k) \<and> tl (vp (i + 4096 * of_nat k)) \<in> cpumap.Tb s, s)"
proof (induction "unat e - unat i" arbitrary: i rule: less_induct)
  case less
  let ?P = "\<lambda>k. kaddr (i + 4096 * of_nat k) \<and> tl (vp (i + 4096 * of_nat k)) \<in> cpumap.Tb s"
  show ?case
  proof (cases "i < e")
    case True
    then have ie: "unat i < unat e" by (simp add: word_less_nat_alt)
    have u: "unat (i + PAGE_SIZE) = unat i + 4096" using ie e by (simp add: unat_word_ariths)
    have a: "i + PAGE_SIZE + 4096 * of_nat k = i + 4096 * of_nat (Suc k)" for k by (simp add: distrib_left add.assoc)
    have IH: "mapped_loop (riscv_hal (mm_ops mmu cfg client hal_of)) (i + PAGE_SIZE) e s = Some (\<forall>k. unat i + 4096 * Suc k < unat e \<longrightarrow> ?P (Suc k), s)"
      using less [of "i + PAGE_SIZE"] ie u unfolding a u by (simp del: of_nat_Suc add: add.assoc)
    have all: "(\<forall>k. unat i + 4096 * k < unat e \<longrightarrow> ?P k) \<longleftrightarrow> ?P 0 \<and> (\<forall>k. unat i + 4096 * Suc k < unat e \<longrightarrow> ?P (Suc k))"
      using ie all_nat_0 [of "\<lambda>k. unat i + 4096 * k < unat e \<longrightarrow> ?P k"] by simp
    have "mapped_loop (riscv_hal (mm_ops mmu cfg client hal_of)) i e s =
        (if kaddr i \<and> tl (vp i) \<in> cpumap.Tb s then mapped_loop (riscv_hal (mm_ops mmu cfg client hal_of)) (i + PAGE_SIZE) e s else Some (False, s))"
      by (subst mapped_loop.simps) (simp add: True mapped_total [OF ok])
    then show ?thesis unfolding all IH by auto
  next
    case False
    then show ?thesis by (subst mapped_loop.simps) (simp add: word_less_nat_alt not_less)
  qed
qed

end

section \<open>Properties\<close>

text \<open>
  C4. The frame allocator refines a set of free frames. \<^verbatim>\<open>pfn_alloc\<close> returns the lowest or, when asked, the highest of
  them, out of the set from then on, with every word of it zero and no other frame touched; it returns
  \<open>PFN_INVALID\<close> exactly when the set is empty. \<^verbatim>\<open>pfn_free\<close> puts a frame back. The locks are released, and \<^verbatim>\<open>pfn_avail\<close>
  is the size of the set.
\<close>

theorem pfn_alloc_refines:
  assumes env: "machine_env mmu cfg n root isf isk kphys" and ok: "machine_ok cfg n root isf s"
    and f: "isf f" "f \<noteq> root" "f \<notin> free_frames n s"
  shows "pfn_avail s = of_nat (card (free_frames n s)) \<and>
    (\<exists>g s'. op_alloc (rv_ops mmu cfg client) low s = Some (g, s') \<and> machine_ok cfg n root isf s' \<and>
      (if free_frames n s = {} then g = PFN_INVALID \<and> free_frames n s' = {} \<and> frame_words isf s' = frame_words isf s
       else g \<in> free_frames n s \<and> (\<forall>x\<in>free_frames n s. if low then g \<le> x else x \<le> g) \<and>
         free_frames n s' = free_frames n s - {g} \<and> frame_words isf s' = (frame_words isf s)(g := (\<lambda>_. 0)))) \<and>
    (\<exists>s'. op_free (rv_ops mmu cfg client) f s = Some s' \<and> machine_ok cfg n root isf s' \<and>
      free_frames n s' = insert f (free_frames n s) \<and> frame_words isf s' = frame_words isf s)"
proof (intro conjI)
  note R = riscv_machine.alloc_ok riscv_machine.free_frame_ok
  note L = R [OF riscv_machine.intro [OF env] ok, where client = client]
  show "pfn_avail s = of_nat (card (free_frames n s))"
    using ok pfn_avail_ok by (auto simp: machine_ok_def)
  show "\<exists>g s'. op_alloc (rv_ops mmu cfg client) low s = Some (g, s') \<and> machine_ok cfg n root isf s' \<and>
      (if free_frames n s = {} then g = PFN_INVALID \<and> free_frames n s' = {} \<and> frame_words isf s' = frame_words isf s
       else g \<in> free_frames n s \<and> (\<forall>x\<in>free_frames n s. if low then g \<le> x else x \<le> g) \<and>
         free_frames n s' = free_frames n s - {g} \<and> frame_words isf s' = (frame_words isf s)(g := (\<lambda>_. 0)))"
    using L(1) [where hal_of = riscv_hal and low = low] by (cases "free_frames n s = {}") (auto simp: rv_ops_def)
  show "\<exists>s'. op_free (rv_ops mmu cfg client) f s = Some s' \<and> machine_ok cfg n root isf s' \<and>
      free_frames n s' = insert f (free_frames n s) \<and> frame_words isf s' = frame_words isf s"
    using L(2) [OF f] by (auto simp: rv_ops_def)
qed


theorem pfn_alloc_refines_witness:
  "pfn_avail mm0 = 3 \<and> (\<exists>s'. op_alloc (rv_ops mmu0 cfg0 client0) True mm0 = Some (1, s') \<and> free_frames 7 s' = {2, 127}) \<and>
   (\<exists>s'. op_free (rv_ops mmu0 cfg0 client0) 4 mm0 = Some s' \<and> free_frames 7 s' = {4, 1, 2, 127})"
proof -
  have "isf0 4" "4 \<noteq> (5 :: pfn_t)" "4 \<notin> free_frames 7 mm0" by (simp_all add: isf0_def free0)
  note W = pfn_alloc_refines [OF env0 machine0 this, where client = client0 and low = True, unfolded free0]
  have "pfn_avail mm0 = of_nat (card {1 :: pfn_t, 2, 127})" by (rule conjunct1 [OF W])
  then have a: "pfn_avail mm0 = 3" by simp
  obtain g s' where "op_alloc (rv_ops mmu0 cfg0 client0) True mm0 = Some (g, s') \<and> machine_ok cfg0 7 5 isf0 s' \<and>
      (if {1 :: pfn_t, 2, 127} = {} then g = PFN_INVALID \<and> free_frames 7 s' = {} \<and> frame_words isf0 s' = frame_words isf0 mm0
       else g \<in> {1, 2, 127} \<and> (\<forall>x\<in>{1, 2, 127}. if True then g \<le> x else x \<le> g) \<and>
         free_frames 7 s' = {1, 2, 127} - {g} \<and> frame_words isf0 s' = (frame_words isf0 mm0)(g := (\<lambda>_. 0)))"
    using conjunct1 [OF conjunct2 [OF W]] by (elim exE)
  then have g: "op_alloc (rv_ops mmu0 cfg0 client0) True mm0 = Some (g, s')" "g \<in> {1, 2, 127}" "g \<le> 1" "free_frames 7 s' = {1, 2, 127} - {g}"
    by simp_all
  have "g = 1" using g(2,3) by (elim insertE) (simp_all add: word_le_nat_alt)
  then have "op_alloc (rv_ops mmu0 cfg0 client0) True mm0 = Some (1, s') \<and> free_frames 7 s' = {2, 127}" using g(1,4) by simp
  then show ?thesis using a conjunct2 [OF conjunct2 [OF W]] by (intro conjI) (blast, blast, blast)
qed







end
