(* ===== verification/Uspace.thy ===== *)
theory Uspace
  imports Kspace
begin

text \<open>
  User mappings on RISC-V: the functions of \<^verbatim>\<open>libnux/umap.c\<close> for a mapping that is not the current one, whose top-level
  entries are in its \<^verbatim>\<open>struct hal_umap\<close>.
\<close>

section \<open>Vocabulary\<close>

text \<open>The mapping whose \<^verbatim>\<open>struct hal_umap\<close> is at \<open>u\<close>: in good order, its leaf entries and its pages.\<close>

definition uspace_ok :: "'a mmu \<Rightarrow> mm_cfg \<Rightarrow> 'a mm_st_scheme allocators \<Rightarrow> nat \<Rightarrow> pfn_t \<Rightarrow> (pfn_t \<Rightarrow> bool) \<Rightarrow> u64 \<Rightarrow> 'a mm_st_scheme \<Rightarrow> bool" where
  "uspace_ok mmu cfg client n root isf u s \<longleftrightarrow>
     map_ok (rv_ops mmu cfg client) (frame_words isf) (free_frames n) isf (machine_ok cfg n root isf) (\<lambda>i. umap_l4 u (of_nat i)) 8 {} s"

definition uleaf :: "'a mmu \<Rightarrow> mm_cfg \<Rightarrow> 'a mm_st_scheme allocators \<Rightarrow> (pfn_t \<Rightarrow> bool) \<Rightarrow> u64 \<Rightarrow> 'a mm_st_scheme \<Rightarrow> uaddr_t \<Rightarrow> u64" where
  "uleaf mmu cfg client isf u = leaf (rv_ops mmu cfg client) (frame_words isf) (\<lambda>i. umap_l4 u (of_nat i))"

definition upage :: "'a mmu \<Rightarrow> mm_cfg \<Rightarrow> 'a mm_st_scheme allocators \<Rightarrow> (pfn_t \<Rightarrow> bool) \<Rightarrow> u64 \<Rightarrow> 'a mm_st_scheme \<Rightarrow> uaddr_t \<Rightarrow> pfn_t" where
  "upage mmu cfg client isf u s va = entry_pfn (rv_hal mmu cfg client) (uleaf mmu cfg client isf u s va)"

definition uaddr :: "uaddr_t \<Rightarrow> bool" where
  "uaddr va \<longleftrightarrow> va < pt_umap_maxaddr"

section \<open>Lemmas\<close>

lemma uaddr_l4:
  assumes "uaddr va"
  shows "unat (L4OFF va) < 8" "L4OFF va < of_nat 8"
proof -
  have v: "unat va < 2 ^ 42" using assms by (simp add: uaddr_def pt_umap_maxaddr_def word_less_nat_alt)
  have "(0x1ff :: u64) = mask 9" by (simp add: mask_numeral)
  then have "unat (L4OFF va) = drop_bit 39 (unat va) mod 2 ^ 9" by (simp only: L4OFF_def unat_and_mask unat_drop_bit_eq)
  then have "unat (L4OFF va) = unat va div 2 ^ 39 mod 2 ^ 9" by (simp only: drop_bit_eq_div)
  also have "\<dots> \<le> unat va div 2 ^ 39" by simp
  also have "\<dots> < 8" using v by simp
  finally show "unat (L4OFF va) < 8" .
  then show "L4OFF va < of_nat 8" by (simp add: word_less_nat_alt)
qed

lemma or_tlbop_keep:
  "machine_ok cfg n root isf (or_tlbop um oper s) = machine_ok cfg n root isf s"
  "free_frames n (or_tlbop um oper s) = free_frames n s"
  "frame_words isf (or_tlbop um oper s) = frame_words isf s"
  by (simp_all add: or_tlbop_def upd_umap_def machine_ok_def pfn_ok_def bitmap_ok_def free_frames_def frame_words_def fun_eq_iff)

lemma tlbop_flush [simp]: "um_tlbop (umaps (or_tlbop um (hal_l1e_tlbop (riscv_hal M) a b) s) um) AND HAL_TLBOP_FLUSH \<noteq> 0"
  by (simp add: or_tlbop_def upd_umap_def riscv_hal_def riscv_l1e_tlbop_def and_numeral_bit bit_or_iff)

locale riscv_umap = riscv_machine +
  fixes u :: u64
  assumes umap_words: "i < 8 \<Longrightarrow> isk (umap_l4 u (of_nat i))"

sublocale riscv_umap \<subseteq> umap_array "mm_ops mmu cfg client hal_of" "frame_words isf" "free_frames n" isf "frame_va cfg" root
    "machine_ok cfg n root isf" isk u
  by unfold_locales (rule umap_words)

context riscv_umap
begin

abbreviation ulk :: "'a mm_st_scheme \<Rightarrow> vaddr_t \<Rightarrow> u64" where
  "ulk \<equiv> leaf (mm_ops mmu cfg client hal_of) (frame_words isf) (\<lambda>i. umap_l4 u (of_nat i))"

abbreviation uat :: "'a mm_st_scheme \<Rightarrow> vaddr_t \<Rightarrow> u64 \<Rightarrow> bool" where
  "uat \<equiv> leaf_at (mm_ops mmu cfg client hal_of) (frame_words isf) (\<lambda>i. umap_l4 u (of_nat i)) 8"

lemma or_tlbop_same:
  "uarr.ok s \<Longrightarrow> uarr.ok (or_tlbop um oper s)" "uaddr x \<Longrightarrow> ulk (or_tlbop um oper s) x = ulk s x"
proof -
  let ?M = "mm_ops mmu cfg client hal_of" and ?s = "or_tlbop um oper s"
  have l: "\<forall>j<8. l4v ?M (\<lambda>i. umap_l4 u (of_nat i)) ?s j = l4v ?M (\<lambda>i. umap_l4 u (of_nat i)) s j"
    using mmu_kobj(1) [OF umap_words] by (auto simp: l4v_def ld64_def or_tlbop_def upd_umap_def)
  have e: "\<forall>p. vpath 8 p \<longrightarrow> uarr.E ?s p = uarr.E s p"
    using ent_cong [of 8 "l4v ?M (\<lambda>i. umap_l4 u (of_nat i)) ?s" "l4v ?M (\<lambda>i. umap_l4 u (of_nat i)) s"] l by (simp add: or_tlbop_keep)
  note S = uarr.E_same [OF e]
  show "uarr.ok s \<Longrightarrow> uarr.ok ?s" using S(2,3) by (simp add: map_ok_def or_tlbop_keep)
  show "uaddr x \<Longrightarrow> ulk ?s x = ulk s x" using e vpath_vp [OF uaddr_l4(1)] by (simp add: leaf_def)
qed

lemma ugetl1p:
  assumes "uarr.ok s" "uaddr va"
  shows "\<exists>p s'. hal_umap_getl1p (riscv_hal (mm_ops mmu cfg client hal_of)) (Some u) va alloc s = Some ((p \<noteq> L1P_INVALID, p), s') \<and> uarr.ok s' \<and>
    (\<forall>x. uaddr x \<longrightarrow> ulk s' x = ulk s x) \<and> (\<not> alloc \<longrightarrow> s' = s) \<and>
    (if p \<noteq> L1P_INVALID then uat s' va p else ulk s va = 0 \<and> (alloc \<longrightarrow> free_frames n s' = {}))"
proof -
  obtain p s' where w: "walk_l1p (mm_ops mmu cfg client hal_of) (umap_l4 u (of_nat (unat (L4OFF va)))) va alloc s = Some (p, s')" "uarr.ok s'"
     "\<forall>x. unat (L4OFF x) < 8 \<longrightarrow> ulk s' x = ulk s x" "\<not> alloc \<longrightarrow> s' = s"
     "if p \<noteq> 0 then uat s' va p else ulk s va = 0 \<and> (alloc \<longrightarrow> free_frames n s' = {})"
    using uarr.walk_leaf [OF assms(1) uaddr_l4(1) [OF assms(2)], of alloc] by blast
  have "\<not> pt_umap_maxaddr \<le> va" "\<not> va < pt_umap_minaddr" using assms(2) by (simp_all add: uaddr_def pt_umap_minaddr_def)
  then have "hal_umap_getl1p (riscv_hal (mm_ops mmu cfg client hal_of)) (Some u) va alloc s = Some ((p \<noteq> L1P_INVALID, p), s')"
    using w(1) uaddr_l4(2) [OF assms(2)] by (simp add: riscv_hal_def riscv_umap_getl1p_def umap_get_l1p_def)
  then show ?thesis using w uaddr_l4(1) by blast
qed

text \<open>Writing an entry and noting that translations are stale.\<close>

lemma uset:
  assumes "uarr.ok s" "uaddr va" "uat s va p"
  shows "\<exists>s'. hal_l1e_set (riscv_hal (mm_ops mmu cfg client hal_of)) p e s = Some (ulk s va, s') \<and> uarr.ok (or_tlbop um oper s') \<and>
    (\<forall>x. uaddr x \<longrightarrow> ulk (or_tlbop um oper s') x = (if vp x = vp va then e else ulk s x))"
proof -
  obtain s' where s': "set_pte (mm_ops mmu cfg client hal_of) p e s = Some (ulk s va, s')" "uarr.ok s'"
      "\<forall>x. unat (L4OFF x) < 8 \<longrightarrow> ulk s' x = (if vp x = vp va then e else ulk s x)"
    using uarr.leaf_get_set(2) [OF assms(1,3), of e] by blast
  then show ?thesis using or_tlbop_same uaddr_l4(1) by (auto simp: riscv_hal_def)
qed

lemma umap_enter:
  assumes ok: "uarr.ok s" and va: "uaddr va" and cur: "cpu_umap_current s = Some cur" "cur \<noteq> um" "um_hal (umaps s um) = u" and pfn: "unat pfn < 2 ^ 54"
  shows "(\<exists>s'. umap_map (riscv_hal (mm_ops mmu cfg client hal_of)) um va pfn prot s =
        Some ((True, entry_pfn (riscv_hal (mm_ops mmu cfg client hal_of)) (ulk s va)), s') \<and> uarr.ok s' \<and> um_tlbop (umaps s' um) AND HAL_TLBOP_FLUSH \<noteq> 0 \<and>
      (\<forall>x. uaddr x \<longrightarrow> entry_pfn (riscv_hal (mm_ops mmu cfg client hal_of)) (ulk s' x) =
        (if vp x = vp va then if prot AND HAL_PTE_P \<noteq> 0 then pfn else PFN_INVALID else entry_pfn (riscv_hal (mm_ops mmu cfg client hal_of)) (ulk s x)))) \<or>
    (\<exists>s'. umap_map (riscv_hal (mm_ops mmu cfg client hal_of)) um va pfn prot s = Some ((False, PFN_INVALID), s') \<and> uarr.ok s' \<and> free_frames n s' = {} \<and>
      (\<forall>x. uaddr x \<longrightarrow> entry_pfn (riscv_hal (mm_ops mmu cfg client hal_of)) (ulk s' x) = entry_pfn (riscv_hal (mm_ops mmu cfg client hal_of)) (ulk s x)))"
proof -
  let ?H = "riscv_hal (mm_ops mmu cfg client hal_of)" and ?e = "hal_l1e_box (riscv_hal (mm_ops mmu cfg client hal_of)) pfn prot"
  obtain p s1 where w: "hal_umap_getl1p ?H (Some u) va True s = Some ((p \<noteq> L1P_INVALID, p), s1)" "uarr.ok s1" "\<forall>x. uaddr x \<longrightarrow> ulk s1 x = ulk s x"
      "if p \<noteq> L1P_INVALID then uat s1 va p else ulk s va = 0 \<and> free_frames n s1 = {}"
    using ugetl1p [OF ok va, of True] by auto
  show ?thesis
  proof (cases "p = L1P_INVALID")
    case True
    then show ?thesis using w cur by (simp add: umap_map_def umap_setl1e_def)
  next
    case False
    then have "uat s1 va p" using w(4) by simp
    from uset [OF w(2) va this, of ?e um "hal_l1e_tlbop ?H (ulk s1 va) ?e"]
    obtain s2 where s2: "hal_l1e_set ?H p ?e s1 = Some (ulk s1 va, s2)" "uarr.ok (or_tlbop um (hal_l1e_tlbop ?H (ulk s1 va) ?e) s2)"
        "\<forall>x. uaddr x \<longrightarrow> ulk (or_tlbop um (hal_l1e_tlbop ?H (ulk s1 va) ?e) s2) x = (if vp x = vp va then ?e else ulk s1 x)" by blast
    have "umap_map ?H um va pfn prot s = Some ((True, entry_pfn ?H (ulk s va)), or_tlbop um (hal_l1e_tlbop ?H (ulk s1 va) ?e) s2)"
      using cur w(1,3) va False s2(1) by (simp add: umap_map_def umap_setl1e_def entry_pfn_def split: prod.splits)
    then show ?thesis using s2 w(3) by (intro disjI1) (auto simp: rv_entry_box [OF pfn])
  qed
qed

lemma umap_remove:
  assumes ok: "uarr.ok s" and va: "uaddr va" and hal: "um_hal (umaps s um) = u"
  shows "\<exists>s'. umap_unmap (riscv_hal (mm_ops mmu cfg client hal_of)) um va s = Some (entry_pfn (riscv_hal (mm_ops mmu cfg client hal_of)) (ulk s va), s') \<and>
    uarr.ok s' \<and> (s' = s \<or> um_tlbop (umaps s' um) AND HAL_TLBOP_FLUSH \<noteq> 0) \<and>
    (\<forall>x. uaddr x \<longrightarrow> entry_pfn (riscv_hal (mm_ops mmu cfg client hal_of)) (ulk s' x) =
      (if vp x = vp va then PFN_INVALID else entry_pfn (riscv_hal (mm_ops mmu cfg client hal_of)) (ulk s x)))"
proof -
  let ?H = "riscv_hal (mm_ops mmu cfg client hal_of)" and ?e = "hal_l1e_box (riscv_hal (mm_ops mmu cfg client hal_of)) PFN_INVALID 0"
  obtain p where w: "hal_umap_getl1p ?H (Some u) va False s = Some ((p \<noteq> L1P_INVALID, p), s)" "if p \<noteq> L1P_INVALID then uat s va p else ulk s va = 0"
    using ugetl1p [OF ok va, of False] by auto
  show ?thesis
  proof (cases "p = L1P_INVALID")
    case True
    moreover have "vp x = vp va \<Longrightarrow> ulk s x = ulk s va" for x by (simp add: leaf_def)
    ultimately show ?thesis using w ok hal by (simp add: umap_unmap_def rv_box_0(3))
  next
    case False
    then have "uat s va p" using w(2) by simp
    from uset [OF ok va this, of ?e um "hal_l1e_tlbop ?H (ulk s va) ?e"]
    obtain s2 where s2: "hal_l1e_set ?H p ?e s = Some (ulk s va, s2)" "uarr.ok (or_tlbop um (hal_l1e_tlbop ?H (ulk s va) ?e) s2)"
        "\<forall>x. uaddr x \<longrightarrow> ulk (or_tlbop um (hal_l1e_tlbop ?H (ulk s va) ?e) s2) x = (if vp x = vp va then ?e else ulk s x)" by blast
    have "umap_unmap ?H um va s = Some (entry_pfn ?H (ulk s va), or_tlbop um (hal_l1e_tlbop ?H (ulk s va) ?e) s2)"
      using w(1) hal False s2(1) by (simp add: umap_unmap_def entry_pfn_def split: prod.splits)
    moreover have "entry_pfn ?H ?e = PFN_INVALID" using riscv_box_prot [of PFN_INVALID 0] by (simp add: entry_pfn_def riscv_hal_def)
    ultimately show ?thesis using s2 va by (intro exI [of _ "or_tlbop um (hal_l1e_tlbop ?H (ulk s va) ?e) s2"]) auto
  qed
qed

lemma umap_flags:
  assumes ok: "uarr.ok s" and va: "uaddr va" and hal: "um_hal (umaps s um) = u"
  shows "\<exists>s'. umap_chflags (riscv_hal (mm_ops mmu cfg client hal_of)) um va pset pclr s = Some (snd (riscv_l1e_unbox (ulk s va)), s') \<and> uarr.ok s' \<and>
    (s' = s \<and> ulk s va = 0 \<or> um_tlbop (umaps s' um) AND HAL_TLBOP_FLUSH \<noteq> 0 \<and>
      (\<forall>x. uaddr x \<longrightarrow> ulk s' x = (if vp x = vp va
        then riscv_l1e_box (fst (riscv_l1e_unbox (ulk s va))) ((snd (riscv_l1e_unbox (ulk s va)) OR pset) AND NOT pclr) else ulk s x)))"
proof -
  obtain pfn prot where e: "riscv_l1e_unbox (ulk s va) = (pfn, prot)" by (rule prod.exhaust)
  let ?H = "riscv_hal (mm_ops mmu cfg client hal_of)" and ?e = "riscv_l1e_box pfn ((prot OR pset) AND NOT pclr)"
  obtain p where w: "hal_umap_getl1p ?H (Some u) va False s = Some ((p \<noteq> L1P_INVALID, p), s)" "if p \<noteq> L1P_INVALID then uat s va p else ulk s va = 0"
    using ugetl1p [OF ok va, of False] by auto
  show ?thesis
  proof (cases "p = L1P_INVALID")
    case True
    then have "prot = 0" using w(2) e rv_box_0(1) by (simp add: riscv_hal_def)
    then show ?thesis using w ok hal True e by (simp add: umap_chflags_def)
  next
    case False
    then have at: "uat s va p" using w(2) by simp
    have g: "hal_l1e_get ?H p s = Some (ulk s va, s)" using uarr.leaf_get_set(1) [OF ok at] by (simp add: riscv_hal_def)
    from uset [OF ok va at, of ?e um "hal_l1e_tlbop ?H (ulk s va) ?e"]
    obtain s2 where s2: "hal_l1e_set ?H p ?e s = Some (ulk s va, s2)" "uarr.ok (or_tlbop um (hal_l1e_tlbop ?H (ulk s va) ?e) s2)"
        "\<forall>x. uaddr x \<longrightarrow> ulk (or_tlbop um (hal_l1e_tlbop ?H (ulk s va) ?e) s2) x = (if vp x = vp va then ?e else ulk s x)" by blast
    have "hal_l1e_unbox ?H = riscv_l1e_unbox" "hal_l1e_box ?H = riscv_l1e_box" by (simp_all add: riscv_hal_def)
    then have "umap_chflags ?H um va pset pclr s = Some (prot, or_tlbop um (hal_l1e_tlbop ?H (ulk s va) ?e) s2)"
      using w(1) hal False s2(1) g e by (simp add: umap_chflags_def)
    then show ?thesis using s2 by (intro exI [of _ "or_tlbop um (hal_l1e_tlbop ?H (ulk s va) ?e) s2"]) (auto simp: e)
  qed
qed

end

interpretation m0u: riscv_umap mmu0 cfg0 client0 riscv_hal 7 5 isf0 isk0 "\<lambda>a. a - 0xffff800000000000" "0xffff800000003000"
proof (unfold_locales, goal_cases)
  case (1 i)
  then show ?case by (auto simp: isk0_def umap_l4_def)
qed

text \<open>The concrete machine with no user mapping current; the page tables of every user mapping are at \<open>0xffff800000003000\<close>.\<close>

definition mm1 :: mm_st where
  "mm1 = mm0\<lparr>umaps := (\<lambda>_. umap0\<lparr>um_hal := 0xffff800000003000\<rparr>)\<rparr>"

lemma mm1_fields: "pmem mm1 = (\<lambda>_. 0)" "um_hal (umaps mm1 um) = 0xffff800000003000" "cpu_umap_current mm1 = Some 0"
proof -
  show "pmem mm1 = (\<lambda>_. 0)" "um_hal (umaps mm1 um) = 0xffff800000003000" by (simp_all add: mm1_def mm0_fields)
  have "cpus mm1 = cpus st2" "curcpu mm1 = curcpu st2" by (simp_all add: mm1_def mm0_def mm_st.defs cpu_st.defs)
  then show "cpu_umap_current mm1 = Some 0"
    by (simp add: cpu_umap_current_def cpu_curinfo_def st2_def st0_def cpu_boot_def ci0_def)
qed

lemma machine1: "machine_ok cfg0 7 5 isf0 mm1"
  using machine0 by (simp add: machine_ok_def pfn_ok_def bitmap_ok_def free_frames_def mm1_def)

lemma uspace1: "uspace_ok mmu0 cfg0 client0 7 5 isf0 u mm1"
proof -
  have "l4v (rv_ops mmu0 cfg0 client0) (\<lambda>i. umap_l4 u (of_nat i)) mm1 i = 0" for i
    by (simp add: l4v_def rv_ops_def ld64_def mm1_fields)
  then have "rtabs 8 (l4v (rv_ops mmu0 cfg0 client0) (\<lambda>i. umap_l4 u (of_nat i)) mm1) (frame_words isf0 mm1) = {}"
    using ent_empty by (auto simp: tabs_def vpath_def)
  then show ?thesis using machine1 by (simp add: uspace_ok_def map_ok_def pt_wf_def tframes_def)
qed

section \<open>Properties\<close>

text \<open>
  C2. A user mapping that is not the current one, on RISC-V, is a map from pages to frames: \<^verbatim>\<open>umap_map\<close> enters a page and
  returns the frame it had, or fails, with the mapping as it was, when no frame is left for a page table;
  \<^verbatim>\<open>umap_unmap\<close> removes a page and returns its frame; \<^verbatim>\<open>umap_chflags\<close> changes the permissions of a page, keeps its frame
  and returns the old permissions. No other page changes, and every change is noted in \<^verbatim>\<open>tlbop\<close>.
\<close>

theorem umap_refines:
  assumes env: "machine_env mmu cfg n root isf isk kphys" and arr: "\<forall>i<8. isk (umap_l4 u (of_nat i))"
    and ok: "uspace_ok mmu cfg client n root isf u s" and va: "uaddr va" and pfn: "unat pfn < 2 ^ 54"
    and cur: "cpu_umap_current s = Some cur" "cur \<noteq> um" and hal: "um_hal (umaps s um) = u"
  shows "((\<exists>s'. umap_map (rv_hal mmu cfg client) um va pfn prot s = Some ((True, upage mmu cfg client isf u s va), s') \<and>
        uspace_ok mmu cfg client n root isf u s' \<and> um_tlbop (umaps s' um) AND HAL_TLBOP_FLUSH \<noteq> 0 \<and>
        (\<forall>x. uaddr x \<longrightarrow> upage mmu cfg client isf u s' x =
          (if vp x = vp va then if prot AND HAL_PTE_P \<noteq> 0 then pfn else PFN_INVALID else upage mmu cfg client isf u s x))) \<or>
      (\<exists>s'. umap_map (rv_hal mmu cfg client) um va pfn prot s = Some ((False, PFN_INVALID), s') \<and> uspace_ok mmu cfg client n root isf u s' \<and>
        free_frames n s' = {} \<and> (\<forall>x. uaddr x \<longrightarrow> upage mmu cfg client isf u s' x = upage mmu cfg client isf u s x))) \<and>
    (\<exists>s'. umap_unmap (rv_hal mmu cfg client) um va s = Some (upage mmu cfg client isf u s va, s') \<and> uspace_ok mmu cfg client n root isf u s' \<and>
      (s' = s \<or> um_tlbop (umaps s' um) AND HAL_TLBOP_FLUSH \<noteq> 0) \<and>
      (\<forall>x. uaddr x \<longrightarrow> upage mmu cfg client isf u s' x = (if vp x = vp va then PFN_INVALID else upage mmu cfg client isf u s x))) \<and>
    (\<exists>s'. umap_chflags (rv_hal mmu cfg client) um va pset pclr s = Some (snd (riscv_l1e_unbox (uleaf mmu cfg client isf u s va)), s') \<and>
      uspace_ok mmu cfg client n root isf u s' \<and>
      (s' = s \<and> uleaf mmu cfg client isf u s va = 0 \<or> um_tlbop (umaps s' um) AND HAL_TLBOP_FLUSH \<noteq> 0 \<and>
        (\<forall>x. uaddr x \<longrightarrow> uleaf mmu cfg client isf u s' x =
          (if vp x = vp va
           then riscv_l1e_box (fst (riscv_l1e_unbox (uleaf mmu cfg client isf u s va)))
             ((snd (riscv_l1e_unbox (uleaf mmu cfg client isf u s va)) OR pset) AND NOT pclr)
           else uleaf mmu cfg client isf u s x))))"
proof -
  have M: "riscv_umap mmu cfg n root isf isk kphys u"
    using env arr by (simp add: riscv_umap_def riscv_machine_def riscv_umap_axioms_def)
  note L = riscv_umap.umap_enter riscv_umap.umap_remove riscv_umap.umap_flags
  note L' = L [OF M, where client = client and hal_of = riscv_hal, folded rv_ops_def, folded uspace_ok_def uleaf_def, folded rv_hal_def, folded upage_def]
  from L'(1) [OF ok va cur hal pfn, of prot] L'(2) [OF ok va hal] L'(3) [OF ok va hal, of pset pclr] show ?thesis
    by (intro conjI)
qed

theorem umap_refines_witness:
  "\<exists>s'. umap_unmap (rv_hal mmu0 cfg0 client0) 0x100 0x5000 mm1 = Some (upage mmu0 cfg0 client0 isf0 0xffff800000003000 mm1 0x5000, s') \<and>
     uspace_ok mmu0 cfg0 client0 7 5 isf0 0xffff800000003000 s'"
proof -
  have "\<forall>i<8. isk0 (umap_l4 0xffff800000003000 (of_nat i))" using m0u.umap_words by blast
  moreover have "uaddr 0x5000" by (simp add: uaddr_def pt_umap_maxaddr_def)
  ultimately show ?thesis
    using umap_refines [OF env0 _ uspace1, of "0xffff800000003000" "0x5000" 2 0 "0x100"] mm1_fields by fastforce
qed

end
