(* ===== verification/Uload.thy ===== *)
theory Uload
  imports Uspace
begin

text \<open>
  User mappings as a whole on RISC-V: \<^verbatim>\<open>hal_umap_load\<close>, which makes a user mapping the current one by copying its
  top-level entries into the root table, and \<^verbatim>\<open>pt_umap_free\<close>, which gives back the tables of a mapping.
\<close>

section \<open>Two mappings in one root table\<close>

definition joined :: "nat \<Rightarrow> (nat \<Rightarrow> u64) \<Rightarrow> (nat \<Rightarrow> u64) \<Rightarrow> nat \<Rightarrow> u64" where
  "joined k ru rk i = (if i < k then ru i else rk i)"

text \<open>No table of the one is a table of the other's upper part.\<close>

definition apart :: "nat \<Rightarrow> (nat \<Rightarrow> u64) \<Rightarrow> nat \<Rightarrow> (nat \<Rightarrow> u64) \<Rightarrow> (u64 \<Rightarrow> nat \<Rightarrow> u64) \<Rightarrow> bool" where
  "apart k ru n rk fw \<longleftrightarrow> (\<forall>p\<in>rtabs k ru fw. \<forall>q\<in>rtabs n rk fw. k \<le> last q \<longrightarrow> pte_pfn (rent ru fw p) \<noteq> pte_pfn (rent rk fw q))"

lemma vpath_low: "vpath n p \<Longrightarrow> k \<le> n \<Longrightarrow> vpath k p \<longleftrightarrow> last p < k"
  by (auto simp: vpath_def)

lemma ent_cong_last:
  assumes "\<forall>i<n. k \<le> i \<longrightarrow> r' i = r i" "\<forall>f\<in>tframes V F n r fw. \<forall>i<512. fw' f i = fw f i"
  shows "vpath n p \<Longrightarrow> k \<le> last p \<Longrightarrow> ent V F r' fw' p = ent V F r fw p"
proof (induction p)
  case (Cons i p)
  show ?case
  proof (cases "p = []")
    case True
    then show ?thesis using Cons.prems assms(1) by (simp add: vpath_Cons)
  next
    case False
    then have q: "vpath n p" "i < 512" "length p \<le> 3" "k \<le> last p" using Cons.prems by (auto simp: vpath_Cons)
    have "V (ent V F r fw p) \<Longrightarrow> F (ent V F r fw p) \<in> tframes V F n r fw" using q by (intro tframesI) (simp add: tabs_def)
    then show ?thesis using Cons.IH [OF q(1,4)] q(2) False assms(2) by (auto simp: ent_Cons)
  qed
qed (simp add: vpath_def)

lemma ent_joined:
  assumes r': "\<forall>i<n. r' i = joined k ru rk i" and k: "k \<le> n" and fw: "\<forall>f. f \<noteq> root \<longrightarrow> fw' f = fw f"
    and root: "root \<notin> rframes k ru fw" "root \<notin> rframes n rk fw"
  shows "vpath n p \<Longrightarrow> rent r' fw' p = (if last p < k then rent ru fw p else rent rk fw p)"
proof (cases "last p < k")
  case True
  assume p: "vpath n p"
  have "rent r' fw' p = rent ru fw p"
    by (rule ent_cong [where n = k]) (use r' k fw root(1) vpath_low [OF p k] True in \<open>auto simp: joined_def\<close>)
  then show ?thesis using True by simp
next
  case False
  assume p: "vpath n p"
  have "rent r' fw' p = rent rk fw p"
    by (rule ent_cong_last [where n = n and k = k]) (use r' fw root(2) p False in \<open>auto simp: joined_def\<close>)
  then show ?thesis using False by simp
qed

lemma joined_wf:
  assumes e: "\<forall>p. vpath n p \<longrightarrow> rent r' fw' p = (if last p < k then rent ru fw p else rent rk fw p)" and k: "k \<le> n"
    and wf: "rwf k ru fw" "rwf n rk fw" and d: "apart k ru n rk fw"
  shows "rwf n r' fw'" "rframes n r' fw' \<subseteq> rframes k ru fw \<union> rframes n rk fw"
proof -
  have t: "p \<in> rtabs n r' fw' \<longleftrightarrow> (if last p < k then p \<in> rtabs k ru fw else p \<in> rtabs n rk fw)" for p
    using e k vpath_low [of n p k] by (auto simp: tabs_def vpath_def)
  have v: "p \<in> rtabs n r' fw' \<Longrightarrow> rent r' fw' p = (if last p < k then rent ru fw p else rent rk fw p)" for p
    using e by (auto simp: tabs_def)
  have i: "p \<in> rtabs k ru fw \<Longrightarrow> q \<in> rtabs k ru fw \<Longrightarrow> pte_pfn (rent ru fw p) = pte_pfn (rent ru fw q) \<Longrightarrow> p = q"
      "p \<in> rtabs n rk fw \<Longrightarrow> q \<in> rtabs n rk fw \<Longrightarrow> pte_pfn (rent rk fw p) = pte_pfn (rent rk fw q) \<Longrightarrow> p = q" for p q
    using wf by (simp_all add: pt_wf_def inj_on_def)
  have a: "p \<in> rtabs k ru fw \<Longrightarrow> q \<in> rtabs n rk fw \<Longrightarrow> \<not> last q < k \<Longrightarrow> pte_pfn (rent ru fw p) \<noteq> pte_pfn (rent rk fw q)" for p q
    using d by (simp add: apart_def not_less)
  have "p = q" if h: "p \<in> rtabs n r' fw'" "q \<in> rtabs n r' fw'" "pte_pfn (rent r' fw' p) = pte_pfn (rent r' fw' q)" for p q
    using h(3) v [OF h(1)] v [OF h(2)] h(1,2) [unfolded t] i [of p q] a [of p q] a [of q p]
    by (cases "last p < k"; cases "last q < k") simp_all
  moreover have "pte_valid_table (rent r' fw' p)" if "p \<in> rtabs n r' fw'" for p
    using that [unfolded t] wf v [OF that] by (cases "last p < k") (simp_all add: pt_wf_def)
  ultimately show "rwf n r' fw'" by (simp add: pt_wf_def inj_on_def)
  show "rframes n r' fw' \<subseteq> rframes k ru fw \<union> rframes n rk fw"
  proof
    fix f
    assume "f \<in> rframes n r' fw'"
    then obtain p where p: "p \<in> rtabs n r' fw'" "f = pte_pfn (rent r' fw' p)" by (auto simp: tframes_def)
    then show "f \<in> rframes k ru fw \<union> rframes n rk fw"
      using p(1) [unfolded t] v [OF p(1)] tframesI by (cases "last p < k") simp_all
  qed
qed

section \<open>Loading a user mapping\<close>

lemma foreach_append: "foreach f (xs @ ys) s = do { s \<leftarrow> foreach f xs s; foreach f ys s }"
  by (induction xs arbitrary: s) (auto split: bind_splits)

lemma l4_of_index:
  assumes "i < 8"
  shows "L4OFF (riscv_virtmem_userbase + of_nat i * push_bit L4_SHIFT 1) = of_nat i"
proof -
  have "i = 0 \<or> i = 1 \<or> i = 2 \<or> i = 3 \<or> i = 4 \<or> i = 5 \<or> i = 6 \<or> i = 7" using assms by arith
  then show ?thesis by (elim disjE) (simp_all add: riscv_virtmem_userbase_def pt_umap_minaddr_def L4OFF_def)
qed

context riscv_umap
begin

abbreviation utop :: "'a mm_st_scheme \<Rightarrow> nat \<Rightarrow> u64" where
  "utop \<equiv> l4v (mm_ops mmu cfg client hal_of) (\<lambda>i. umap_l4 u (of_nat i))"

lemma load_step:
  assumes ok: "machine_ok cfg n root isf s" and i: "i < 8"
  shows "\<exists>s'. load_l4 (mm_ops mmu cfg client hal_of) (Some u) i (t, s) = Some (t OR HAL_TLBOP_FLUSH, s') \<and> machine_ok cfg n root isf s' \<and>
    free_frames n s' = free_frames n s \<and> frame_words isf s' = fset (frame_words isf s) root i (utop s i) \<and>
    (\<forall>a. isk a \<longrightarrow> ld64 mmu a s' = ld64 mmu a s)"
proof -
  let ?M = "mm_ops mmu cfg client hal_of"
  let ?s = "st64 mmu (root_at cfg root i) (utop s i) s"
  have S: "machine_ok cfg n root isf ?s" "frame_words isf ?s = fset (frame_words isf s) root i (utop s i)" "free_frames n ?s = free_frames n s"
      "\<forall>a. isk a \<longrightarrow> ld64 mmu a ?s = ld64 mmu a s"
    using st_frame [OF root_frame(2) _ ok, of i ?s "utop s i"] i by simp_all
  have "load_l4 ?M (Some u) i (t, s) = Some (t OR HAL_TLBOP_FLUSH, ?s)"
    using get_root [OF ok] get_root(2) [OF S(1)] l4_of_index [OF i] by (simp add: load_l4_def l4v_def Let_def riscv_l1e_tlbop_def)
  then show ?thesis using S by blast
qed

lemma load_steps:
  assumes ok: "machine_ok cfg n root isf s"
  shows "k \<le> 8 \<Longrightarrow> \<exists>t' s'. foreach (load_l4 (mm_ops mmu cfg client hal_of) (Some u)) [0..<k] (t, s) = Some (t', s') \<and>
    (0 < k \<longrightarrow> t' AND HAL_TLBOP_FLUSH \<noteq> 0) \<and> machine_ok cfg n root isf s' \<and> free_frames n s' = free_frames n s \<and>
    frame_words isf s' = (frame_words isf s)(root := joined k (utop s) (frame_words isf s root)) \<and>
    (\<forall>a. isk a \<longrightarrow> ld64 mmu a s' = ld64 mmu a s)"
proof (induction k)
  case 0
  have "joined 0 (utop s) (frame_words isf s root) = frame_words isf s root" by (simp add: joined_def fun_eq_iff)
  then show ?case using ok by simp
next
  case (Suc k)
  let ?M = "mm_ops mmu cfg client hal_of"
  obtain t1 s1 where s1: "foreach (load_l4 ?M (Some u)) [0..<k] (t, s) = Some (t1, s1)" "machine_ok cfg n root isf s1" "free_frames n s1 = free_frames n s"
      "frame_words isf s1 = (frame_words isf s)(root := joined k (utop s) (frame_words isf s root))" "\<forall>a. isk a \<longrightarrow> ld64 mmu a s1 = ld64 mmu a s"
    using Suc.IH [OF Suc_leD [OF Suc.prems]] by blast
  have i: "k < 8" using Suc.prems by simp
  obtain s2 where s2: "load_l4 ?M (Some u) k (t1, s1) = Some (t1 OR HAL_TLBOP_FLUSH, s2)" "machine_ok cfg n root isf s2" "free_frames n s2 = free_frames n s1"
      "frame_words isf s2 = fset (frame_words isf s1) root k (utop s1 k)" "\<forall>a. isk a \<longrightarrow> ld64 mmu a s2 = ld64 mmu a s1"
    using load_step [OF s1(2) i] by blast
  have "utop s1 k = utop s k" using s1(5) umap_words [OF i] by (simp add: l4v_def)
  then have f: "frame_words isf s2 = (frame_words isf s)(root := joined (Suc k) (utop s) (frame_words isf s root))"
    unfolding s2(4) s1(4) by (intro ext) (simp add: fset_def joined_def less_Suc_eq)
  have "(t1 OR HAL_TLBOP_FLUSH) AND HAL_TLBOP_FLUSH \<noteq> 0" by (simp add: and_numeral_bit bit_or_iff)
  moreover have "foreach (load_l4 ?M (Some u)) [0..<Suc k] (t, s) = Some (t1 OR HAL_TLBOP_FLUSH, s2)"
    using s1(1) s2(1) by (simp add: foreach_append)
  ultimately show ?case using s2(2,3,5) s1(3,5) f by (intro exI [of _ "t1 OR HAL_TLBOP_FLUSH"] exI [of _ s2]) simp
qed

abbreviation ktop :: "'a mm_st_scheme \<Rightarrow> nat \<Rightarrow> u64" where
  "ktop \<equiv> l4v (mm_ops mmu cfg client hal_of) (root_at cfg root)"

lemma ktop_words: "i < 512 \<Longrightarrow> ktop s i = frame_words isf s root i"
  using ld_frame [OF root_frame(2), of i s] by (simp add: l4v_def)

lemma load_ok:
  assumes ok: "cpumap.ok s" "uarr.ok s" and root: "root \<notin> uarr.Tf s" and ap: "apart 8 (utop s) 512 (ktop s) (frame_words isf s)"
  shows "\<exists>t s'. riscv_umap_load (mm_ops mmu cfg client hal_of) (Some u) s = Some (t, s') \<and> t AND HAL_TLBOP_FLUSH \<noteq> 0 \<and>
    cpumap.ok s' \<and> uarr.ok s' \<and> free_frames n s' = free_frames n s \<and>
    (\<forall>x. leaf (mm_ops mmu cfg client hal_of) (frame_words isf) (root_at cfg root) s' x =
       (if unat (L4OFF x) < 8 then ulk s x else leaf (mm_ops mmu cfg client hal_of) (frame_words isf) (root_at cfg root) s x)) \<and>
    (\<forall>x. uaddr x \<longrightarrow> ulk s' x = ulk s x)"
proof -
  let ?M = "mm_ops mmu cfg client hal_of"
  note K = cpumap.okD [OF ok(1)] and U = uarr.okD [OF ok(2)]
  obtain t s' where l: "foreach (load_l4 ?M (Some u)) [0..<8] (HAL_TLBOP_NONE, s) = Some (t, s')" "0 < (8 :: nat) \<longrightarrow> t AND HAL_TLBOP_FLUSH \<noteq> 0"
      "machine_ok cfg n root isf s'" "free_frames n s' = free_frames n s"
      "frame_words isf s' = (frame_words isf s)(root := joined 8 (utop s) (frame_words isf s root))" "\<forall>a. isk a \<longrightarrow> ld64 mmu a s' = ld64 mmu a s"
    using load_steps [OF K(1) order_refl, of HAL_TLBOP_NONE] by (elim exE conjE) (rule that)
  have r': "\<forall>i<512. ktop s' i = joined 8 (utop s) (ktop s) i" using ktop_words l(5) by (simp add: joined_def)
  have fw: "\<forall>f. f \<noteq> root \<longrightarrow> frame_words isf s' f = frame_words isf s f" using l(5) by simp
  have rk: "root \<notin> cpumap.Tf s" using ok(1) by (auto simp: map_ok_def)
  have e: "\<forall>p. vpath 512 p \<longrightarrow> cpumap.E s' p = (if last p < 8 then uarr.E s p else cpumap.E s p)"
    using ent_joined [OF r' _ fw root rk] by simp
  have t': "\<forall>i<8. utop s' i = utop s i" using l(6) umap_words by (simp add: l4v_def)
  have eu: "\<forall>p. vpath 8 p \<longrightarrow> uarr.E s' p = uarr.E s p"
  proof (intro allI impI, rule ent_cong)
    show "\<forall>f\<in>uarr.Tf s. \<forall>i<512. frame_words isf s' f i = frame_words isf s f i" using fw root by (metis (no_types))
  qed (use t' in simp_all)
  have "8 \<le> (512 :: nat)" by simp
  note S = uarr.E_same [OF eu] and W = joined_wf [OF e this U(2) K(2) ap]
  have "\<forall>f\<in>cpumap.Tf s \<union> uarr.Tf s. isf f \<and> f \<notin> free_frames n s' \<and> f \<notin> {root}"
    using ok root l(4) by (auto simp: map_ok_def)
  then have "cpumap.ok s'" unfolding map_ok_def using W l(3) by blast
  moreover have "uarr.ok s'" unfolding map_ok_def using S l(3,4) ok(2) by (simp add: map_ok_def)
  moreover have "leaf ?M (frame_words isf) (root_at cfg root) s' x =
       (if unat (L4OFF x) < 8 then ulk s x else leaf ?M (frame_words isf) (root_at cfg root) s x)" for x
  proof -
    have "last (vp x) = unat (L4OFF x)" by (simp add: vp_def)
    then show ?thesis using e vpath_vp [OF off_less(4), of x] by (simp add: leaf_def)
  qed
  moreover have "uaddr x \<Longrightarrow> ulk s' x = ulk s x" for x using eu vpath_vp [OF uaddr_l4(1)] by (simp add: leaf_def)
  moreover have "riscv_umap_load ?M (Some u) s = Some (t, s')" using l(1) by (simp add: riscv_umap_load_def)
  moreover have "t AND HAL_TLBOP_FLUSH \<noteq> 0" using l(2) by simp
  ultimately show ?thesis using l(4) by (intro exI [of _ t] exI [of _ s'] conjI allI impI)
qed

end

end
