(* ===== verification/Ufree.thy ===== *)
theory Ufree
  imports Uload
begin

text \<open>
  The properties of user mappings as a whole on RISC-V: \<^verbatim>\<open>pt_umap_free\<close> gives every table of a mapping back to the
  allocator, once, and \<^verbatim>\<open>hal_umap_load\<close> makes a mapping the current one.
\<close>

section \<open>The frames of a subtree\<close>

definition frames_under :: "nat \<Rightarrow> (nat \<Rightarrow> u64) \<Rightarrow> (u64 \<Rightarrow> nat \<Rightarrow> u64) \<Rightarrow> nat list \<Rightarrow> u64 set" where
  "frames_under n r fw p = (\<lambda>q. pte_pfn (rent r fw q)) ` {q \<in> rtabs n r fw. \<exists>q'. q = q' @ p}"

lemma tab_up: "q @ p \<in> rtabs n r fw \<Longrightarrow> p \<noteq> [] \<Longrightarrow> p \<in> rtabs n r fw"
proof (induction q)
  case (Cons i q)
  then have v: "vpath n (i # (q @ p))" "length (i # (q @ p)) \<le> 3" "pte_valid (rent r fw (i # (q @ p)))" by (simp_all add: tabs_def)
  have "q @ p \<noteq> []" using Cons.prems by simp
  then have "pte_valid (rent r fw (q @ p))" "vpath n (q @ p)"
    using v ent_Cons [of "q @ p" pte_valid pte_pfn r fw i] by (simp_all add: vpath_Cons split: if_splits)
  then have "q @ p \<in> rtabs n r fw" using v by (simp add: tabs_def)
  then show ?case using Cons by simp
qed simp

lemma under_none: "p \<noteq> [] \<Longrightarrow> p \<notin> rtabs n r fw \<Longrightarrow> frames_under n r fw p = {}"
  using tab_up by (auto simp: frames_under_def)

lemma under_sub: "frames_under n r fw p \<subseteq> rframes n r fw"
  by (auto simp: frames_under_def tframes_def)

lemma under_step:
  assumes p: "p \<in> rtabs n r fw"
  shows "frames_under n r fw p = insert (pte_pfn (rent r fw p)) (\<Union>i<512. frames_under n r fw (i # p))"
proof -
  have "{q \<in> rtabs n r fw. \<exists>q'. q = q' @ p} \<subseteq> insert p (\<Union>i<512. {q \<in> rtabs n r fw. \<exists>q'. q = q' @ i # p})"
  proof
    fix q
    assume "q \<in> {q \<in> rtabs n r fw. \<exists>q'. q = q' @ p}"
    then obtain q' where q: "q \<in> rtabs n r fw" "q = q' @ p" by blast
    show "q \<in> insert p (\<Union>i<512. {q \<in> rtabs n r fw. \<exists>q'. q = q' @ i # p})"
    proof (cases q' rule: rev_cases)
      case (snoc q'' i)
      then have e: "q = q'' @ i # p" using q(2) by simp
      then have "i # p \<in> rtabs n r fw" using tab_up [of q'' "i # p"] q(1) by simp
      then have "i < 512" using tabsD(4) [OF p] by (simp add: tabs_def vpath_Cons)
      moreover have "q \<in> {q \<in> rtabs n r fw. \<exists>q'. q = q' @ i # p}" using q(1) e by blast
      ultimately show ?thesis by blast
    qed (use q in simp)
  qed
  moreover have "insert p (\<Union>i<512. {q \<in> rtabs n r fw. \<exists>q'. q = q' @ i # p}) \<subseteq> {q \<in> rtabs n r fw. \<exists>q'. q = q' @ p}"
  proof
    fix q
    assume "q \<in> insert p (\<Union>i<512. {q \<in> rtabs n r fw. \<exists>q'. q = q' @ i # p})"
    then consider "q = p" | i q' where "q \<in> rtabs n r fw" "q = (q' @ [i]) @ p" by auto
    then show "q \<in> {q \<in> rtabs n r fw. \<exists>q'. q = q' @ p}"
      by cases (use p in blast)+
  qed
  ultimately have e: "{q \<in> rtabs n r fw. \<exists>q'. q = q' @ p} = insert p (\<Union>i<512. {q \<in> rtabs n r fw. \<exists>q'. q = q' @ i # p})" by (rule subset_antisym)
  show ?thesis unfolding frames_under_def e image_insert image_UN ..
qed

lemma under_leaf: "3 \<le> length p \<Longrightarrow> frames_under n r fw (i # p) = {}"
  using tabsD(2) [of _ pte_valid pte_pfn n r fw] by (fastforce simp: frames_under_def)

lemma under_disjoint:
  assumes wf: "rwf n r fw"
  shows "i \<noteq> j \<Longrightarrow> frames_under n r fw (i # p) \<inter> frames_under n r fw (j # p) = {}" "p \<in> rtabs n r fw \<Longrightarrow> pte_pfn (rent r fw p) \<notin> frames_under n r fw (i # p)"
proof -
  have inj: "q \<in> rtabs n r fw \<Longrightarrow> q' \<in> rtabs n r fw \<Longrightarrow> pte_pfn (rent r fw q) = pte_pfn (rent r fw q') \<Longrightarrow> q = q'" for q q'
    using wf by (simp add: pt_wf_def inj_on_def)
  show "frames_under n r fw (i # p) \<inter> frames_under n r fw (j # p) = {}" if "i \<noteq> j"
  proof (rule ccontr)
    assume "frames_under n r fw (i # p) \<inter> frames_under n r fw (j # p) \<noteq> {}"
    then obtain f where f: "f \<in> frames_under n r fw (i # p)" "f \<in> frames_under n r fw (j # p)" by blast
    obtain a where a: "a @ i # p \<in> rtabs n r fw" "f = pte_pfn (rent r fw (a @ i # p))" using f(1) by (auto simp: frames_under_def)
    obtain b where b: "b @ j # p \<in> rtabs n r fw" "f = pte_pfn (rent r fw (b @ j # p))" using f(2) by (auto simp: frames_under_def)
    have "a @ i # p = b @ j # p" using inj [OF a(1) b(1)] a(2) b(2) by simp
    moreover from this have "length a = length b" by (metis add_right_cancel length_Cons length_append)
    ultimately show False using that by simp
  qed
  show "pte_pfn (rent r fw p) \<notin> frames_under n r fw (i # p)" if p: "p \<in> rtabs n r fw"
  proof
    assume "pte_pfn (rent r fw p) \<in> frames_under n r fw (i # p)"
    then obtain a where a: "a @ i # p \<in> rtabs n r fw" "pte_pfn (rent r fw p) = pte_pfn (rent r fw (a @ i # p))" by (auto simp: frames_under_def)
    then have "length p = length (a @ i # p)" using inj [OF p a(1)] by simp
    then show False by simp
  qed
qed

lemma under_top:
  shows "(\<Union>i<n. frames_under n r fw [i]) = rframes n r fw"
proof -
  have "q \<in> rtabs n r fw \<Longrightarrow> \<exists>i<n. \<exists>q'. q = q' @ [i]" for q
    using tabsD(1,4) [of q] by (metis append_butlast_last_id vpath_def)
  then show ?thesis by (fastforce simp: frames_under_def tframes_def)
qed

section \<open>Loops that give frames back\<close>

lemma foreach_free:
  fixes av :: "'s \<Rightarrow> 'f set"
  assumes step: "\<And>i s. i \<in> set js \<Longrightarrow> I s \<Longrightarrow> F i \<inter> av s = {} \<Longrightarrow> \<exists>s'. f i s = Some s' \<and> I s' \<and> av s' = av s \<union> F i"
    and d: "distinct js" "\<And>i j. i \<noteq> j \<Longrightarrow> F i \<inter> F j = {}" and s: "I s" "(\<Union>i\<in>set js. F i) \<inter> av s = {}"
  shows "\<exists>s'. foreach f js s = Some s' \<and> I s' \<and> av s' = av s \<union> (\<Union>i\<in>set js. F i)"
  using step d(1) s
proof (induction js arbitrary: s)
  case (Cons j js)
  have "F j \<inter> av s = {}" using Cons.prems(4) by auto
  then obtain s1 where s1: "f j s = Some s1" "I s1" "av s1 = av s \<union> F j"
    using Cons.prems(1) [OF list.set_intros(1) Cons.prems(3)] by blast
  have "F i \<inter> F j = {}" if "i \<in> set js" for i using d(2) [of i j] Cons.prems(2) that by auto
  then have a: "(\<Union>i\<in>set js. F i) \<inter> av s1 = {}" using Cons.prems(4) s1(3) by auto
  have "distinct js" using Cons.prems(2) by simp
  from Cons.IH [OF Cons.prems(1) [OF list.set_intros(2)] this s1(2) a]
  obtain s2 where s2: "foreach f js s1 = Some s2" "I s2" "av s2 = av s1 \<union> (\<Union>i\<in>set js. F i)" by blast
  then have "av s2 = av s \<union> (\<Union>i\<in>set (j # js). F i)" using s1(3) by (simp add: Un_assoc)
  then show ?case using s1(1) s2(1,2) by simp
qed simp

section \<open>The tables of a user mapping\<close>

lemma ent_zero: "\<forall>i<n. r i = 0 \<Longrightarrow> vpath n p \<Longrightarrow> rent r f0 p = 0"
proof (induction p)
  case (Cons i p)
  then show ?case by (cases "p = []") (simp_all add: ent_Cons vpath_Cons)
qed (simp add: vpath_def)

lemma leaf_valid: "pte_valid_leaf e \<Longrightarrow> pte_valid e"
  by (simp add: pte_valid_leaf_bits pte_valid_bit)

context umap_array
begin

text \<open>While frames are given back, neither the tables nor other memory changes.\<close>

abbreviation keeps :: "(u64 \<Rightarrow> nat \<Rightarrow> u64) \<Rightarrow> (vaddr_t \<Rightarrow> u64) \<Rightarrow> 'a \<Rightarrow> bool" where
  "keeps f0 m0 s \<equiv> minv s \<and> fw s = f0 \<and> (\<forall>a. isk a \<longrightarrow> mem_ld M a s = m0 a)"

abbreviation tree :: "(nat \<Rightarrow> u64) \<Rightarrow> (u64 \<Rightarrow> nat \<Rightarrow> u64) \<Rightarrow> bool" where
  "tree r f0 \<equiv> rwf 8 r f0 \<and> (\<forall>f\<in>rframes 8 r f0. isf f \<and> f \<noteq> root)"

lemma free_one:
  assumes "keeps f0 m0 s" "isf f" "f \<noteq> root" "f \<notin> avail s"
  shows "\<exists>s'. op_free M f s = Some s' \<and> keeps f0 m0 s' \<and> avail s' = insert f (avail s)"
  using free_frame [of s f] assms by auto

lemma tree_tab:
  assumes "tree r f0" "p \<in> rtabs 8 r f0"
  shows "isf (pte_pfn (rent r f0 p))" "pte_pfn (rent r f0 p) \<noteq> root" "pte_valid_table (rent r f0 p)"
  using assms tframesI [OF assms(2)] by (auto simp: pt_wf_def)

text \<open>Giving back what is below a table, entry by entry, and then the table.\<close>

lemma free_table:
  assumes t: "tree r f0" and p: "p \<in> rtabs 8 r f0" and s: "keeps f0 m0 s" "frames_under 8 r f0 p \<inter> avail s = {}"
    and f: "\<And>i s. i < 512 \<Longrightarrow> keeps f0 m0 s \<Longrightarrow> frames_under 8 r f0 (i # p) \<inter> avail s = {} \<Longrightarrow>
      \<exists>s'. f (fva (pte_pfn (rent r f0 p))) i s = Some s' \<and> keeps f0 m0 s' \<and> avail s' = avail s \<union> frames_under 8 r f0 (i # p)"
  shows "\<exists>s'. do { (ptr, s) \<leftarrow> op_get M (pte_pfn (rent r f0 p)) s; s \<leftarrow> foreach (f ptr) [0..<512] s;
      s \<leftarrow> op_put M (pte_pfn (rent r f0 p)) ptr s; op_free M (pte_pfn (rent r f0 p)) s } = Some s' \<and>
    keeps f0 m0 s' \<and> avail s' = avail s \<union> frames_under 8 r f0 p"
proof -
  let ?g = "pte_pfn (rent r f0 p)"
  note T = tree_tab [OF t p]
  have wf: "rwf 8 r f0" using t by blast
  have st: "set [0..<512] = {..<512::nat}" "distinct [0..<512::nat]" by (simp_all only: set_upt lessThan_atLeast0 distinct_upt)
  have u: "frames_under 8 r f0 p = insert ?g (\<Union>i<512. frames_under 8 r f0 (i # p))" by (rule under_step [OF p])
  have d: "(\<Union>i\<in>set [0..<512]. frames_under 8 r f0 (i # p)) \<inter> avail s = {}" using s(2) unfolding u st(1) by blast
  have "\<exists>s'. foreach (f (fva ?g)) [0..<512] s = Some s' \<and> keeps f0 m0 s' \<and> avail s' = avail s \<union> (\<Union>i\<in>set [0..<512]. frames_under 8 r f0 (i # p))"
    by (rule foreach_free [where I = "keeps f0 m0" and F = "\<lambda>i. frames_under 8 r f0 (i # p)" and av = avail, OF f _ under_disjoint(1) [OF wf] s(1) d])
      (simp_all only: st lessThan_iff simp_thms, elim conjE, assumption)
  then obtain s1 where s1: "foreach (f (fva ?g)) [0..<512] s = Some s1" "keeps f0 m0 s1" "avail s1 = avail s \<union> (\<Union>i<512. frames_under 8 r f0 (i # p))"
    unfolding st(1) by blast
  have "?g \<notin> avail s1" using s(2) s1(3) under_disjoint(2) [OF wf p] unfolding u by blast
  then obtain s2 where s2: "op_free M ?g s1 = Some s2" "keeps f0 m0 s2" "avail s2 = insert ?g (avail s1)"
    using free_one [OF s1(2) T(1,2)] by blast
  have "op_get M ?g s = Some (fva ?g, s)" "op_put M ?g (fva ?g) s1 = Some s1" using get_frame put_frame T(1) s(1) s1(2) by blast+
  then have "do { (ptr, s) \<leftarrow> op_get M ?g s; s \<leftarrow> foreach (f ptr) [0..<512] s; s \<leftarrow> op_put M ?g ptr s; op_free M ?g s } = Some s2"
    by (simp only: s1(1) s2(1) Option.bind.simps prod.case)
  moreover have "avail s2 = avail s \<union> frames_under 8 r f0 p" unfolding s2(3) s1(3) u by blast
  ultimately show ?thesis using s2(2) by (intro exI [of _ s2] conjI) simp_all
qed

lemma below_entry:
  assumes "tree r f0" "p \<in> rtabs 8 r f0" "length p \<le> 2" "i < 512" "keeps f0 m0 s"
  shows "mem_ld M (fva (pte_pfn (rent r f0 p)) + 8 * of_nat i) s = rent r f0 (i # p)"
    "i # p \<in> rtabs 8 r f0 \<or> \<not> pte_valid (rent r f0 (i # p))"
proof -
  show "mem_ld M (fva (pte_pfn (rent r f0 p)) + 8 * of_nat i) s = rent r f0 (i # p)"
    using ld_frame [OF tree_tab(1) [OF assms(1,2)] assms(4), of s] assms(5) tabsD(3,4) [OF assms(2)] by (simp add: ent_Cons)
  show "i # p \<in> rtabs 8 r f0 \<or> \<not> pte_valid (rent r f0 (i # p))"
    using assms(2-4) by (auto simp: tabs_def vpath_Cons)
qed

lemma free_l2e_ok:
  assumes t: "tree r f0" and p: "p \<in> rtabs 8 r f0" "length p = 2" and i: "i < 512" and s: "keeps f0 m0 s" "frames_under 8 r f0 (i # p) \<inter> avail s = {}"
  shows "\<exists>s'. free_l2e M (fva (pte_pfn (rent r f0 p))) i s = Some s' \<and> keeps f0 m0 s' \<and> avail s' = avail s \<union> frames_under 8 r f0 (i # p)"
proof -
  have "length p \<le> 2" using p(2) by simp
  note B = below_entry [OF t p(1) this i s(1)]
  show ?thesis
  proof (cases "i # p \<in> rtabs 8 r f0")
    case True
    note T = tree_tab [OF t True]
    have u: "frames_under 8 r f0 (i # p) = {pte_pfn (rent r f0 (i # p))}"
      using under_step [OF True] under_leaf [of "i # p"] p(2) by simp
    then have "pte_pfn (rent r f0 (i # p)) \<notin> avail s" using s(2) by blast
    from free_one [OF s(1) T(1,2) this] show ?thesis
      using T(3) pte_table_leaf [OF T(3)] u by (simp add: free_l2e_def B(1))
  next
    case False
    then have "\<not> pte_valid_leaf (rent r f0 (i # p))" "\<not> pte_valid_table (rent r f0 (i # p))"
      using B(2) leaf_valid pte_table_valid by blast+
    then have "free_l2e M (fva (pte_pfn (rent r f0 p))) i s = Some s"
      by (simp add: free_l2e_def B(1) Let_def)
    then show ?thesis using under_none [OF _ False] s(1) by simp
  qed
qed

lemma free_l3e_ok:
  assumes t: "tree r f0" and p: "p \<in> rtabs 8 r f0" "length p = 1" and i: "i < 512" and s: "keeps f0 m0 s" "frames_under 8 r f0 (i # p) \<inter> avail s = {}"
  shows "\<exists>s'. free_l3e M (fva (pte_pfn (rent r f0 p))) i s = Some s' \<and> keeps f0 m0 s' \<and> avail s' = avail s \<union> frames_under 8 r f0 (i # p)"
proof -
  have "length p \<le> 2" using p(2) by simp
  note B = below_entry [OF t p(1) this i s(1)]
  show ?thesis
  proof (cases "i # p \<in> rtabs 8 r f0")
    case True
    note T = tree_tab [OF t True]
    have "length (i # p) = 2" using p(2) by simp
    note F = free_l2e_ok [OF t True this]
    have "free_l3e M (fva (pte_pfn (rent r f0 p))) i s = do { (ptr, s) \<leftarrow> op_get M (pte_pfn (rent r f0 (i # p))) s;
        s \<leftarrow> foreach (free_l2e M ptr) [0..<512] s; s \<leftarrow> op_put M (pte_pfn (rent r f0 (i # p))) ptr s; op_free M (pte_pfn (rent r f0 (i # p))) s }"
      using T(3) pte_table_leaf [OF T(3)] by (simp only: free_l3e_def B(1) Let_def if_False if_True)
    then show ?thesis by (simp only:) (rule free_table [where f = "free_l2e M", OF t True s], rule F, assumption+)
  next
    case False
    then have "\<not> pte_valid_leaf (rent r f0 (i # p))" "\<not> pte_valid_table (rent r f0 (i # p))"
      using B(2) leaf_valid pte_table_valid by blast+
    then have "free_l3e M (fva (pte_pfn (rent r f0 p))) i s = Some s"
      by (simp only: free_l3e_def B(1) Let_def if_False)
    then show ?thesis using under_none [OF _ False] s(1) by simp
  qed
qed

lemma free_l4e_ok:
  assumes t: "tree r f0" and i: "i < 8" and s: "keeps f0 m0 s" "m0 (umap_l4 u (of_nat i)) = r i" "frames_under 8 r f0 [i] \<inter> avail s = {}"
  shows "\<exists>s'. free_l4e M u i s = Some s' \<and> keeps f0 (m0(umap_l4 u (of_nat i) := 0)) s' \<and> avail s' = avail s \<union> frames_under 8 r f0 [i]"
proof -
  have e: "mem_ld M (umap_l4 u (of_nat i)) s = rent r f0 [i]" using s(1,2) array [OF i] by simp
  let ?g = "pte_pfn (rent r f0 [i])"
  have leaf: "\<not> pte_valid_leaf (rent r f0 [i])" "pte_valid_table (rent r f0 [i]) \<longleftrightarrow> [i] \<in> rtabs 8 r f0"
  proof -
    have "pte_valid (rent r f0 [i]) \<Longrightarrow> [i] \<in> rtabs 8 r f0" using i by (simp add: tabs_def vpath_Cons)
    then show "\<not> pte_valid_leaf (rent r f0 [i])" "pte_valid_table (rent r f0 [i]) \<longleftrightarrow> [i] \<in> rtabs 8 r f0"
      using leaf_valid pte_table_valid tree_tab(3) [OF t] pte_table_leaf by blast+
  qed
  have "\<exists>s1. (if pte_valid_table (rent r f0 [i])
      then do { (ptr, s) \<leftarrow> op_get M ?g s; s \<leftarrow> foreach (free_l3e M ptr) [0..<512] s; s \<leftarrow> op_put M ?g ptr s; op_free M ?g s } else Some s) = Some s1 \<and>
    keeps f0 m0 s1 \<and> avail s1 = avail s \<union> frames_under 8 r f0 [i]"
  proof (cases "[i] \<in> rtabs 8 r f0")
    case True
    have "length [i] = 1" by simp
    note F = free_l3e_ok [OF t True this]
    show ?thesis using True unfolding leaf(2)
      by (simp only: if_True) (rule free_table [where f = "free_l3e M", OF t True s(1,3)], rule F, assumption+)
  next
    case False
    then show ?thesis using under_none [OF _ False] s(1) unfolding leaf(2) by (simp only: if_False) simp
  qed
  then obtain s1 where s1: "(if pte_valid_table (rent r f0 [i])
      then do { (ptr, s) \<leftarrow> op_get M ?g s; s \<leftarrow> foreach (free_l3e M ptr) [0..<512] s; s \<leftarrow> op_put M ?g ptr s; op_free M ?g s } else Some s) = Some s1"
    "keeps f0 m0 s1" "avail s1 = avail s \<union> frames_under 8 r f0 [i]" by blast
  have "free_l4e M u i s = Some (mem_st M (umap_l4 u (of_nat i)) 0 s1)"
    using leaf(1) by (simp only: free_l4e_def e Let_def if_False s1(1) Option.bind.simps)
  moreover have "keeps f0 (m0(umap_l4 u (of_nat i) := 0)) (mem_st M (umap_l4 u (of_nat i)) 0 s1)"
      "avail (mem_st M (umap_l4 u (of_nat i)) 0 s1) = avail s1"
    using st_other [OF array [OF i] _ refl, of s1 0] s1(2) by simp_all
  ultimately show ?thesis using s1(3) by simp
qed

lemma array_inj: "i < 8 \<Longrightarrow> j < 8 \<Longrightarrow> umap_l4 u (of_nat i) = umap_l4 u (of_nat j) \<longleftrightarrow> i = j"
  using word_of_8i [of i j] by (simp add: umap_l4_def)

lemma free_loop:
  assumes t: "tree r f0" and s: "keeps f0 m0 s" "\<forall>i<8. m0 (umap_l4 u (of_nat i)) = r i" "rframes 8 r f0 \<inter> avail s = {}"
  shows "k \<le> 8 \<Longrightarrow> \<exists>s'. foreach (free_l4e M u) [0..<k] s = Some s' \<and>
    keeps f0 (\<lambda>a. if \<exists>i<k. a = umap_l4 u (of_nat i) then 0 else m0 a) s' \<and> avail s' = avail s \<union> (\<Union>i<k. frames_under 8 r f0 [i])"
proof (induction k)
  case 0
  then show ?case using s(1) by simp
next
  case (Suc k)
  let ?m = "\<lambda>k a. if \<exists>i<k. a = umap_l4 u (of_nat i) then 0 else m0 a"
  have k: "k < 8" using Suc.prems by simp
  obtain s1 where s1: "foreach (free_l4e M u) [0..<k] s = Some s1" "keeps f0 (?m k) s1" "avail s1 = avail s \<union> (\<Union>i<k. frames_under 8 r f0 [i])"
    using Suc.IH [OF Suc_leD [OF Suc.prems]] by blast
  have m: "?m k (umap_l4 u (of_nat k)) = r k"
  proof -
    have "\<not> (\<exists>i<k. umap_l4 u (of_nat k) = umap_l4 u (of_nat i))" using array_inj [of k] k by (metis less_irrefl less_trans)
    then show ?thesis using s(2) k by auto
  qed
  have wf: "rwf 8 r f0" using t by blast
  have "frames_under 8 r f0 [k] \<inter> frames_under 8 r f0 [i] = {}" if "i < k" for i using under_disjoint(1) [OF wf, of k i "[]"] that by simp
  moreover have "frames_under 8 r f0 [k] \<inter> avail s = {}" using under_sub [of 8 r f0 "[k]"] s(3) by blast
  ultimately have d: "frames_under 8 r f0 [k] \<inter> avail s1 = {}" unfolding s1(3) by blast
  obtain s2 where s2: "free_l4e M u k s1 = Some s2" "keeps f0 ((?m k)(umap_l4 u (of_nat k) := 0)) s2" "avail s2 = avail s1 \<union> frames_under 8 r f0 [k]"
    using free_l4e_ok [OF t k s1(2) m d] by blast
  have e: "(?m k)(umap_l4 u (of_nat k) := 0) = ?m (Suc k)" by (intro ext) (auto simp: less_Suc_eq)
  have "keeps f0 (?m (Suc k)) s2" using s2(2) unfolding e .
  moreover have "foreach (free_l4e M u) [0..<Suc k] s = Some s2" using s1(1) s2(1) by (simp add: foreach_append)
  moreover have "avail s2 = avail s \<union> (\<Union>i<Suc k. frames_under 8 r f0 [i])" unfolding s2(3) s1(3) lessThan_Suc by blast
  ultimately show ?case by (intro exI [of _ s2] conjI) simp_all
qed

lemma free_ok:
  assumes ok: "uarr.ok s" and root: "root \<notin> uarr.Tf s"
  shows "\<exists>s'. pt_umap_free M u s = Some s' \<and> uarr.ok s' \<and> avail s' = avail s \<union> uarr.Tf s \<and> fw s' = fw s \<and>
    (\<forall>a. isk a \<and> a \<notin> (\<lambda>i. umap_l4 u (of_nat i)) ` {..<8} \<longrightarrow> mem_ld M a s' = mem_ld M a s) \<and> (\<forall>p. vpath 8 p \<longrightarrow> uarr.E s' p = 0)"
proof -
  let ?r = "l4v M (\<lambda>i. umap_l4 u (of_nat i)) s" and ?m = "\<lambda>a. mem_ld M a s"
  note U = uarr.okD [OF ok]
  have t: "tree ?r (fw s)" using U(2,3) root by blast
  have s: "keeps (fw s) ?m s" "\<forall>i<8. ?m (umap_l4 u (of_nat i)) = ?r i" "uarr.Tf s \<inter> avail s = {}" using U(1,4) by (auto simp: l4v_def)
  obtain s' where s': "foreach (free_l4e M u) [0..<8] s = Some s'"
      "keeps (fw s) (\<lambda>a. if \<exists>i<8. a = umap_l4 u (of_nat i) then 0 else ?m a) s'" "avail s' = avail s \<union> (\<Union>i<8. frames_under 8 ?r (fw s) [i])"
    using free_loop [OF t s order_refl] by blast
  have "\<forall>i<8. l4v M (\<lambda>i. umap_l4 u (of_nat i)) s' i = 0" using s'(2) array by (auto simp: l4v_def)
  then have e: "\<forall>p. vpath 8 p \<longrightarrow> uarr.E s' p = 0" using ent_zero by blast
  then have "uarr.Tb s' = {}" by (auto simp: tabs_def)
  then have "uarr.ok s'" using s'(2) by (simp add: map_ok_def pt_wf_def tframes_def)
  moreover have "avail s' = avail s \<union> uarr.Tf s" unfolding s'(3) under_top ..
  moreover have "pt_umap_free M u s = Some s'" using s'(1) by (simp only: pt_umap_free_def)
  ultimately show ?thesis using s'(2) e by (intro exI [of _ s'] conjI) auto
qed

end

context riscv_umap
begin

lemma free_tables:
  assumes ok: "uarr.ok s" and root: "root \<notin> uarr.Tf s"
  shows "\<exists>s'. pt_umap_free (mm_ops mmu cfg client hal_of) u s = Some s' \<and> uarr.ok s' \<and> free_frames n s' = free_frames n s \<union> uarr.Tf s \<and>
    frame_words isf s' = frame_words isf s \<and> (\<forall>x. uaddr x \<longrightarrow> ulk s' x = 0)"
proof -
  obtain s' where s': "pt_umap_free (mm_ops mmu cfg client hal_of) u s = Some s'" "uarr.ok s'" "free_frames n s' = free_frames n s \<union> uarr.Tf s"
      "frame_words isf s' = frame_words isf s" "\<forall>p. vpath 8 p \<longrightarrow> uarr.E s' p = 0"
    using free_ok [OF assms] by blast
  have "uaddr x \<Longrightarrow> ulk s' x = 0" for x using s'(5) vpath_vp [OF uaddr_l4(1)] by (simp add: leaf_def)
  then show ?thesis using s'(1-4) by blast
qed

end

section \<open>Properties\<close>

text \<open>The frames of the tables of a user mapping.\<close>

definition utables :: "'a mmu \<Rightarrow> mm_cfg \<Rightarrow> 'a mm_st_scheme allocators \<Rightarrow> (pfn_t \<Rightarrow> bool) \<Rightarrow> u64 \<Rightarrow> 'a mm_st_scheme \<Rightarrow> pfn_t set" where
  "utables mmu cfg client isf u s = rframes 8 (l4v (rv_ops mmu cfg client) (\<lambda>i. umap_l4 u (of_nat i)) s) (frame_words isf s)"

text \<open>
  C8. Freeing a user mapping on RISC-V gives every frame of its page tables back to the allocator, and no other: on a
  mapping in good order that no CPU uses, \<^verbatim>\<open>umap_free\<close> returns, the free frames are those from before and those of the
  tables, none of which was free before, so that \<^verbatim>\<open>pfn_avail\<close> grows by their number; the contents of the frames are
  as they were and no page is mapped any more. On a mapping in use it does not return.
\<close>

theorem umap_free_releases:
  assumes env: "machine_env mmu cfg n root isf isk kphys" and arr: "\<forall>i<8. isk (umap_l4 u (of_nat i))"
    and ok: "uspace_ok mmu cfg client n root isf u s" and root: "root \<notin> utables mmu cfg client isf u s" and hal: "um_hal (umaps s um) = u"
  shows "if um_cpumask (umaps s um) = 0
    then utables mmu cfg client isf u s \<inter> free_frames n s = {} \<and>
      (\<exists>s'. umap_free (rv_hal mmu cfg client) um s = Some s' \<and> uspace_ok mmu cfg client n root isf u s' \<and>
        free_frames n s' = free_frames n s \<union> utables mmu cfg client isf u s \<and>
        pfn_avail s' = pfn_avail s + of_nat (card (utables mmu cfg client isf u s)) \<and>
        frame_words isf s' = frame_words isf s \<and> (\<forall>x. uaddr x \<longrightarrow> uleaf mmu cfg client isf u s' x = 0))
    else umap_free (rv_hal mmu cfg client) um s = None"
proof (cases "um_cpumask (umaps s um) = 0")
  case True
  let ?T = "utables mmu cfg client isf u s"
  have "riscv_umap mmu cfg n root isf isk kphys u"
    using env arr by (simp add: riscv_umap_def riscv_machine_def riscv_umap_axioms_def)
  note L = riscv_umap.free_tables [OF this, where client = client and hal_of = riscv_hal, folded rv_ops_def, folded uspace_ok_def uleaf_def utables_def,
      OF ok root]
  obtain s' where s': "pt_umap_free (rv_ops mmu cfg client) u s = Some s'" "uspace_ok mmu cfg client n root isf u s'"
      "free_frames n s' = free_frames n s \<union> ?T" "frame_words isf s' = frame_words isf s" "\<forall>x. uaddr x \<longrightarrow> uleaf mmu cfg client isf u s' x = 0"
    using L by blast
  have d: "?T \<inter> free_frames n s = {}" using ok by (auto simp: uspace_ok_def map_ok_def utables_def)
  have "pfn_avail s = of_nat (card (free_frames n s))" "pfn_avail s' = of_nat (card (free_frames n s'))"
    using pfn_avail_ok ok s'(2) by (auto simp: uspace_ok_def map_ok_def machine_ok_def)
  then have a: "pfn_avail s' = pfn_avail s + of_nat (card ?T)"
    using s'(3) card_Un_disjoint [of "free_frames n s" ?T] d by (simp add: Int_commute)
  have "umap_free (rv_hal mmu cfg client) um s = Some s'" using s'(1) True hal by (simp add: umap_free_def rv_hal_def riscv_hal_def)
  then show ?thesis using True d a s'(2-5) by auto
qed (simp add: umap_free_def)

text \<open>The concrete machine with a user mapping that has one table, in frame 4.\<close>

definition mm2 :: mm_st where
  "mm2 = mm1\<lparr>pmem := (\<lambda>_. 0)(0x3000 := mkpte 4 1)\<rparr>"

lemma mm2_words: "frame_words isf0 mm2 f i = 0"
proof (cases "i < 512 \<and> isf0 f")
  case True
  then have f: "unat f < 2 ^ 52" "f \<noteq> 3" by (auto simp: isf0_def word_less_nat_alt)
  have "ptob f + 8 * of_nat i \<noteq> ptob 3 + 8 * of_nat 0" using word_addr_inj [of f i 3 0] f True by simp
  then show ?thesis by (simp add: frame_words_def mm2_def ptob_def)
qed (auto simp: frame_words_def)

lemma mm2_entries:
  assumes "vpath 8 p"
  shows "rent (l4v (rv_ops mmu0 cfg0 client0) (\<lambda>i. umap_l4 0xffff800000003000 (of_nat i)) mm2) (frame_words isf0 mm2) p = (if p = [0] then mkpte 4 1 else 0)"
proof -
  have w: "frame_words isf0 mm2 = (\<lambda>_ _. 0)" using mm2_words by (simp add: fun_eq_iff)
  have "i < 8 \<Longrightarrow> l4v (rv_ops mmu0 cfg0 client0) (\<lambda>i. umap_l4 0xffff800000003000 (of_nat i)) mm2 i = ((\<lambda>_. 0)(0 := mkpte 4 1)) i" for i
  proof -
    assume "i < 8"
    then have "i = 0 \<or> i = 1 \<or> i = 2 \<or> i = 3 \<or> i = 4 \<or> i = 5 \<or> i = 6 \<or> i = 7" by arith
    then show ?thesis by (elim disjE) (simp_all add: l4v_def rv_ops_def ld64_def mm2_def mmu0_def umap_l4_def)
  qed
  then have "rent (l4v (rv_ops mmu0 cfg0 client0) (\<lambda>i. umap_l4 0xffff800000003000 (of_nat i)) mm2) (frame_words isf0 mm2) p =
      rent ((\<lambda>_. 0)(0 := mkpte 4 1)) (\<lambda>_ _. 0) p"
    unfolding w by (intro ent_cong [OF _ _ assms]) simp_all
  also have "\<dots> = (if p = [0] then mkpte 4 1 else rent (\<lambda>_. 0) (\<lambda>_ _. 0) p)"
    by (rule ent_set_root [OF _ _ assms]) (simp_all add: installs_def)
  also have "\<dots> = (if p = [0] then mkpte 4 1 else 0)" using ent_empty [of "\<lambda>_. 0" p "\<lambda>_ _. 0"] assms by (auto simp: vpath_def)
  finally show ?thesis .
qed

lemma uspace2: "uspace_ok mmu0 cfg0 client0 7 5 isf0 0xffff800000003000 mm2" "utables mmu0 cfg0 client0 isf0 0xffff800000003000 mm2 = {4}"
proof -
  have m: "pte_pfn (mkpte 4 1) = 4" "pte_valid (mkpte 4 1)" "pte_valid_table (mkpte 4 1)"
    using mkpte_pfn [of 4] mkpte_table [of 4] pte_table_valid by simp_all
  have e: "rent (l4v (rv_ops mmu0 cfg0 client0) (\<lambda>i. umap_l4 0xffff800000003000 (of_nat i)) mm2) (frame_words isf0 mm2) [0] = mkpte 4 1"
    using mm2_entries [of "[0]"] by (simp only: vpath_Cons) simp
  have t: "rtabs 8 (l4v (rv_ops mmu0 cfg0 client0) (\<lambda>i. umap_l4 0xffff800000003000 (of_nat i)) mm2) (frame_words isf0 mm2) = {[0]}"
  proof (intro equalityI subsetI)
    fix p
    assume p: "p \<in> rtabs 8 (l4v (rv_ops mmu0 cfg0 client0) (\<lambda>i. umap_l4 0xffff800000003000 (of_nat i)) mm2) (frame_words isf0 mm2)"
    then show "p \<in> {[0]}" using tabsD(3) [OF p] mm2_entries [OF tabsD(1) [OF p]] by (cases "p = [0]") simp_all
  next
    fix p :: "nat list"
    assume "p \<in> {[0]}"
    then show "p \<in> rtabs 8 (l4v (rv_ops mmu0 cfg0 client0) (\<lambda>i. umap_l4 0xffff800000003000 (of_nat i)) mm2) (frame_words isf0 mm2)"
      unfolding tabs_def using e m(2) by (simp add: vpath_Cons)
  qed
  show u: "utables mmu0 cfg0 client0 isf0 0xffff800000003000 mm2 = {4}" by (simp only: utables_def tframes_def t image_insert image_empty e m)
  have "machine_ok cfg0 7 5 isf0 mm2" "free_frames 7 mm2 = {1, 2, 127}" using machine1 free0 by (simp_all add: mm2_def free_frames_def mm1_def)
  then show "uspace_ok mmu0 cfg0 client0 7 5 isf0 0xffff800000003000 mm2"
    using u e m t by (simp add: uspace_ok_def map_ok_def pt_wf_def utables_def isf0_def)
qed

theorem umap_free_releases_witness:
  "\<exists>s'. umap_free (rv_hal mmu0 cfg0 client0) 0x100 mm2 = Some s' \<and> free_frames 7 s' = {1, 2, 127, 4} \<and> pfn_avail s' = 4"
proof -
  have a: "\<forall>i<8. isk0 (umap_l4 0xffff800000003000 (of_nat i))" using m0u.umap_words by blast
  have f: "free_frames 7 mm2 = {1, 2, 127}" "pfn_avail mm2 = 3" "um_hal (umaps mm2 0x100) = 0xffff800000003000" "um_cpumask (umaps mm2 0x100) = 0"
    using free0 mm0_fields(5) by (simp_all add: mm2_def free_frames_def mm1_def pfn_avail_def umap0_def)
  have "5 \<notin> utables mmu0 cfg0 client0 isf0 0xffff800000003000 mm2" by (simp add: uspace2)
  from umap_free_releases [OF env0 a uspace2(1) this f(3)] obtain s' where
      s': "umap_free (rv_hal mmu0 cfg0 client0) 0x100 mm2 = Some s'" "free_frames 7 s' = {1, 2, 127} \<union> {4}" "pfn_avail s' = 3 + of_nat (card {4 :: pfn_t})"
    unfolding f(1,2,4) uspace2(2) by (simp only: if_True simp_thms) blast
  have "{1, 2, 127} \<union> {4} = {1, 2, 127, 4 :: pfn_t}" by blast
  then show ?thesis using s' by simp
qed

text \<open>No table is shared between a user mapping and the upper part of the current mapping.\<close>

definition tables_apart :: "'a mmu \<Rightarrow> mm_cfg \<Rightarrow> 'a mm_st_scheme allocators \<Rightarrow> pfn_t \<Rightarrow> (pfn_t \<Rightarrow> bool) \<Rightarrow> u64 \<Rightarrow> 'a mm_st_scheme \<Rightarrow> bool" where
  "tables_apart mmu cfg client root isf u s \<longleftrightarrow> apart 8 (l4v (rv_ops mmu cfg client) (\<lambda>i. umap_l4 u (of_nat i)) s) 512
     (l4v (rv_ops mmu cfg client) (root_at cfg root) s) (frame_words isf s)"


lemma kspace2: "kspace_ok mmu0 cfg0 client0 7 5 isf0 mm2" "tables_apart mmu0 cfg0 client0 5 isf0 u mm2"
proof -
  have "isf0 5" by (simp add: isf0_def)
  then have "i < 512 \<Longrightarrow> l4v (rv_ops mmu0 cfg0 client0) (root_at cfg0 5) mm2 i = 0" for i
    using m0.ld_frame [of 5 i mm2] mm2_words [of 5 i] by (simp add: l4v_def rv_ops_def)
  then have "vpath 512 p \<Longrightarrow> rent (l4v (rv_ops mmu0 cfg0 client0) (root_at cfg0 5) mm2) (frame_words isf0 mm2) p = 0" for p
    by (intro ent_zero) simp_all
  then have "rtabs 512 (l4v (rv_ops mmu0 cfg0 client0) (root_at cfg0 5) mm2) (frame_words isf0 mm2) = {}"
    by (auto simp: tabs_def)
  moreover have "machine_ok cfg0 7 5 isf0 mm2" using machine1 by (simp add: mm2_def)
  ultimately show "kspace_ok mmu0 cfg0 client0 7 5 isf0 mm2" "tables_apart mmu0 cfg0 client0 5 isf0 u mm2"
    by (simp_all add: kspace_ok_def map_ok_def pt_wf_def tframes_def tables_apart_def apart_def)
qed


end
