(* ===== verification/Uscan.thy ===== *)
theory Uscan
  imports Ufree
begin

text \<open>
  Scanning the page tables of RISC-V: the loops of \<^verbatim>\<open>scan_l1\<close>, \<^verbatim>\<open>scan_l2\<close> and \<^verbatim>\<open>scan_l3\<close> return the first leaf entry at or
  after an index, in the order of addresses, which is the order of the numbers that paths of indices are.
\<close>

section \<open>Paths of indices as numbers\<close>

primrec lval :: "nat list \<Rightarrow> nat" where
  "lval [] = 0"
| "lval (j # js) = j * 512 ^ length js + lval js"

definition idx_ok :: "nat \<Rightarrow> nat \<Rightarrow> nat list \<Rightarrow> bool" where
  "idx_ok k off js \<longleftrightarrow> length js = k \<and> (\<forall>j\<in>set js. j < 512) \<and> off \<le> hd js"

text \<open>The first leaf entry below the table at \<open>p\<close>, \<open>k\<close> levels down, from the entry \<open>off\<close> on.\<close>

definition least_leaf :: "(nat list \<Rightarrow> u64) \<Rightarrow> nat list \<Rightarrow> nat \<Rightarrow> nat \<Rightarrow> nat list option \<Rightarrow> bool" where
  "least_leaf E p k off res \<longleftrightarrow> (case res of
       None \<Rightarrow> \<forall>js. idx_ok k off js \<longrightarrow> E (rev js @ p) = 0
     | Some js \<Rightarrow> idx_ok k off js \<and> E (rev js @ p) \<noteq> 0 \<and> (\<forall>js'. idx_ok k off js' \<and> E (rev js' @ p) \<noteq> 0 \<longrightarrow> lval js \<le> lval js'))"

lemma lval_less: "\<forall>j\<in>set js. j < 512 \<Longrightarrow> lval js < 512 ^ length js"
proof (induction js)
  case (Cons j js)
  then have l: "lval js < 512 ^ length js" "j \<le> 511" by simp_all
  have "j * 512 ^ length js \<le> 511 * 512 ^ length js" using l(2) by (rule mult_right_mono) simp
  then have "j * 512 ^ length js + lval js < 512 * 512 ^ length js" using l(1) by linarith
  then show ?case by simp
qed simp

lemma lval_mono:
  assumes "j < j'" "\<forall>i\<in>set js. i < 512" "length js = length js'"
  shows "lval (j # js) \<le> lval (j' # js')"
proof -
  have "Suc j * 512 ^ length js \<le> j' * 512 ^ length js" using assms(1) by (intro mult_right_mono) simp_all
  then show ?thesis using lval_less [OF assms(2)] assms(3) by simp
qed

lemma find_upt: "find P [a..<b] = Some i \<longleftrightarrow> a \<le> i \<and> i < b \<and> P i \<and> (\<forall>j. a \<le> j \<and> j < i \<longrightarrow> \<not> P j)"
proof
  assume "find P [a..<b] = Some i"
  then obtain k where k: "k < b - a" "P ([a..<b] ! k)" "i = [a..<b] ! k" "\<forall>j<k. \<not> P ([a..<b] ! j)" by (auto simp: find_Some_iff)
  have "\<not> P j" if "a \<le> j" "j < i" for j
  proof -
    have "j - a < k" "[a..<b] ! (j - a) = j" using that k(1,3) by simp_all
    then show ?thesis using k(4) by metis
  qed
  then show "a \<le> i \<and> i < b \<and> P i \<and> (\<forall>j. a \<le> j \<and> j < i \<longrightarrow> \<not> P j)" using k by simp
next
  assume "a \<le> i \<and> i < b \<and> P i \<and> (\<forall>j. a \<le> j \<and> j < i \<longrightarrow> \<not> P j)"
  then show "find P [a..<b] = Some i" unfolding find_Some_iff by (intro exI [of _ "i - a"]) auto
qed

lemma find_upt_None: "find P [a..<b] = None \<longleftrightarrow> (\<forall>i. a \<le> i \<and> i < b \<longrightarrow> \<not> P i)"
  by (auto simp: find_None_iff)

lemma idx_1: "idx_ok (Suc 0) off js \<longleftrightarrow> (\<exists>i. js = [i] \<and> off \<le> i \<and> i < 512)"
  by (cases js) (auto simp: idx_ok_def)

lemma idx_Suc: "k \<noteq> 0 \<Longrightarrow> idx_ok (Suc k) off js \<longleftrightarrow> (\<exists>i js'. js = i # js' \<and> off \<le> i \<and> i < 512 \<and> idx_ok k 0 js')"
  by (cases js) (auto simp: idx_ok_def)

lemma least_base: "least_leaf E p (Suc 0) off (map_option (\<lambda>i. [i]) (find (\<lambda>i. E (i # p) \<noteq> 0) [off..<512]))"
proof (cases "find (\<lambda>i. E (i # p) \<noteq> 0) [off..<512]")
  case None
  then have "\<forall>i. off \<le> i \<and> i < 512 \<longrightarrow> E (i # p) = 0" unfolding find_upt_None by blast
  then show ?thesis using None by (auto simp: least_leaf_def idx_1)
next
  case (Some i)
  then have i: "off \<le> i" "i < 512" "E (i # p) \<noteq> 0" "\<forall>j. off \<le> j \<and> j < i \<longrightarrow> E (j # p) = 0" unfolding find_upt by blast+
  have "i \<le> j" if "off \<le> j" "E (j # p) \<noteq> 0" for j using i(4) that by (meson not_less)
  then show ?thesis using Some i(1-3) by (auto simp: least_leaf_def idx_1)
qed

lemma least_step:
  assumes r: "\<And>i. off \<le> i \<Longrightarrow> i < 512 \<Longrightarrow> least_leaf E (i # p) k 0 (r i)" and k: "k \<noteq> 0"
  shows "least_leaf E p (Suc k) off (map_option (\<lambda>i. i # the (r i)) (find (\<lambda>i. r i \<noteq> None) [off..<512]))"
proof (cases "find (\<lambda>i. r i \<noteq> None) [off..<512]")
  case None
  then have "\<forall>i. off \<le> i \<and> i < 512 \<longrightarrow> r i = None" unfolding find_upt_None by blast
  then have "E (rev js @ i # p) = 0" if "off \<le> i" "i < 512" "idx_ok k 0 js" for i js using r [OF that(1,2)] that by (simp add: least_leaf_def)
  then show ?thesis using None by (auto simp: least_leaf_def idx_Suc [OF k])
next
  case (Some i)
  then have i: "off \<le> i" "i < 512" "r i \<noteq> None" "\<forall>j. off \<le> j \<and> j < i \<longrightarrow> r j = None" unfolding find_upt by blast+
  then obtain js where js: "r i = Some js" by blast
  have l: "idx_ok k 0 js" "E (rev js @ i # p) \<noteq> 0" "\<And>js'. idx_ok k 0 js' \<Longrightarrow> E (rev js' @ i # p) \<noteq> 0 \<Longrightarrow> lval js \<le> lval js'"
    using r [OF i(1,2)] js by (auto simp: least_leaf_def)
  have "lval (i # js) \<le> lval (j # js')" if h: "off \<le> j" "j < 512" "idx_ok k 0 js'" "E (rev js' @ j # p) \<noteq> 0" for j js'
  proof -
    have len: "length js = length js'" "\<forall>i\<in>set js. i < 512" using l(1) h(3) by (simp_all add: idx_ok_def)
    have "\<not> j < i"
    proof
      assume "j < i"
      then have "r j = None" using i(4) h(1) by blast
      then show False using r [OF h(1,2)] h(3,4) by (simp add: least_leaf_def)
    qed
    then show ?thesis using l(3) [OF h(3)] h(4) lval_mono [OF _ len(2,1)] len(1) by (cases "j = i") auto
  qed
  then show ?thesis using Some js i(1,2) l(1,2) by (auto simp: least_leaf_def idx_Suc [OF k])
qed

section \<open>Scanning a table\<close>

text \<open>What a scan found: \<open>dec\<close> gives the indices and the leaf entry of a result.\<close>

definition scanned :: "(nat list \<Rightarrow> u64) \<Rightarrow> nat list \<Rightarrow> nat \<Rightarrow> nat \<Rightarrow> ('r \<Rightarrow> nat list \<times> u64) \<Rightarrow> 'r option \<Rightarrow> bool" where
  "scanned E p k off dec r \<longleftrightarrow> least_leaf E p k off (map_option (\<lambda>x. fst (dec x)) r) \<and>
     (\<forall>x. r = Some x \<longrightarrow> snd (dec x) = E (rev (fst (dec x)) @ p))"

definition up :: "('r \<Rightarrow> nat list \<times> u64) \<Rightarrow> nat \<times> 'r \<Rightarrow> nat list \<times> u64" where
  "up dec x = (fst x # fst (dec (snd x)), snd (dec (snd x)))"

lemma scanned_step:
  assumes g: "\<And>i. off \<le> i \<Longrightarrow> i < 512 \<Longrightarrow> scanned E (i # p) k 0 dec (g i)" and k: "k \<noteq> 0"
  shows "scanned E p (Suc k) off (up dec) (map_option (\<lambda>i. (i, the (g i))) (find (\<lambda>i. g i \<noteq> None) [off..<512]))"
proof -
  let ?r = "\<lambda>i. map_option (\<lambda>x. fst (dec x)) (g i)" and ?f = "find (\<lambda>i. g i \<noteq> None) [off..<512]"
  have "find (\<lambda>i. ?r i \<noteq> None) [off..<512] = ?f" by simp
  moreover have "map_option (\<lambda>i. i # the (?r i)) ?f = map_option (\<lambda>x. fst (up dec x)) (map_option (\<lambda>i. (i, the (g i))) ?f)"
  proof (cases ?f)
    case (Some i)
    then have "g i \<noteq> None" unfolding find_upt by blast
    then show ?thesis using Some by (auto simp: up_def)
  qed simp
  moreover have "least_leaf E (i # p) k 0 (?r i)" if "off \<le> i" "i < 512" for i using g [OF that] by (simp add: scanned_def)
  ultimately have l: "least_leaf E p (Suc k) off (map_option (\<lambda>x. fst (up dec x)) (map_option (\<lambda>i. (i, the (g i))) ?f))"
    using least_step [of off E p k ?r] k by simp
  have "snd (up dec x) = E (rev (fst (up dec x)) @ p)" if h: "map_option (\<lambda>i. (i, the (g i))) ?f = Some x" for x
  proof -
    obtain i where i: "?f = Some i" "x = (i, the (g i))" using h unfolding map_option_eq_Some by blast
    then have "off \<le> i" "i < 512" "g i \<noteq> None" unfolding find_upt by blast+
    then show ?thesis using g [of i] i(2) by (auto simp: scanned_def up_def)
  qed
  with l show ?thesis by (simp add: scanned_def)
qed

lemma first_hit_pure:
  "\<forall>i\<in>set js. f i s = Some (g i, s) \<Longrightarrow>
    first_hit f js s = Some (map_option (\<lambda>i. (i, the (g i))) (find (\<lambda>i. g i \<noteq> None) js), s)"
  by (induction js) (auto split: option.split)

lemma ent_dead: "\<not> pte_valid (rent r fw p) \<Longrightarrow> p \<noteq> [] \<Longrightarrow> js \<noteq> [] \<Longrightarrow> rent r fw (js @ p) = 0"
proof (induction js)
  case (Cons j js)
  then show ?case by (cases "js = []") (simp_all add: ent_Cons)
qed simp

lemma scanned_dead:
  assumes "\<not> pte_valid (rent r fw p)" "p \<noteq> []" "k \<noteq> 0"
  shows "scanned (rent r fw) p k off dec None"
proof -
  have "rent r fw (rev js @ p) = 0" if "idx_ok k off js" for js using ent_dead [OF assms(1,2), of "rev js"] that assms(3) by (auto simp: idx_ok_def)
  then show ?thesis by (simp add: scanned_def least_leaf_def)
qed

context sv48_map
begin

lemma scan_entry:
  assumes "ok s" "p \<in> Tb s" "i < 512"
  shows "mem_ld M (fva (pte_pfn (E s p)) + 8 * of_nat i) s = E s (i # p)"
  using ld_frame [of "pte_pfn (E s p)" i s] tab_frame [OF assms(1,2)] assms(3) ent_below [OF assms(2), of i] by simp

lemma scan_l1_ok:
  assumes ok: "ok s" and p: "p \<in> Tb s"
  shows "\<exists>r. scan_l1 M (pte_pfn (E s p)) off s = Some (r, s) \<and> scanned (E s) p (Suc 0) off (\<lambda>(i, _, e). ([i], e)) r"
proof -
  let ?g = "pte_pfn (E s p)" and ?P = "\<lambda>i. E s (i # p) \<noteq> 0"
  let ?r = "map_option (\<lambda>i. (i, mkpte ?g (of_nat i), E s (i # p))) (find ?P [off..<512])"
  have gp: "op_get M ?g s = Some (fva ?g, s)" "op_put M ?g (fva ?g) s = Some s"
    using get_frame put_frame okD(1) [OF ok] tab_frame [OF ok p] by blast+
  have f: "find (\<lambda>i. mem_ld M (fva ?g + 8 * of_nat i) s \<noteq> 0) [off..<512] = find ?P [off..<512]"
    by (rule find_cong [OF refl]) (use scan_entry [OF ok p] in simp)
  have "scan_l1 M ?g off s = Some (?r, s)"
  proof (cases "find ?P [off..<512]")
    case (Some i)
    then have "i < 512" unfolding find_upt by blast
    then show ?thesis using gp f Some scan_entry [OF ok p] by (simp add: scan_l1_def Let_def)
  qed (use gp f in \<open>simp add: scan_l1_def Let_def\<close>)
  moreover have "scanned (E s) p (Suc 0) off (\<lambda>(i, _, e). ([i], e)) ?r"
    using least_base [of "E s" p off] by (auto simp: scanned_def map_option.compositionality comp_def)
  ultimately show ?thesis by blast
qed

lemma scan_table:
  assumes ok: "ok s" and p: "p \<in> Tb s" "length p \<le> 2" and k: "k \<noteq> 0" and f: "f = pte_pfn (E s p)"
    and inner: "\<And>i. i # p \<in> Tb s \<Longrightarrow> \<exists>r. S (pte_pfn (E s (i # p))) s = Some (r, s) \<and> scanned (E s) (i # p) k 0 dec r"
  shows "\<exists>r. do { (ptr, s) \<leftarrow> op_get M f s;
      (r, s) \<leftarrow> first_hit (\<lambda>i s. let e = mem_ld M (ptr + 8 * of_nat i) s in if pte_valid_table e then S (pte_pfn e) s else Some (None, s)) [off..<512] s;
      s \<leftarrow> op_put M f ptr s; Some (r, s) } = Some (r, s) \<and> scanned (E s) p (Suc k) off (up dec) r"
proof -
  let ?g = "pte_pfn (E s p)"
  have gp: "op_get M ?g s = Some (fva ?g, s)" "op_put M ?g (fva ?g) s = Some s"
    using get_frame put_frame okD(1) [OF ok] tab_frame [OF ok p(1)] by blast+
  have "\<forall>i. \<exists>r. i # p \<in> Tb s \<longrightarrow> S (pte_pfn (E s (i # p))) s = Some (r, s) \<and> scanned (E s) (i # p) k 0 dec r" using inner by blast
  then obtain g where g: "\<forall>i. i # p \<in> Tb s \<longrightarrow> S (pte_pfn (E s (i # p))) s = Some (g i, s) \<and> scanned (E s) (i # p) k 0 dec (g i)"
    by (rule choice [THEN exE])
  let ?h = "\<lambda>i. if i # p \<in> Tb s then g i else None"
  have t: "pte_valid_table (E s (i # p)) \<longleftrightarrow> i # p \<in> Tb s" "\<not> i # p \<in> Tb s \<Longrightarrow> \<not> pte_valid (E s (i # p))" if "i < 512" for i
    using tab_table [OF ok, of "i # p"] pte_table_valid [of "E s (i # p)"] p tabsD(1,4) [OF p(1)] that by (auto simp: tabs_def vpath_Cons)
  have b: "(let e = mem_ld M (fva ?g + 8 * of_nat i) s in if pte_valid_table e then S (pte_pfn e) s else Some (None, s)) = Some (?h i, s)" if "i < 512" for i
    using g scan_entry [OF ok p(1) that] t [OF that] by (simp add: Let_def)
  have "scanned (E s) (i # p) k 0 dec (?h i)" if "i < 512" for i
    by (cases "i # p \<in> Tb s") (use g in simp, simp add: scanned_dead [OF t(2) [OF that] _ k])
  then have "scanned (E s) p (Suc k) off (up dec) (map_option (\<lambda>i. (i, the (?h i))) (find (\<lambda>i. ?h i \<noteq> None) [off..<512]))"
    by (intro scanned_step k)
  moreover have "first_hit (\<lambda>i s. let e = mem_ld M (fva ?g + 8 * of_nat i) s in if pte_valid_table e then S (pte_pfn e) s else Some (None, s)) [off..<512] s =
      Some (map_option (\<lambda>i. (i, the (?h i))) (find (\<lambda>i. ?h i \<noteq> None) [off..<512]), s)"
    by (rule first_hit_pure) (use b in simp)
  ultimately show ?thesis using gp f by simp
qed

lemma scan_l2_ok:
  assumes ok: "ok s" and p: "p \<in> Tb s" "length p = 2"
  shows "\<exists>r. scan_l2 M (pte_pfn (E s p)) off s = Some (r, s) \<and> scanned (E s) p (Suc (Suc 0)) off (up (\<lambda>(i, _, e). ([i], e))) r"
  unfolding scan_l2_def
  by (rule scan_table [OF ok p(1), where S = "\<lambda>f. scan_l1 M f 0"]) (use p(2) scan_l1_ok [OF ok] in \<open>simp_all add: scan_l1_ok [OF ok]\<close>)

lemma scan_l3_ok:
  assumes ok: "ok s" and p: "p \<in> Tb s" "length p = 1"
  shows "\<exists>r. scan_l3 M (pte_pfn (E s p)) off s = Some (r, s) \<and> scanned (E s) p (Suc (Suc (Suc 0))) off (up (up (\<lambda>(i, _, e). ([i], e)))) r"
  unfolding scan_l3_def
  by (rule scan_table [OF ok p(1), where S = "\<lambda>f. scan_l2 M f 0"]) (use p(2) scan_l2_ok [OF ok] in simp_all)

end

section \<open>Addresses as paths\<close>

lemma off_unat:
  "unat (L1OFF y) = unat y div 4096 mod 512" "unat (L2OFF y) = unat y div 4096 div 512 mod 512"
  "unat (L3OFF y) = unat y div 4096 div 512 div 512 mod 512" "unat (L4OFF y) = unat y div 4096 div 512 div 512 div 512 mod 512"
proof -
  have m: "unat (drop_bit k y AND 0x1ff) = unat y div 2 ^ k mod 512" for k
  proof -
    have "(0x1ff :: u64) = mask 9" by (simp add: mask_numeral)
    then have "unat (drop_bit k y AND 0x1ff) = drop_bit k (unat y) mod 2 ^ 9" by (simp only: unat_and_mask unat_drop_bit_eq)
    then show ?thesis by (simp add: drop_bit_eq_div)
  qed
  show "unat (L1OFF y) = unat y div 4096 mod 512" "unat (L2OFF y) = unat y div 4096 div 512 mod 512"
    "unat (L3OFF y) = unat y div 4096 div 512 div 512 mod 512" "unat (L4OFF y) = unat y div 4096 div 512 div 512 div 512 mod 512"
    using m [of 12] m [of 21] m [of 30] m [of 39] by (simp_all add: L1OFF_def L2OFF_def L3OFF_def L4OFF_def div_mult2_eq [symmetric])
qed

lemma vp_lval:
  assumes "uaddr y"
  shows "lval (rev (vp y)) = unat y div 4096"
proof -
  have "unat y < 2 ^ 42" using assms by (simp add: uaddr_def pt_umap_maxaddr_def word_less_nat_alt)
  then have "unat y div 4096 div 512 div 512 div 512 < 512" by simp
  then have "lval (rev (vp y)) = unat y div 4096 div 512 div 512 div 512 * 134217728 + (unat y div 4096 div 512 div 512 mod 512 * 262144 +
      (unat y div 4096 div 512 mod 512 * 512 + unat y div 4096 mod 512))" by (simp add: vp_def off_unat)
  moreover have d: "v div 512 * 512 + v mod 512 = v" for v :: nat by simp
  ultimately show ?thesis
    using d [of "unat y div 4096"] d [of "unat y div 4096 div 512"] d [of "unat y div 4096 div 512 div 512"] by linarith
qed

lemma MKCANON_low: "\<forall>j\<ge>42. \<not> bit x j \<Longrightarrow> MKCANON x = x"
  unfolding MKCANON_def by (rule bit_word_eqI) (auto simp: bit_signed_drop_bit_iff bit_push_bit_iff min_def)

lemma mkaddr_bits:
  assumes "unat a < 8" "unat b < 512" "unat c < 512" "unat d < 512"
  shows "bit (mkaddr a b c d) j \<longleftrightarrow> 39 \<le> j \<and> bit a (j - 39) \<or> 30 \<le> j \<and> j < 39 \<and> bit b (j - 30) \<or>
    21 \<le> j \<and> j < 30 \<and> bit c (j - 21) \<or> 12 \<le> j \<and> j < 21 \<and> bit d (j - 12)"
proof -
  have n: "bit a i \<Longrightarrow> i < 3" "bit b i \<Longrightarrow> i < 9" "bit c i \<Longrightarrow> i < 9" "bit d i \<Longrightarrow> i < 9" for i
    using not_bit_ge [of a 3 i] not_bit_ge [of b 9 i] not_bit_ge [of c 9 i] not_bit_ge [of d 9 i] assms by (auto simp: not_less [symmetric])
  let ?x = "push_bit L4_SHIFT a OR push_bit L3_SHIFT b OR push_bit L2_SHIFT c OR push_bit L1_SHIFT d"
  have b: "bit ?x j \<longleftrightarrow> 39 \<le> j \<and> bit a (j - 39) \<or> 30 \<le> j \<and> j < 39 \<and> bit b (j - 30) \<or>
    21 \<le> j \<and> j < 30 \<and> bit c (j - 21) \<or> 12 \<le> j \<and> j < 21 \<and> bit d (j - 12)" for j
    using n(1) [of "j - 39"] n(2) [of "j - 30"] n(3) [of "j - 21"] n(4) [of "j - 12"] by (auto simp: bit_or_iff bit_push_bit_iff)
  have "\<forall>j\<ge>42. \<not> bit ?x j" unfolding b using n(1) by fastforce
  from MKCANON_low [OF this] show ?thesis unfolding mkaddr_def by (simp only: b)
qed

lemma mkaddr_path:
  assumes "a < 8" "b < 512" "c < 512" "d < 512"
  shows "vp (mkaddr (of_nat a) (of_nat b) (of_nat c) (of_nat d)) = [d, c, b, a]" (is "vp ?x = _")
    and "uaddr (mkaddr (of_nat a) (of_nat b) (of_nat c) (of_nat d))"
    and "mkaddr (of_nat a) (of_nat b) (of_nat c) (of_nat d) AND 0xfff = 0"
proof -
  have u: "unat (of_nat a :: u64) = a" "unat (of_nat b :: u64) = b" "unat (of_nat c :: u64) = c" "unat (of_nat d :: u64) = d"
    using assms by (simp_all add: unat_of_nat)
  note B = mkaddr_bits [of "of_nat a" "of_nat b" "of_nat c" "of_nat d", unfolded u, OF assms]
  have n: "bit (of_nat a :: u64) i \<Longrightarrow> i < 3" "bit (of_nat b :: u64) i \<Longrightarrow> i < 9" "bit (of_nat c :: u64) i \<Longrightarrow> i < 9" "bit (of_nat d :: u64) i \<Longrightarrow> i < 9" for i
    using not_bit_ge [of "of_nat a :: u64" 3 i] not_bit_ge [of "of_nat b :: u64" 9 i] not_bit_ge [of "of_nat c :: u64" 9 i]
      not_bit_ge [of "of_nat d :: u64" 9 i] assms u by (auto simp: not_less [symmetric])
  have m: "(0x1ff :: u64) = mask 9" "(0xfff :: u64) = mask 12" by (simp_all add: mask_numeral)
  have f: "bit (drop_bit k ?x AND 0x1ff) j \<longleftrightarrow> bit ?x (k + j) \<and> j < 9" for k j
    unfolding m by (auto simp: bit_and_iff bit_drop_bit_eq bit_mask_iff)
  have "L4OFF ?x = of_nat a" unfolding L4OFF_def by (rule bit_word_eqI) (use n(1) in \<open>fastforce simp: f B\<close>)
  moreover have "L3OFF ?x = of_nat b" unfolding L3OFF_def by (rule bit_word_eqI) (use n(2) in \<open>auto simp: f B\<close>)
  moreover have "L2OFF ?x = of_nat c" unfolding L2OFF_def by (rule bit_word_eqI) (use n(3) in \<open>auto simp: f B\<close>)
  moreover have "L1OFF ?x = of_nat d" unfolding L1OFF_def by (rule bit_word_eqI) (use n(4) in \<open>auto simp: f B\<close>)
  ultimately show "vp ?x = [d, c, b, a]" by (simp add: vp_def u)
  have "take_bit 42 ?x = ?x" by (rule bit_word_eqI) (use n(1) in \<open>fastforce simp: bit_take_bit_iff B\<close>)
  then have "unat ?x < 2 ^ 42" by (metis take_bit_nat_less_exp unsigned_take_bit_eq)
  then show "uaddr ?x" by (simp add: uaddr_def pt_umap_maxaddr_def word_less_nat_alt)
  show "?x AND 0xfff = 0" unfolding m by (rule bit_word_eqI) (auto simp: bit_and_iff bit_mask_iff B)
qed

end
