(* ===== verification/Unext.thy ===== *)
theory Unext
  imports Uscan
begin

text \<open>
  \<^verbatim>\<open>pt_umap_next\<close> on RISC-V: the next mapped page after an address, in the same top-level entry or the next one.
\<close>

section \<open>The first path after a path\<close>

definition cand :: "(nat list \<Rightarrow> u64) \<Rightarrow> nat list \<Rightarrow> nat list \<Rightarrow> bool" where
  "cand E base js \<longleftrightarrow> length js = 4 \<and> (\<forall>j\<in>set js. j < 512) \<and> hd js \<le> Suc (hd base) \<and> hd js < 8 \<and> lval base < lval js \<and> E (rev js) \<noteq> 0"

lemma lval_strict:
  assumes "j < j'" "\<forall>i\<in>set js. i < 512" "length js = length js'"
  shows "lval (j # js) < lval (j' # js')"
proof -
  have "Suc j * 512 ^ length js \<le> j' * 512 ^ length js" using assms(1) by (intro mult_right_mono) simp_all
  then show ?thesis using lval_less [OF assms(2)] assms(3) by simp
qed

lemma lval_less_iff:
  assumes "\<forall>i\<in>set js. i < 512" "\<forall>i\<in>set js'. i < 512" "length js = length js'"
  shows "lval (j # js) < lval (j' # js') \<longleftrightarrow> j < j' \<or> j = j' \<and> lval js < lval js'"
proof (cases j j' rule: linorder_cases)
  case less
  then show ?thesis using lval_strict [OF less assms(1,3)] by simp
next
  case equal
  then show ?thesis using assms(3) by simp
next
  case greater
  then show ?thesis using lval_strict [OF greater assms(2) assms(3) [symmetric]] by simp
qed

text \<open>A path after \<open>[a, b, c, d]\<close> differs from it first at one of the four levels.\<close>

lemma cand_cases:
  assumes "cand E [a, b, c, d] js" "b < 512" "c < 512" "d < 512"
  obtains d' where "js = [a, b, c, d']" "idx_ok (Suc 0) (Suc d) [d']" "E (rev [d'] @ [c, b, a]) \<noteq> 0"
  | c' d' where "js = [a, b, c', d']" "c < c'" "idx_ok (Suc (Suc 0)) (Suc c) [c', d']" "E (rev [c', d'] @ [b, a]) \<noteq> 0"
  | b' c' d' where "js = [a, b', c', d']" "b < b'" "idx_ok (Suc (Suc (Suc 0))) (Suc b) [b', c', d']" "E (rev [b', c', d'] @ [a]) \<noteq> 0"
  | b' c' d' where "js = [Suc a, b', c', d']" "Suc a < 8" "idx_ok (Suc (Suc (Suc 0))) 0 [b', c', d']" "E (rev [b', c', d'] @ [Suc a]) \<noteq> 0"
proof -
  have "length js = Suc (Suc (Suc (Suc 0)))" using assms(1) by (simp add: cand_def)
  then obtain a' b' c' d' where js: "js = [a', b', c', d']" by (simp only: length_Suc_conv length_0_conv) blast
  have h7: "lval [a, b, c, d] < lval [a', b', c', d']" using assms(1) unfolding js cand_def by blast
  have h: "a' \<le> Suc a" "a' < 8" "b' < 512" "c' < 512" "d' < 512" "E [d', c', b', a'] \<noteq> 0"
    using assms(1) unfolding js cand_def by (simp_all del: lval.simps)
  have "lval [d] < lval [d'] \<longleftrightarrow> d < d'" by simp
  moreover have "lval [c, d] < lval [c', d'] \<longleftrightarrow> c < c' \<or> c = c' \<and> lval [d] < lval [d']"
    by (rule lval_less_iff) (use h assms in simp_all)
  moreover have "lval [b, c, d] < lval [b', c', d'] \<longleftrightarrow> b < b' \<or> b = b' \<and> lval [c, d] < lval [c', d']"
    by (rule lval_less_iff) (use h assms in simp_all)
  moreover have "lval [a, b, c, d] < lval [a', b', c', d'] \<longleftrightarrow> a < a' \<or> a = a' \<and> lval [b, c, d] < lval [b', c', d']"
    by (rule lval_less_iff) (use h assms in simp_all)
  ultimately have "a < a' \<or> a = a' \<and> (b < b' \<or> b = b' \<and> (c < c' \<or> c = c' \<and> d < d'))" using h7 by blast
  moreover have "a < a' \<Longrightarrow> a' = Suc a" using h(1) by simp
  ultimately consider "a' = Suc a" | "a' = a" "b < b'" | "a' = a" "b' = b" "c < c'" | "a' = a" "b' = b" "c' = c" "d < d'" by blast
  then show thesis
  proof cases
    case 1
    then show thesis using that(4) [of b' c' d'] h js by (simp add: idx_ok_def)
  next
    case 2
    then show thesis using that(3) [of b' c' d'] h js by (simp add: idx_ok_def)
  next
    case 3
    then show thesis using that(2) [of c' d'] h js by (simp add: idx_ok_def)
  next
    case 4
    then show thesis using that(1) [of d'] h js by (simp add: idx_ok_def)
  qed
qed

lemma lval_prefix: "length js = length js' \<Longrightarrow> lval (pre @ js) < lval (pre @ js') \<longleftrightarrow> lval js < lval js'"
  by (induction pre) simp_all

lemma lval_prefix_le: "length js = length js' \<Longrightarrow> lval (pre @ js) \<le> lval (pre @ js') \<longleftrightarrow> lval js \<le> lval js'"
  by (induction pre) simp_all

text \<open>The least of a set of paths, if there is one.\<close>

definition least_of :: "nat list set \<Rightarrow> nat list option \<Rightarrow> bool" where
  "least_of A r \<longleftrightarrow> (case r of None \<Rightarrow> A = {} | Some x \<Rightarrow> x \<in> A \<and> (\<forall>y\<in>A. lval x \<le> lval y))"

lemma least_of_Un:
  assumes "least_of A r" "least_of B r'" "\<forall>x\<in>A. \<forall>y\<in>B. lval x \<le> lval y"
  shows "least_of (A \<union> B) (case r of None \<Rightarrow> r' | Some x \<Rightarrow> Some x)"
  using assms by (cases r; cases r') (auto simp: least_of_def)

text \<open>The paths to leaf entries below \<open>pre\<close>, from the entry \<open>off\<close> on.\<close>

definition leaves :: "(nat list \<Rightarrow> u64) \<Rightarrow> nat list \<Rightarrow> nat \<Rightarrow> nat \<Rightarrow> nat list set" where
  "leaves E pre k off = (\<lambda>js. pre @ js) ` {js. idx_ok k off js \<and> E (rev js @ rev pre) \<noteq> 0}"

lemma least_leaves: "least_leaf E (rev pre) k off r \<Longrightarrow> least_of (leaves E pre k off) (map_option (\<lambda>js. pre @ js) r)"
proof (cases r)
  case (Some js)
  assume l: "least_leaf E (rev pre) k off r"
  have "lval (pre @ js) \<le> lval (pre @ js')" if "idx_ok k off js'" "E (rev js' @ rev pre) \<noteq> 0" for js'
    using l Some that lval_prefix_le [of js js' pre] by (simp add: least_leaf_def idx_ok_def)
  then show ?thesis using l Some by (auto simp: least_of_def leaves_def least_leaf_def)
qed (auto simp: least_of_def leaves_def least_leaf_def)

lemma leaves_order:
  assumes "i < i'" "\<forall>j\<in>set (tl js). j < 512" "length js = length js'" "hd js = i" "hd js' = i'" "js \<noteq> []"
  shows "lval (pre @ js) \<le> lval (pre @ js')"
proof -
  obtain ks ks' where "js = i # ks" "js' = i' # ks'" using assms(3-6) by (cases js; cases js') auto
  then show ?thesis using lval_mono [OF assms(1), of ks ks'] lval_prefix_le [of js js' pre] assms(2,3) by simp
qed

lemma leavesE:
  assumes "x \<in> leaves E pre (Suc k) off"
  obtains i ks where "x = pre @ i # ks" "length ks = k" "i < 512" "\<forall>j\<in>set ks. j < 512" "off \<le> i" "E (rev x) \<noteq> 0"
proof -
  obtain js where js: "x = pre @ js" "idx_ok (Suc k) off js" "E (rev js @ rev pre) \<noteq> 0" using assms by (auto simp: leaves_def)
  obtain i ks where "js = i # ks" using js(2) by (cases js) (simp_all add: idx_ok_def)
  then show thesis using that [of i ks] js by (simp add: idx_ok_def)
qed

lemma leaves_cand:
  assumes x: "x \<in> leaves E pre (Suc k) off" and pre: "pre \<noteq> []" "\<forall>i\<in>set pre. i < 512" "hd pre < 8"
    and b: "base = pre @ j # bs" "\<forall>i\<in>set bs. i < 512" "length bs = k" "length base = 4" "j < off"
  shows "cand E base x"
proof -
  obtain i ks where i: "x = pre @ i # ks" "length ks = k" "i < 512" "\<forall>j\<in>set ks. j < 512" "off \<le> i" "E (rev x) \<noteq> 0" using leavesE [OF x] by blast
  have "lval (j # bs) < lval (i # ks)" by (rule lval_strict) (use i b in simp_all)
  then have "lval base < lval x" using lval_prefix [of "j # bs" "i # ks" pre] i(1,2) b(1,3) by simp
  moreover have "hd x = hd pre" "hd base = hd pre" "length x = 4" "\<forall>j\<in>set x. j < 512" using i b(1,3,4) pre by auto
  ultimately show ?thesis using pre(3) i(6) by (simp add: cand_def)
qed

lemma leaves_next: "x \<in> leaves E [Suc a] (Suc (Suc (Suc 0))) 0 \<Longrightarrow> Suc a < 8 \<Longrightarrow> b < 512 \<Longrightarrow> c < 512 \<Longrightarrow> d < 512 \<Longrightarrow> cand E [a, b, c, d] x"
proof -
  assume x: "x \<in> leaves E [Suc a] (Suc (Suc (Suc 0))) 0" and bd: "Suc a < 8" "b < 512" "c < 512" "d < 512"
  obtain i ks where i: "x = [Suc a] @ i # ks" "length ks = Suc (Suc 0)" "i < 512" "\<forall>j\<in>set ks. j < 512" "0 \<le> i" "E (rev x) \<noteq> 0" using leavesE [OF x] by blast
  have "lval (a # [b, c, d]) < lval (Suc a # i # ks)" by (rule lval_strict) (use i(2) bd in simp_all)
  then show "cand E [a, b, c, d] x" unfolding cand_def using i bd by (simp del: lval.simps)
qed

lemma cand_set:
  assumes bd: "a < 8" "b < 512" "c < 512" "d < 512"
  shows "{js. cand E [a, b, c, d] js} = leaves E [a, b, c] (Suc 0) (Suc d) \<union> (leaves E [a, b] (Suc (Suc 0)) (Suc c) \<union>
    (leaves E [a] (Suc (Suc (Suc 0))) (Suc b) \<union> (if Suc a < 8 then leaves E [Suc a] (Suc (Suc (Suc 0))) 0 else {})))" (is "_ = ?R")
proof (intro equalityI subsetI)
  fix js
  assume "js \<in> {js. cand E [a, b, c, d] js}"
  then have "cand E [a, b, c, d] js" by simp
  from this bd(2-4) show "js \<in> ?R"
  proof (cases rule: cand_cases)
    case (1 d')
    then have "js \<in> leaves E [a, b, c] (Suc 0) (Suc d)" unfolding leaves_def by (intro image_eqI [of _ _ "[d']"]) simp_all
    then show ?thesis by blast
  next
    case (2 c' d')
    then have "js \<in> leaves E [a, b] (Suc (Suc 0)) (Suc c)" unfolding leaves_def by (intro image_eqI [of _ _ "[c', d']"]) simp_all
    then show ?thesis by blast
  next
    case (3 b' c' d')
    then have "js \<in> leaves E [a] (Suc (Suc (Suc 0))) (Suc b)" unfolding leaves_def by (intro image_eqI [of _ _ "[b', c', d']"]) simp_all
    then show ?thesis by blast
  next
    case (4 b' c' d')
    then have "js \<in> leaves E [Suc a] (Suc (Suc (Suc 0))) 0" unfolding leaves_def by (intro image_eqI [of _ _ "[b', c', d']"]) simp_all
    then show ?thesis using 4(2) by simp
  qed
next
  fix js
  assume "js \<in> ?R"
  then consider "js \<in> leaves E [a, b, c] (Suc 0) (Suc d)" | "js \<in> leaves E [a, b] (Suc (Suc 0)) (Suc c)" |
    "js \<in> leaves E [a] (Suc (Suc (Suc 0))) (Suc b)" | "Suc a < 8" "js \<in> leaves E [Suc a] (Suc (Suc (Suc 0))) 0" by (auto split: if_splits)
  then have "cand E [a, b, c, d] js"
  proof cases
    case 1
    show ?thesis by (rule leaves_cand [OF 1, where j = d and bs = "[]"]) (use bd in simp_all)
  next
    case 2
    show ?thesis by (rule leaves_cand [OF 2, where j = c and bs = "[d]"]) (use bd in simp_all)
  next
    case 3
    show ?thesis by (rule leaves_cand [OF 3, where j = b and bs = "[c, d]"]) (use bd in simp_all)
  next
    case 4
    show ?thesis by (rule leaves_next [OF 4(2,1) bd(2-4)])
  qed
  then show "js \<in> {js. cand E [a, b, c, d] js}" by simp
qed

lemma path_le:
  assumes "y \<in> leaves E pre (Suc k) (Suc j)" "length xs = k" "\<forall>i\<in>set xs. i < 512"
  shows "lval (pre @ j # xs) \<le> lval y"
proof -
  obtain i' ks' where y: "y = pre @ i' # ks'" "length ks' = k" "Suc j \<le> i'" using leavesE [OF assms(1)] by blast
  show ?thesis unfolding y(1) by (rule leaves_order [where i = j and i' = i']) (use y assms in simp_all)
qed

lemma leaves_tail: "x \<in> leaves E pre (Suc k) off \<Longrightarrow> \<exists>ks. x = pre @ ks \<and> length ks = Suc k \<and> (\<forall>j\<in>set ks. j < 512)"
  by (auto simp: leaves_def idx_ok_def)

lemma first_after_levels:
  assumes o1: "least_leaf E [c, b, a] (Suc 0) (Suc d) o1" and o2: "least_leaf E [b, a] (Suc (Suc 0)) (Suc c) o2"
    and o3: "least_leaf E [a] (Suc (Suc (Suc 0))) (Suc b) o3"
    and o4: "if Suc a < 8 then least_leaf E [Suc a] (Suc (Suc (Suc 0))) 0 o4 else o4 = None"
    and bd: "a < 8" "b < 512" "c < 512" "d < 512"
  shows "least_of {js. cand E [a, b, c, d] js} (case map_option (\<lambda>js. [a, b, c] @ js) o1 of Some x \<Rightarrow> Some x | None \<Rightarrow>
    (case map_option (\<lambda>js. [a, b] @ js) o2 of Some x \<Rightarrow> Some x | None \<Rightarrow>
    (case map_option (\<lambda>js. [a] @ js) o3 of Some x \<Rightarrow> Some x | None \<Rightarrow> map_option (\<lambda>js. [Suc a] @ js) o4)))"
proof -
  let ?A = "leaves E [a, b, c] (Suc 0) (Suc d)" and ?B = "leaves E [a, b] (Suc (Suc 0)) (Suc c)"
    and ?C = "leaves E [a] (Suc (Suc (Suc 0))) (Suc b)" and ?D = "if Suc a < 8 then leaves E [Suc a] (Suc (Suc (Suc 0))) 0 else {}"
  have L: "least_of ?A (map_option (\<lambda>js. [a, b, c] @ js) o1)" "least_of ?B (map_option (\<lambda>js. [a, b] @ js) o2)" "least_of ?C (map_option (\<lambda>js. [a] @ js) o3)"
    by (rule least_leaves, use o1 o2 o3 in simp)+
  have L4: "least_of ?D (map_option (\<lambda>js. [Suc a] @ js) o4)"
  proof (cases "Suc a < 8")
    case True
    then show ?thesis using o4 least_leaves [of E "[Suc a]"] by simp
  next
    case False
    then show ?thesis using o4 by (simp add: least_of_def)
  qed
  have D: "lval (a # xs) \<le> lval y" if y: "y \<in> ?D" and xs: "length xs = 3" "\<forall>i\<in>set xs. i < 512" for xs y
  proof -
    have "y \<in> leaves E [Suc a] (Suc (Suc (Suc 0))) 0" using y by (simp split: if_splits)
    then obtain ys where "y = Suc a # ys" "length ys = 3" using leaves_tail by fastforce
    then show ?thesis using lval_mono [of a "Suc a" xs ys] xs by simp
  qed
  have 1: "\<forall>x\<in>?C. \<forall>y\<in>?D. lval x \<le> lval y"
  proof (intro ballI)
    fix x y
    assume x: "x \<in> ?C" and y: "y \<in> ?D"
    obtain ks where "x = [a] @ ks" "length ks = 3" "\<forall>j\<in>set ks. j < 512" using leaves_tail [OF x] by auto
    then show "lval x \<le> lval y" using D [OF y, of ks] by simp
  qed
  have 2: "\<forall>x\<in>?B. \<forall>y\<in>?C \<union> ?D. lval x \<le> lval y"
  proof (intro ballI)
    fix x y
    assume x: "x \<in> ?B" and y: "y \<in> ?C \<union> ?D"
    obtain ks where ks: "x = [a, b] @ ks" "length ks = 2" "\<forall>j\<in>set ks. j < 512" using leaves_tail [OF x] by auto
    show "lval x \<le> lval y"
      using y path_le [of y E "[a]" "Suc (Suc 0)" b ks] D [of y "b # ks"] ks bd by auto
  qed
  have 3: "\<forall>x\<in>?A. \<forall>y\<in>?B \<union> (?C \<union> ?D). lval x \<le> lval y"
  proof (intro ballI)
    fix x y
    assume x: "x \<in> ?A" and y: "y \<in> ?B \<union> (?C \<union> ?D)"
    obtain ks where ks: "x = [a, b, c] @ ks" "length ks = 1" "\<forall>j\<in>set ks. j < 512" using leaves_tail [OF x] by auto
    show "lval x \<le> lval y"
      using y path_le [of y E "[a, b]" "Suc 0" c ks] path_le [of y E "[a]" "Suc (Suc 0)" b "c # ks"] D [of y "b # c # ks"] ks bd by auto
  qed
  show ?thesis unfolding cand_set [OF bd] by (intro least_of_Un L L4 1 2 3)
qed

section \<open>The next page\<close>

lemma first_hit_const: "\<forall>i. f i s = Some (h, s) \<Longrightarrow> first_hit f (j # js) s = Some (map_option (\<lambda>x. (j, x)) h, s)"
proof (cases h)
  case None
  assume "\<forall>i. f i s = Some (h, s)"
  then have "first_hit f js s = Some (None, s)" for js using None by (induction js) simp_all
  then show ?thesis using None \<open>\<forall>i. f i s = Some (h, s)\<close> by simp
qed simp

text \<open>The address and the entry that a path of indices stands for.\<close>

definition found :: "(nat list \<Rightarrow> u64) \<Rightarrow> nat list option \<Rightarrow> uaddr_t \<times> (u64 \<times> u64) option \<Rightarrow> bool" where
  "found E res ret \<longleftrightarrow> (case res of
       None \<Rightarrow> ret = (UADDR_INVALID, None)
     | Some js \<Rightarrow> \<exists>p. ret = (mkaddr (of_nat (js ! 0)) (of_nat (js ! 1)) (of_nat (js ! 2)) (of_nat (js ! 3)), Some (p, E (rev js))))"

abbreviation dec1 :: "nat \<times> u64 \<times> u64 \<Rightarrow> nat list \<times> u64" where
  "dec1 \<equiv> \<lambda>(i, _, e). ([i], e)"

lemma scanned_leaf:
  "scanned E p k off dec r \<Longrightarrow> least_leaf E p k off (map_option (\<lambda>x. fst (dec x)) r)"
  "scanned E p k off dec (Some x) \<Longrightarrow> snd (dec x) = E (rev (fst (dec x)) @ p)"
  by (simp_all add: scanned_def)

lemma levels_found:
  assumes s1: "scanned E [c, b, a] (Suc 0) (Suc d) dec1 r1" and s2: "scanned E [b, a] (Suc (Suc 0)) (Suc c) (up dec1) r2"
    and s3: "scanned E [a] (Suc (Suc (Suc 0))) (Suc b) (up (up dec1)) r3"
    and s4: "if Suc a < 8 then scanned E [Suc a] (Suc (Suc (Suc 0))) 0 (up (up dec1)) r4 else r4 = None"
    and bd: "a < 8" "b < 512" "c < 512" "d < 512"
  shows "\<exists>res. least_of {js. cand E [a, b, c, d] js} res \<and> found E res
    (case r1 of Some (i, out) \<Rightarrow> (mkaddr (of_nat a) (of_nat b) (of_nat c) (of_nat i), Some out) | None \<Rightarrow>
    (case r2 of Some (j, i, out) \<Rightarrow> (mkaddr (of_nat a) (of_nat b) (of_nat j) (of_nat i), Some out) | None \<Rightarrow>
    (case r3 of Some (k, j, i, out) \<Rightarrow> (mkaddr (of_nat a) (of_nat k) (of_nat j) (of_nat i), Some out) | None \<Rightarrow>
    (case r4 of Some (k, j, i, out) \<Rightarrow> (mkaddr (of_nat (Suc a)) (of_nat k) (of_nat j) (of_nat i), Some out) | None \<Rightarrow> (UADDR_INVALID, None)))))"
proof -
  have "if Suc a < 8 then least_leaf E [Suc a] (Suc (Suc (Suc 0))) 0 (map_option (\<lambda>x. fst (up (up dec1) x)) r4)
      else map_option (\<lambda>x. fst (up (up dec1) x)) r4 = None"
    using s4 scanned_leaf(1) by (cases "Suc a < 8") auto
  note L = first_after_levels [OF scanned_leaf(1) [OF s1] scanned_leaf(1) [OF s2] scanned_leaf(1) [OF s3] this bd]
  show ?thesis
  proof (intro exI conjI, rule L)
    have 4: "snd (up (up dec1) x) = E (rev (fst (up (up dec1) x)) @ [Suc a])" if "r4 = Some x" for x
      using s4 that scanned_leaf(2) by (cases "Suc a < 8") auto
    show "found E (case map_option (\<lambda>js. [a, b, c] @ js) (map_option (\<lambda>x. fst (dec1 x)) r1) of Some x \<Rightarrow> Some x | None \<Rightarrow>
      (case map_option (\<lambda>js. [a, b] @ js) (map_option (\<lambda>x. fst (up dec1 x)) r2) of Some x \<Rightarrow> Some x | None \<Rightarrow>
      (case map_option (\<lambda>js. [a] @ js) (map_option (\<lambda>x. fst (up (up dec1) x)) r3) of Some x \<Rightarrow> Some x | None \<Rightarrow>
        map_option (\<lambda>js. [Suc a] @ js) (map_option (\<lambda>x. fst (up (up dec1) x)) r4))))
    (case r1 of Some (i, out) \<Rightarrow> (mkaddr (of_nat a) (of_nat b) (of_nat c) (of_nat i), Some out) | None \<Rightarrow>
    (case r2 of Some (j, i, out) \<Rightarrow> (mkaddr (of_nat a) (of_nat b) (of_nat j) (of_nat i), Some out) | None \<Rightarrow>
    (case r3 of Some (k, j, i, out) \<Rightarrow> (mkaddr (of_nat a) (of_nat k) (of_nat j) (of_nat i), Some out) | None \<Rightarrow>
    (case r4 of Some (k, j, i, out) \<Rightarrow> (mkaddr (of_nat (Suc a)) (of_nat k) (of_nat j) (of_nat i), Some out) | None \<Rightarrow> (UADDR_INVALID, None)))))"
      using scanned_leaf(2) [of E "[c, b, a]" "Suc 0" "Suc d" dec1] s1 scanned_leaf(2) [of E "[b, a]" "Suc (Suc 0)" "Suc c" "up dec1"] s2
        scanned_leaf(2) [of E "[a]" "Suc (Suc (Suc 0))" "Suc b" "up (up dec1)"] s3 4
      by (cases r1; cases r2; cases r3; cases r4) (auto simp: found_def up_def numeral_3_eq_3 numeral_2_eq_2)
  qed
qed

context umap_array
begin

lemma level_scan:
  assumes "walked 8 (l4v M (\<lambda>i. umap_l4 u (of_nat i)) s) (fw s) q g" "q \<noteq> []" "k \<noteq> 0"
    and "q \<in> uarr.Tb s \<Longrightarrow> \<exists>r. S (pte_pfn (uarr.E s q)) s = Some (r, s) \<and> scanned (uarr.E s) q k off dec r"
  shows "\<exists>r. (if g \<noteq> PFN_INVALID then S g s else Some (None, s)) = Some (r, s) \<and> scanned (uarr.E s) q k off dec r"
proof (cases "g = PFN_INVALID")
  case True
  then have "\<not> pte_valid (uarr.E s q)" using assms(1) by (simp add: walked_def)
  from scanned_dead [OF this assms(2,3)] show ?thesis using True by auto
next
  case False
  then show ?thesis using assms(1,4) by (simp add: walked_def)
qed

lemma scan_l4_ok:
  assumes ok: "uarr.ok s"
  shows "\<exists>r. scan_l4 M (Some u) (Suc a) s = Some (map_option (\<lambda>x. (Suc a, x)) r, s) \<and>
    (if Suc a < 8 then scanned (uarr.E s) [Suc a] (Suc (Suc (Suc 0))) 0 (up (up dec1)) r else r = None)"
proof (cases "Suc a < 8")
  case True
  let ?e = "mem_ld M (umap_l4 u (of_nat (Suc a))) s"
  have e: "?e = uarr.E s [Suc a]" by (simp add: l4v_def)
  have "\<exists>r. (if pte_valid_table ?e then scan_l3 M (pte_pfn ?e) 0 s else Some (None, s)) = Some (r, s) \<and>
      scanned (uarr.E s) [Suc a] (Suc (Suc (Suc 0))) 0 (up (up dec1)) r"
  proof (cases "pte_valid (uarr.E s [Suc a])")
    case v: True
    then have t: "[Suc a] \<in> uarr.Tb s" using True by (simp add: tabs_def vpath_def)
    show ?thesis using uarr.scan_l3_ok [OF ok t, of 0] uarr.tab_table [OF ok t] unfolding e by simp
  next
    case v: False
    have "[Suc a] \<noteq> []" "Suc (Suc (Suc 0)) \<noteq> 0" by simp_all
    then have "scanned (uarr.E s) [Suc a] (Suc (Suc (Suc 0))) 0 (up (up dec1)) None" by (rule scanned_dead [OF v])
    moreover have "\<not> pte_valid_table ?e" using v pte_table_valid unfolding e by blast
    ultimately show ?thesis by auto
  qed
  then obtain r where r: "(if pte_valid_table ?e then scan_l3 M (pte_pfn ?e) 0 s else Some (None, s)) = Some (r, s)"
      "scanned (uarr.E s) [Suc a] (Suc (Suc (Suc 0))) 0 (up (up dec1)) r" by blast
  have "[Suc a..<8] = Suc a # [Suc (Suc a)..<8]" using True by (rule upt_conv_Cons)
  then have "scan_l4 M (Some u) (Suc a) s = Some (map_option (\<lambda>x. (Suc a, x)) r, s)"
    using r(1) by (simp only: scan_l4_def option.case Option.bind.simps prod.case) (rule first_hit_const, simp)
  then show ?thesis using r(2) True by auto
next
  case False
  then show ?thesis by (simp add: scan_l4_def)
qed

lemma next_ok:
  assumes ok: "uarr.ok s" and va: "uaddr va"
  shows "\<exists>res ret. pt_umap_next M (Some u) va s = Some (ret, s) \<and> least_of {js. cand (uarr.E s) (rev (vp va)) js} res \<and> found (uarr.E s) res ret"
proof -
  let ?a = "unat (L4OFF va)" and ?b = "unat (L3OFF va)" and ?c = "unat (L2OFF va)" and ?d = "unat (L1OFF va)"
  let ?E = "uarr.E s" and ?l = "umap_l4 u (of_nat (unat (L4OFF va)))"
  note bd = uaddr_l4(1) [OF va] off_less(3) [of va] off_less(2) [of va] off_less(1) [of va]
  obtain g1 where w1: "walk_l1pfn M ?l va False s = Some (g1, s)" "walked 8 (l4v M (\<lambda>i. umap_l4 u (of_nat i)) s) (fw s) [?c, ?b, ?a] g1"
    using uarr.walk_l1pfn_ok(2) [OF ok bd(1), of False] by (auto simp: vp_def)
  obtain g2 where w2: "walk_l2pfn M ?l va False s = Some (g2, s)" "walked 8 (l4v M (\<lambda>i. umap_l4 u (of_nat i)) s) (fw s) [?b, ?a] g2"
    using uarr.walk_l1pfn_ok(1) [OF ok bd(1), of False] by (auto simp: vp_def)
  obtain g3 where w3: "walk_l3pfn M ?l va False s = Some (g3, s)" "walked 8 (l4v M (\<lambda>i. umap_l4 u (of_nat i)) s) (fw s) [?a] g3"
    using uarr.walk_l3pfn_ok [OF ok refl bd(1), of False] by auto
  have "\<exists>r. (if g1 \<noteq> PFN_INVALID then scan_l1 M g1 (Suc ?d) s else Some (None, s)) = Some (r, s) \<and> scanned ?E [?c, ?b, ?a] (Suc 0) (Suc ?d) dec1 r"
    by (rule level_scan [OF w1(2), where S = "\<lambda>f. scan_l1 M f (Suc ?d)"], simp, simp, rule uarr.scan_l1_ok [OF ok], assumption)
  then obtain r1 where r1: "(if g1 \<noteq> PFN_INVALID then scan_l1 M g1 (Suc ?d) s else Some (None, s)) = Some (r1, s)" "scanned ?E [?c, ?b, ?a] (Suc 0) (Suc ?d) dec1 r1"
    by blast
  have "\<exists>r. (if g2 \<noteq> PFN_INVALID then scan_l2 M g2 (Suc ?c) s else Some (None, s)) = Some (r, s) \<and> scanned ?E [?b, ?a] (Suc (Suc 0)) (Suc ?c) (up dec1) r"
    by (rule level_scan [OF w2(2), where S = "\<lambda>f. scan_l2 M f (Suc ?c)"], simp, simp, rule uarr.scan_l2_ok [OF ok], assumption, simp)
  then obtain r2 where r2: "(if g2 \<noteq> PFN_INVALID then scan_l2 M g2 (Suc ?c) s else Some (None, s)) = Some (r2, s)" "scanned ?E [?b, ?a] (Suc (Suc 0)) (Suc ?c) (up dec1) r2"
    by blast
  have "\<exists>r. (if g3 \<noteq> PFN_INVALID then scan_l3 M g3 (Suc ?b) s else Some (None, s)) = Some (r, s) \<and> scanned ?E [?a] (Suc (Suc (Suc 0))) (Suc ?b) (up (up dec1)) r"
    by (rule level_scan [OF w3(2), where S = "\<lambda>f. scan_l3 M f (Suc ?b)"], simp, simp, rule uarr.scan_l3_ok [OF ok], assumption, simp)
  then obtain r3 where r3: "(if g3 \<noteq> PFN_INVALID then scan_l3 M g3 (Suc ?b) s else Some (None, s)) = Some (r3, s)" "scanned ?E [?a] (Suc (Suc (Suc 0))) (Suc ?b) (up (up dec1)) r3"
    by blast
  obtain r4 where r4: "scan_l4 M (Some u) (Suc ?a) s = Some (map_option (\<lambda>x. (Suc ?a, x)) r4, s)"
      "if Suc ?a < 8 then scanned ?E [Suc ?a] (Suc (Suc (Suc 0))) 0 (up (up dec1)) r4 else r4 = None"
    using scan_l4_ok [OF ok, of ?a] by blast
  let ?mk = "\<lambda>a b c d. mkaddr (of_nat a) (of_nat b) (of_nat c) (of_nat d)"
  let ?ret = "case r1 of Some (i, out) \<Rightarrow> (?mk ?a ?b ?c i, Some out) | None \<Rightarrow> (case r2 of Some (j, i, out) \<Rightarrow> (?mk ?a ?b j i, Some out) | None \<Rightarrow>
    (case r3 of Some (k, j, i, out) \<Rightarrow> (?mk ?a k j i, Some out) | None \<Rightarrow> (case r4 of Some (k, j, i, out) \<Rightarrow> (?mk (Suc ?a) k j i, Some out) | None \<Rightarrow> (UADDR_INVALID, None))))"
  have lq: "umap_l4 u (L4OFF va) = ?l" by simp
  have r1': "(if \<not> g1 = PFN_INVALID then scan_l1 M g1 (?d + 1) s else Some (None, s)) = Some (r1, s)" using r1(1) by (simp only: Suc_eq_plus1)
  have r2': "(if \<not> g2 = PFN_INVALID then scan_l2 M g2 (?c + 1) s else Some (None, s)) = Some (r2, s)" using r2(1) by (simp only: Suc_eq_plus1)
  have r3': "(if \<not> g3 = PFN_INVALID then scan_l3 M g3 (?b + 1) s else Some (None, s)) = Some (r3, s)" using r3(1) by (simp only: Suc_eq_plus1)
  have r4': "scan_l4 M (Some u) (?a + 1) s = Some (map_option (\<lambda>x. (Suc ?a, x)) r4, s)" using r4(1) by (simp only: Suc_eq_plus1)
  have eq: "pt_umap_next M (Some u) va s = Some (?ret, s)"
    unfolding pt_umap_next_def Let_def option.case lq Option.bind.simps prod.case w1(1) r1'
    by (cases r1; cases r2; cases r3; cases r4)
      (simp_all only: w2(1) w3(1) r2' r3' r4' uaddr_l4(2) [OF va] not_True_eq_False if_False option.case Option.bind.simps prod.case
        option.map split: prod.split, auto)
  have "rev (vp va) = [?a, ?b, ?c, ?d]" by (simp add: vp_def)
  then show ?thesis using levels_found [OF r1(2) r2(2) r3(2) r4(2) bd] eq by (simp only:) blast
qed

end

section \<open>Properties\<close>

definition page_after :: "uaddr_t \<Rightarrow> uaddr_t \<Rightarrow> bool" where
  "page_after va y \<longleftrightarrow> uaddr y \<and> unat va div 4096 < unat y div 4096 \<and> unat (L4OFF y) \<le> Suc (unat (L4OFF va))"

lemma cand_addr:
  assumes "uaddr va" "uaddr y"
  shows "cand (rent r fw) (rev (vp va)) (rev (vp y)) \<longleftrightarrow> page_after va y \<and> rent r fw (vp y) \<noteq> 0"
proof -
  have "length (rev (vp y)) = 4" "\<forall>j\<in>set (rev (vp y)). j < 512" "hd (rev (vp y)) = unat (L4OFF y)" "hd (rev (vp va)) = unat (L4OFF va)"
    using off_less [of y] by (simp_all add: vp_def)
  then show ?thesis using uaddr_l4(1) [OF assms(2)] vp_lval [OF assms(1)] vp_lval [OF assms(2)] assms(2)
    unfolding cand_def page_after_def by auto
qed

lemma path_addr:
  assumes "cand E base js"
  obtains x where "mkaddr (of_nat (js ! 0)) (of_nat (js ! 1)) (of_nat (js ! 2)) (of_nat (js ! 3)) = x" "uaddr x" "js = rev (vp x)" "x AND 0xfff = 0"
proof -
  have "length js = Suc (Suc (Suc (Suc 0)))" using assms by (simp add: cand_def)
  then obtain a b c d where js: "js = [a, b, c, d]" by (simp only: length_Suc_conv length_0_conv) blast
  have bd: "a < 8" "b < 512" "c < 512" "d < 512" using assms unfolding js cand_def by (simp_all del: lval.simps)
  show thesis using that [OF refl] mkaddr_path [OF bd] unfolding js by (simp add: numeral_3_eq_3 numeral_2_eq_2)
qed

lemma page_le:
  assumes "x AND 0xfff = 0" "unat x div 4096 \<le> unat y div 4096"
  shows "x \<le> (y :: u64)"
proof -
  have "unat (x AND 0xfff) = unat x mod 2 ^ 12"
  proof -
    have "(0xfff :: u64) = mask 12" by (simp add: mask_numeral)
    then show ?thesis by (simp only: unat_and_mask)
  qed
  then have "unat x mod 4096 = 0" using assms(1) by simp
  then have "unat x = unat x div 4096 * 4096" by (metis add.right_neutral div_mult_mod_eq)
  also have "\<dots> \<le> unat y div 4096 * 4096" using assms(2) by simp
  also have "\<dots> \<le> unat y" by (rule div_times_less_eq_dividend)
  finally show ?thesis by (simp add: word_le_nat_alt)
qed

context riscv_umap
begin

lemma umap_next_ok:
  assumes ok: "uarr.ok s" and va: "uaddr va"
  shows "(\<exists>x p. pt_umap_next (mm_ops mmu cfg client hal_of) (Some u) va s = Some ((x, Some (p, ulk s x)), s) \<and> page_after va x \<and> x AND 0xfff = 0 \<and>
      ulk s x \<noteq> 0 \<and> (\<forall>y. page_after va y \<and> ulk s y \<noteq> 0 \<longrightarrow> x \<le> y)) \<or>
    pt_umap_next (mm_ops mmu cfg client hal_of) (Some u) va s = Some ((UADDR_INVALID, None), s) \<and> (\<forall>y. page_after va y \<longrightarrow> ulk s y = 0)"
proof -
  obtain res ret where n: "pt_umap_next (mm_ops mmu cfg client hal_of) (Some u) va s = Some (ret, s)"
      "least_of {js. cand (uarr.E s) (rev (vp va)) js} res" "found (uarr.E s) res ret"
    using next_ok [OF ok va] by blast
  have c: "page_after va y \<Longrightarrow> ulk s y \<noteq> 0 \<Longrightarrow> cand (uarr.E s) (rev (vp va)) (rev (vp y))" for y
    using cand_addr [OF va, of y] by (auto simp: page_after_def leaf_def)
  show ?thesis
  proof (cases res)
    case None
    then have "ulk s y = 0" if "page_after va y" for y using n(2) c [OF that] by (auto simp: least_of_def)
    then show ?thesis using n(1,3) None by (simp add: found_def)
  next
    case (Some js)
    then have l: "cand (uarr.E s) (rev (vp va)) js" "\<And>js'. cand (uarr.E s) (rev (vp va)) js' \<Longrightarrow> lval js \<le> lval js'"
      using n(2) by (simp_all add: least_of_def)
    obtain x where x: "mkaddr (of_nat (js ! 0)) (of_nat (js ! 1)) (of_nat (js ! 2)) (of_nat (js ! 3)) = x" "uaddr x" "js = rev (vp x)" "x AND 0xfff = 0"
      by (rule path_addr [OF l(1)])
    have p: "page_after va x" "ulk s x \<noteq> 0" using l(1) unfolding x(3) cand_addr [OF va x(2)] by (simp_all add: leaf_def)
    have m: "x \<le> y" if y: "page_after va y" "ulk s y \<noteq> 0" for y
    proof -
      have "uaddr y" using y(1) by (simp add: page_after_def)
      then show ?thesis using l(2) [OF c [OF y]] vp_lval [OF x(2)] vp_lval [of y] x(3) by (intro page_le x(4)) simp
    qed
    obtain e where "ret = (x, Some (e, ulk s x))" using n(3) Some x(1,3) by (auto simp: found_def leaf_def)
    then show ?thesis using n(1) p m x(4) by blast
  qed
qed

end

lemma rv_next: "uaddr va \<Longrightarrow> hal_umap_next (rv_hal mmu cfg client) (Some u) va s = pt_umap_next (rv_ops mmu cfg client) (Some u) va s"
  using leD [of pt_umap_maxaddr va] by (auto simp: rv_hal_def riscv_hal_def riscv_umap_next_def pt_umap_minaddr_def uaddr_def)

lemma rv_next_ok:
  assumes env: "machine_env mmu cfg n root isf isk kphys" and arr: "\<forall>i<8. isk (umap_l4 u (of_nat i))"
    and ok: "uspace_ok mmu cfg client n root isf u s" and va: "uaddr va"
  shows "(\<exists>x p. pt_umap_next (rv_ops mmu cfg client) (Some u) va s = Some ((x, Some (p, uleaf mmu cfg client isf u s x)), s) \<and>
      page_after va x \<and> x AND 0xfff = 0 \<and> uleaf mmu cfg client isf u s x \<noteq> 0 \<and>
      (\<forall>y. page_after va y \<and> uleaf mmu cfg client isf u s y \<noteq> 0 \<longrightarrow> x \<le> y)) \<or>
    pt_umap_next (rv_ops mmu cfg client) (Some u) va s = Some ((UADDR_INVALID, None), s) \<and> (\<forall>y. page_after va y \<longrightarrow> uleaf mmu cfg client isf u s y = 0)"
proof -
  have M: "riscv_umap mmu cfg n root isf isk kphys u"
    using env arr by (simp add: riscv_umap_def riscv_machine_def riscv_umap_axioms_def)
  note L = riscv_umap.umap_next_ok [OF M, where client = client and hal_of = riscv_hal, folded rv_ops_def, folded uspace_ok_def uleaf_def]
  show ?thesis by (rule L [OF ok va])
qed


text \<open>The concrete machine with a user mapping of one page, the first one of the third top-level entry.\<close>

definition mm3 :: mm_st where
  "mm3 = mm1\<lparr>pmem := (\<lambda>_. 0)(0x3010 := mkpte 4 1, 0x4000 := mkpte 6 1, 0x6000 := mkpte 8 1, 0x8000 := 0x4c0f)\<rparr>"

lemma mm3_words: "frame_words isf0 mm3 f i =
    (if i = 0 then if f = 4 then mkpte 6 1 else if f = 6 then mkpte 8 1 else if f = 8 then 0x4c0f else 0 else 0)"
proof (cases "i < 512 \<and> isf0 f")
  case True
  then have f: "unat f < 2 ^ 52" "f \<noteq> 3" by (auto simp: isf0_def word_less_nat_alt)
  have a: "ptob f + 8 * of_nat i = ptob g + 8 * of_nat j \<longleftrightarrow> f = g \<and> i = j" if "unat g < 2 ^ 52" "j < 512" for g j
    using word_addr_inj [of f i g j] f True that by blast
  define v where "v = ptob f + 8 * of_nat i"
  have "v \<noteq> 0x3010" "v = 0x4000 \<longleftrightarrow> f = 4 \<and> i = 0" "v = 0x6000 \<longleftrightarrow> f = 6 \<and> i = 0" "v = 0x8000 \<longleftrightarrow> f = 8 \<and> i = 0"
    using a [of 3 2] a [of 4 0] a [of 6 0] a [of 8 0] f(2) by (simp_all add: v_def ptob_def)
  then show ?thesis using True by (auto simp: frame_words_def mm3_def v_def [symmetric])
next
  case False
  then show ?thesis by (auto simp: frame_words_def isf0_def)
qed

lemma mm3_top: "i < 8 \<Longrightarrow> l4v (rv_ops mmu0 cfg0 client0) (\<lambda>i. umap_l4 0xffff800000003000 (of_nat i)) mm3 i = (if i = 2 then mkpte 4 1 else 0)"
proof -
  assume "i < 8"
  then have "i = 0 \<or> i = 1 \<or> i = 2 \<or> i = 3 \<or> i = 4 \<or> i = 5 \<or> i = 6 \<or> i = 7" by arith
  then show ?thesis by (elim disjE) (simp_all add: l4v_def rv_ops_def ld64_def mm3_def mmu0_def umap_l4_def)
qed

lemma mk_tables: "pte_pfn (mkpte 4 1) = 4" "pte_pfn (mkpte 6 1) = 6" "pte_pfn (mkpte 8 1) = 8" "pte_valid (mkpte 4 1)" "pte_valid (mkpte 6 1)" "pte_valid (mkpte 8 1)"
  using mkpte_pfn [of 4] mkpte_pfn [of 6] mkpte_pfn [of 8] pte_table_valid [OF mkpte_table(1)] by simp_all

lemma mm3_entries:
  assumes "vpath 8 p"
  shows "rent (l4v (rv_ops mmu0 cfg0 client0) (\<lambda>i. umap_l4 0xffff800000003000 (of_nat i)) mm3) (frame_words isf0 mm3) p =
    (if p = [2] then mkpte 4 1 else if p = [0, 2] then mkpte 6 1 else if p = [0, 0, 2] then mkpte 8 1 else if p = [0, 0, 0, 2] then 0x4c0f else 0)"
  using assms
proof (induction p)
  case (Cons i p)
  show ?case
  proof (cases "p = []")
    case True
    then show ?thesis using Cons.prems mm3_top [of i] by (simp add: vpath_Cons)
  next
    case False
    then have v: "vpath 8 p" "p \<noteq> [0, 0, 0, 2]" using Cons.prems by (auto simp: vpath_Cons)
    have e: "rent (l4v (rv_ops mmu0 cfg0 client0) (\<lambda>i. umap_l4 0xffff800000003000 (of_nat i)) mm3) (frame_words isf0 mm3) (i # p) =
        (if p = [2] \<and> i = 0 then mkpte 6 1 else if p = [0, 2] \<and> i = 0 then mkpte 8 1 else if p = [0, 0, 2] \<and> i = 0 then 0x4c0f else 0)"
      unfolding ent_Cons [OF False] Cons.IH [OF v(1)] mm3_words
      by (cases "p = [2]"; cases "p = [0, 2]"; cases "p = [0, 0, 2]") (use v(2) in \<open>simp_all add: mk_tables\<close>)
    show ?thesis unfolding e using False by simp
  qed
qed (simp add: vpath_def)

lemma mm3_tables: "rtabs 8 (l4v (rv_ops mmu0 cfg0 client0) (\<lambda>i. umap_l4 0xffff800000003000 (of_nat i)) mm3) (frame_words isf0 mm3) = {[2], [0, 2], [0, 0, 2]}"
  (is "rtabs 8 ?r ?f = _")
proof (intro equalityI subsetI)
  fix p
  assume p: "p \<in> rtabs 8 ?r ?f"
  then have "p \<noteq> [0, 0, 0, 2]" by (auto simp: tabs_def)
  then show "p \<in> {[2], [0, 2], [0, 0, 2]}" using tabsD(3) [OF p] mm3_entries [OF tabsD(1) [OF p]] by (auto split: if_splits)
next
  fix p :: "nat list"
  assume p: "p \<in> {[2], [0, 2], [0, 0, 2]}"
  then have v: "vpath 8 p" "length p \<le> 3" by (auto simp: vpath_def)
  have "pte_valid (rent ?r ?f p)" unfolding mm3_entries [OF v(1)] using p mk_tables by auto
  then show "p \<in> rtabs 8 ?r ?f" using v by (simp add: tabs_def)
qed

lemma uspace3: "uspace_ok mmu0 cfg0 client0 7 5 isf0 0xffff800000003000 mm3"
proof -
  let ?r = "l4v (rv_ops mmu0 cfg0 client0) (\<lambda>i. umap_l4 0xffff800000003000 (of_nat i)) mm3" and ?f = "frame_words isf0 mm3"
  have v: "vpath 8 [2]" "vpath 8 [0, 2]" "vpath 8 [0, 0, 2]" by (simp_all add: vpath_def)
  have e: "rent ?r ?f [2] = mkpte 4 1" "rent ?r ?f [0, 2] = mkpte 6 1" "rent ?r ?f [0, 0, 2] = mkpte 8 1"
    unfolding v [THEN mm3_entries] by simp_all
  have f: "rframes 8 ?r ?f = {4, 6, 8}" unfolding tframes_def mm3_tables image_insert image_empty e mk_tables ..
  define F where "F p = rent ?r ?f p" for p
  have F: "F [2] = mkpte 4 1" "F [0, 2] = mkpte 6 1" "F [0, 0, 2] = mkpte 8 1" unfolding F_def by (fact e)+
  have "inj_on (\<lambda>p. pte_pfn (F p)) {[2], [0, 2], [0, 0, 2]}" "\<forall>p\<in>{[2], [0, 2], [0, 0, 2]}. pte_valid_table (F p)"
    by (simp_all add: F mk_tables mkpte_table)
  then have "rwf 8 ?r ?f" unfolding pt_wf_def mm3_tables F_def by blast
  moreover have "machine_ok cfg0 7 5 isf0 mm3" "free_frames 7 mm3 = {1, 2, 127}" using machine1 free0 by (simp_all add: mm3_def free_frames_def mm1_def)
  ultimately show ?thesis unfolding uspace_ok_def map_ok_def f by (simp add: isf0_def)
qed

lemma uleaf3:
  assumes "uaddr y"
  shows "uleaf mmu0 cfg0 client0 isf0 0xffff800000003000 mm3 y = (if vp y = [0, 0, 0, 2] then 0x4c0f else 0)"
proof -
  have "length (vp y) = 4" by (simp add: vp_def)
  then have "vp y \<noteq> [2]" "vp y \<noteq> [0, 2]" "vp y \<noteq> [0, 0, 2]" by auto
  then show ?thesis using mm3_entries [of "vp y"] vpath_vp [OF uaddr_l4(1) [OF assms]] by (simp add: uleaf_def leaf_def)
qed


text \<open>
  C32. Pages that \<^verbatim>\<open>hal_umap_next\<close> misses: the scan of the top level reads the same entry in every turn, so a page
  behind an empty top-level entry is not found. In a mapping in good order whose only page is the first one of the third
  top-level entry, the search from address 0 ends with \<^verbatim>\<open>UADDR_INVALID\<close>.
\<close>

theorem umap_next_misses:
  "uspace_ok mmu0 cfg0 client0 7 5 isf0 0xffff800000003000 mm3 \<and>
   uleaf mmu0 cfg0 client0 isf0 0xffff800000003000 mm3 0x10000000000 = 0x4c0f \<and>
   hal_umap_next (rv_hal mmu0 cfg0 client0) (Some 0xffff800000003000) 0 mm3 = Some ((UADDR_INVALID, None), mm3)"
proof (intro conjI)
  show "uspace_ok mmu0 cfg0 client0 7 5 isf0 0xffff800000003000 mm3" by (rule uspace3)
  have "uaddr 0x10000000000" "vp 0x10000000000 = [0, 0, 0, 2]"
    by (simp_all add: uaddr_def pt_umap_maxaddr_def vp_def L1OFF_def L2OFF_def L3OFF_def L4OFF_def)
  then show "uleaf mmu0 cfg0 client0 isf0 0xffff800000003000 mm3 0x10000000000 = 0x4c0f" using uleaf3 by simp
  have a: "\<forall>i<8. isk0 (umap_l4 0xffff800000003000 (of_nat i))" using m0u.umap_words by blast
  have va: "uaddr 0" by (simp add: uaddr_def pt_umap_maxaddr_def)
  have "uleaf mmu0 cfg0 client0 isf0 0xffff800000003000 mm3 x = 0" if "page_after 0 x" for x
  proof -
    have "uaddr x" "unat (L4OFF x) \<le> 1" using that by (simp_all add: page_after_def L4OFF_def)
    then show ?thesis using uleaf3 [of x] by (simp add: vp_def)
  qed
  then show "hal_umap_next (rv_hal mmu0 cfg0 client0) (Some 0xffff800000003000) 0 mm3 = Some ((UADDR_INVALID, None), mm3)"
    unfolding rv_next [OF va] using rv_next_ok [OF env0 a uspace3 va] by blast
qed

end
