(* ===== verification/Timer.thy ===== *)
theory Timer
  imports Nux_Prelude
begin

text \<open>
  The timer functions of \<^verbatim>\<open>libnux/time.c\<close> and the symbol look-up of \<^verbatim>\<open>libnux/symbol.c\<close>. The period of the platform's timer
  in femtoseconds and its counter are arguments.
\<close>

section \<open>Timers\<close>

text \<open>The number of ticks that \<^verbatim>\<open>timer_alarm\<close> passes to \<^verbatim>\<open>plt_tmr_setalm\<close>; \<open>None\<close> is the division by zero.\<close>

definition timer_alarm :: "u64 \<Rightarrow> u32 \<Rightarrow> u64 option" where
  "timer_alarm period_fs time_ns =
     (let time_fs = 1000000 * ucast time_ns
      in if period_fs = 0 then None else Some ((time_fs + period_fs - 1) div period_fs))"

definition timer_gettime :: "u64 \<Rightarrow> u64 \<Rightarrow> u64" where
  "timer_gettime period_fs ctr = (period_fs * ctr) div 1000000"

section \<open>Symbols\<close>

record ksym =
  sym_addr :: u64
  sym_name :: string

text \<open>The loop over the table, which ends with an entry of address 0; \<open>None\<close> is a read past its end.\<close>

fun symloop :: "ksym list \<Rightarrow> u64 \<Rightarrow> ksym option \<Rightarrow> string option" where
  "symloop [] addr final = None"
| "symloop (k # ks) addr final =
     (if sym_addr k = 0 then Some ''unknown''
      else if sym_addr k > addr then Some (case final of None \<Rightarrow> ''unknown'' | Some l \<Rightarrow> sym_name l)
      else symloop ks addr (Some k))"

definition nux_symresolve :: "ksym list \<Rightarrow> u64 \<Rightarrow> string option" where
  "nux_symresolve ksyms addr = symloop ksyms addr None"

section \<open>Lemmas\<close>

lemma symloop_skip: "\<forall>k\<in>set ks. sym_addr k \<noteq> 0 \<and> sym_addr k \<le> a \<Longrightarrow> symloop (ks @ rest) a l = symloop rest a (if ks = [] then l else Some (last ks))"
proof (induction ks arbitrary: l)
  case (Cons k ks)
  then have "symloop ((k # ks) @ rest) a l = symloop (ks @ rest) a (Some k)" by (simp add: not_less [symmetric])
  also have "\<dots> = symloop rest a (if ks = [] then Some k else Some (last ks))" using Cons by simp
  finally show ?case by simp
qed simp

text \<open>An address between two symbols resolves to the first of them; one from the last symbol on is unknown.\<close>

lemma symresolve_between:
  assumes "\<forall>k\<in>set ks. sym_addr k \<noteq> 0 \<and> sym_addr k \<le> a" "sym_addr k \<noteq> 0" "sym_addr k \<le> a" "a < sym_addr k'"
  shows "nux_symresolve (ks @ k # k' # rest) a = Some (sym_name k)"
  using symloop_skip [of "ks @ [k]" a "k' # rest" None] assms by (auto simp: nux_symresolve_def)

lemma symresolve_last:
  assumes "\<forall>k\<in>set ks. sym_addr k \<noteq> 0 \<and> sym_addr k \<le> a" "sym_addr end_sym = 0"
  shows "nux_symresolve (ks @ end_sym # rest) a = Some ''unknown''"
  using symloop_skip [OF assms(1)] assms(2) by (simp add: nux_symresolve_def)

lemma ceil_div: "0 < p \<Longrightarrow> (t + p - 1) div p = q \<longleftrightarrow> t \<le> q * p \<and> q * p < t + p" for t p q :: nat
proof -
  assume p: "0 < p"
  have "(t + p - 1) div p = q \<longleftrightarrow> q * p \<le> t + p - 1 \<and> t + p - 1 < Suc q * p" using p by (metis div_nat_eqI dividend_less_times_div div_times_less_eq_dividend mult.commute mult_Suc)
  moreover have "q * p \<le> t + p - 1 \<longleftrightarrow> q * p < t + p" "t + p - 1 < Suc q * p \<longleftrightarrow> t \<le> q * p" using p by auto
  ultimately show ?thesis by blast
qed

lemma alarm_fs: "unat (1000000 * ucast (ns :: u32) :: u64) = 1000000 * unat ns" "1000000 * unat ns < 2 ^ 52" for ns :: u32
proof -
  have n: "unat ns < 2 ^ 32" using unsigned_less [of ns] by simp
  then show "1000000 * unat ns < 2 ^ 52" by simp
  have "unat (ucast ns :: u64) = unat ns" using n by (simp add: unat_ucast_less)
  then show "unat (1000000 * ucast ns :: u64) = 1000000 * unat ns" using n by (simp add: unat_word_ariths)
qed

section \<open>Properties\<close>

text \<open>
  C33. Times in ticks and in nanoseconds. For a timer whose period is not 0 and below \<open>2 ^ 63\<close> femtoseconds, the alarm that
  \<^verbatim>\<open>timer_alarm\<close> sets is the least number of ticks that is not shorter than the time asked for: it never fires
  early, and less than one tick late. The time that \<^verbatim>\<open>timer_gettime\<close> returns is exact as long as the femtoseconds
  elapsed fit in 64 bits; it is at most 18446744073709 nanoseconds, about five hours, whatever the counter.
\<close>

theorem timer_rounding:
  assumes "period \<noteq> 0" "unat period < 2 ^ 63"
  shows "(\<exists>t. timer_alarm period ns = Some t \<and> 1000000 * unat ns \<le> unat t * unat period \<and> unat t * unat period < 1000000 * unat ns + unat period) \<and>
    (unat period * unat ctr < 2 ^ 64 \<longrightarrow> unat (timer_gettime period ctr) = unat period * unat ctr div 1000000) \<and>
    unat (timer_gettime period ctr) \<le> 18446744073709"
proof (intro conjI impI)
  let ?t = "(1000000 * ucast ns + period - 1) div period"
  have p: "0 < unat period" using assms(1) by (simp add: unat_gt_0)
  have "unat (1000000 * ucast ns + period) = 1000000 * unat ns + unat period"
    using alarm_fs [of ns] assms(2) by (simp add: unat_word_ariths)
  then have "unat (1000000 * ucast ns + period - 1) = 1000000 * unat ns + unat period - 1"
    using p by (subst unat_diff_le) (simp_all add: word_le_nat_alt)
  then have "(1000000 * unat ns + unat period - 1) div unat period = unat ?t" by (simp add: unat_div)
  then have "1000000 * unat ns \<le> unat ?t * unat period \<and> unat ?t * unat period < 1000000 * unat ns + unat period"
    using ceil_div [OF p] by blast
  then show "\<exists>t. timer_alarm period ns = Some t \<and> 1000000 * unat ns \<le> unat t * unat period \<and> unat t * unat period < 1000000 * unat ns + unat period"
    using assms(1) by (simp add: timer_alarm_def)
  have g: "unat (timer_gettime period ctr) = unat period * unat ctr mod 2 ^ 64 div 1000000"
    by (simp add: timer_gettime_def unat_div unat_word_ariths)
  then show "unat period * unat ctr < 2 ^ 64 \<Longrightarrow> unat (timer_gettime period ctr) = unat period * unat ctr div 1000000" by simp
  have "unat period * unat ctr mod 2 ^ 64 < 2 ^ 64" by simp
  then show "unat (timer_gettime period ctr) \<le> 18446744073709" unfolding g by simp
qed

theorem timer_rounding_witness:
  "\<exists>t. timer_alarm 3 1 = Some t \<and> 1000000 \<le> unat t * 3 \<and> unat t * 3 < 1000003"
  using timer_rounding [of 3 1] by auto

end
