(* ===== verification/Spec2Isabelle.thy ===== *)
theory Spec2Isabelle
  imports Locks Entry X86_Pte Unext Timer
begin

text \<open>
  A verification development for NUX, a library for building kernels. \<^bold>\<open>The program.\<close> A kernel links \<^verbatim>\<open>libnux\<close>, the
  machine-independent library, with a hardware layer (\<^verbatim>\<open>libhal_riscv\<close>, \<^verbatim>\<open>libhal_x86\<close>), a platform layer (\<^verbatim>\<open>libplt_sbi\<close>,
  \<^verbatim>\<open>libplt_acpi\<close>) and a small C library (\<^verbatim>\<open>libec\<close>). The library keeps track of CPUs, of page frames and of kernel and user
  mappings, tells CPUs to flush stale translations, and turns traps into calls of the kernel's handlers. The hardware layer
  has the page tables and the register frames.

  \<^bold>\<open>How C is modelled.\<close> Integers are words of their width on an LP64 target; structures are records, pointers are addresses
  or, where only identity matters, indices. A function that may fail an assertion, call \<^verbatim>\<open>fatal\<close> or not return has an
  option type, and \<open>None\<close> is that case. Global variables are fields of a state record: \<open>ktlb_st\<close>, extended to \<open>cpu_st\<close>, and
  that to \<open>mm_st\<close> for memory and to \<open>uctxt_st\<close> and \<open>nmi_st\<close> for entries. Calls that only reach the hardware are recorded
  in the field \<open>trace\<close>. The hardware layer is a record of functions (\<open>hal\<close>), and so is what the page-table code
  uses of the library (\<open>pfn_ops\<close>).

  \<^bold>\<open>The theories.\<close>
  \<^item> \<open>Nux_Prelude\<close>: the integer types, rounding to pages, bit counts, and lemmas on words.
  \<^item> \<open>Stree\<close>: the searchable bitmap of \<^verbatim>\<open>include/stree.h\<close>. A well-formed bitmap is a set of numbers; setting, clearing,
    filling, counting and searching are the operations of the set. The interface is the locale \<open>searchable_bitmap\<close>.
  \<^item> \<open>Rbtree\<close>, \<open>Rbtree_Heap\<close>, \<open>Rbtree_Insert\<close>, \<open>Rbtree_Remove\<close>, \<open>Rbtree_Index\<close>: the red-black tree of \<^verbatim>\<open>libec/rb.c\<close> on a
    memory of nodes with the packed father word. The loops are partial functions; the lemmas show that they return. Every
    run of insertions, removals and searches agrees with a sorted list, and the depth is logarithmic. The
    interface is the locale \<open>ordered_index\<close>.
  \<^item> \<open>Locks\<close>: \<^verbatim>\<open>include/nux/locks.h\<close>, as one CPU runs it, and the readers-writer lock again as a step relation of any
    number of CPUs, with exclusion and freedom from deadlock for every reachable state.
  \<^item> \<open>Hal\<close>: the interface of \<^verbatim>\<open>include/nux/hal.h\<close>.
  \<^item> \<open>Ktlb\<close>, \<open>Cpumask\<close>, \<open>Cpu\<close>: TLB generations (\<^verbatim>\<open>libnux/ktlbgen.c\<close>, \<^verbatim>\<open>include/nux/types.h\<close>), CPU sets, and \<^verbatim>\<open>libnux/cpu.c\<close>
    with the flags of \<^verbatim>\<open>libnux/init.c\<close> and the range checks of \<^verbatim>\<open>libnux/uaddr.c\<close>: registration, current CPU, flushes, user
    mappings in use, accesses to user memory.
  \<^item> \<open>Frames\<close>, \<open>Uctxt\<close>, \<open>Entry\<close>: the register frames of RISC-V and AMD64 with the locale \<open>hal_frames\<close>, user contexts, the
    entry points of \<^verbatim>\<open>libnux/entry.c\<close> and the emulated NMIs of \<^verbatim>\<open>libnux/nmiemul.c\<close>. The kernel's handlers are parameters.
  \<^item> \<open>Pte_Bits\<close>, \<open>X86_Pte\<close>, \<open>Riscv_Pte\<close>: the leaf entries of the two architectures, with round trips.
  \<^item> \<open>Sv48\<close>, \<open>Pagetree\<close>, \<open>Sv48_Walk\<close>: the page tables of \<^verbatim>\<open>libhal_riscv/sv48.c\<close> and \<^verbatim>\<open>libhal_riscv/pmap.c\<close>; page tables as a tree
    of paths; the correctness of the walk. The locale \<open>direct_frames\<close> is what the walk relies on, \<open>sv48_map\<close> is
    a mapping with its top level in the root frame or in a \<^verbatim>\<open>struct hal_umap\<close>.
  \<^item> \<open>Kmap\<close>, \<open>Umap\<close>: \<^verbatim>\<open>libnux/kmap.c\<close> and \<^verbatim>\<open>libnux/umap.c\<close> over any HAL. The locales \<open>leaf_walk\<close> and \<open>kernel_walk\<close> are what
    they rely on.
  \<^item> \<open>Cache\<close>, \<open>Pfn\<close>: the slot cache of \<^verbatim>\<open>include/nux/cache.h\<close>, over the red-black tree, and the frame cache and frame
    allocator of \<^verbatim>\<open>libnux/pfncache.c\<close> and \<^verbatim>\<open>libnux/pfnalloc.c\<close>, over the slot cache, the bitmap and the locks.
  \<^item> \<open>Machine\<close>, \<open>Kspace\<close>, \<open>Uspace\<close>, \<open>Uload\<close>, \<open>Ufree\<close>, \<open>Uscan\<close>, \<open>Unext\<close>: the stack put together on RISC-V. The locale
    \<open>riscv_machine\<close> derives \<open>direct_frames\<close> and \<open>kernel_walk\<close> from the library's own functions; a small concrete machine
    interprets it. Kernel and user mappings refine maps from pages to frames, the allocator a set of frames; a mapping
    is loaded into the root table, searched for its next page, and freed.
  \<^item> \<open>Timer\<close>: the conversions of \<^verbatim>\<open>libnux/time.c\<close> and the symbol look-up of \<^verbatim>\<open>libnux/symbol.c\<close>.

  \<^bold>\<open>What is relied on.\<close> The properties of the RISC-V stack assume \<open>machine_env\<close>: the direct mapping translates an address of
  it to its offset, kernel objects have distinct addresses outside the frames for tables and pages, and those frames
  lie in the direct mapping, below the largest frame number, and are not frame 0. They speak of single calls on states
  in good order (\<open>kspace_ok\<close>, \<open>uspace_ok\<close>, \<open>machine_ok\<close>) and show that the state after the call is in good order
  again. Interleavings of CPUs are modelled for the readers-writer lock only.

  \<^bold>\<open>Bounds and loops.\<close> No fuel is used. Loops over ranges of addresses (\<open>mapped_loop\<close>, \<open>ensure_loop\<close>) and the loops of the
  red-black tree are partial functions in the option type: not returning is \<open>None\<close>. The tables have 512 entries and the
  arrays of user mappings 8, as in the code; bitmaps have an order of at most 30, beyond which the offsets of \<^verbatim>\<open>stree.h\<close>
  overflow.

  \<^bold>\<open>Not modelled.\<close> The zones of \<^verbatim>\<open>libnux/alloc.h\<close> and their users \<^verbatim>\<open>kva.c\<close>, \<^verbatim>\<open>kmem.c\<close> and \<^verbatim>\<open>slab.c\<close>: headers written inside the
  memory they manage. The order of initialisation in \<^verbatim>\<open>libnux/init.c\<close>. The copies to and from user memory in
  \<^verbatim>\<open>libnux/uaddr.c\<close>. In the hardware layers the assembly, the dispatch of traps, \<^verbatim>\<open>riscv.c\<close>, \<^verbatim>\<open>x86.c\<close>, \<^verbatim>\<open>amd64.c\<close> and the i386
  variants, which are inline assembly and accesses to device and control registers; the AMD64 page tables of \<^verbatim>\<open>pae64.c\<close>,
  which have the structure of the RISC-V ones. The platform layers, which read firmware tables and program interrupt
  controllers. The boot loader \<^verbatim>\<open>apxh\<close>, the rest of \<^verbatim>\<open>libec\<close>, the framebuffer console, the examples, the tools and the
  user-side stubs. The model does not follow what is printed.
\<close>

end
